(* ===== verification/Async2_Prelude.thy ===== *)
theory Async2_Prelude
  imports Main "HOL-Library.Word" "HOL-Library.Multiset" "HOL-Library.AList"
    "HOL-Library.Char_ord" "HOL-Library.List_Lexorder"
begin

text \<open>
  Shared vocabulary of the development: the types that name machine integers and byte
  strings, the outcome type of fallible operations, the association lists that stand for
  the hash maps of the program, and the generic lemmas the component theories rest on.
\<close>

unbundle bit_operations_syntax

section \<open>Types\<close>

type_synonym byte = "8 word"
type_synonym u16 = "16 word"
type_synonym u32 = "32 word"
type_synonym u64 = "64 word"

text \<open>A C++ \<^verbatim>\<open>int64_t\<close> is a 64-bit word read through \<^const>\<open>sint\<close>; a
  \<^verbatim>\<open>double\<close> is kept as its IEEE 754 bit pattern.\<close>

type_synonym i32 = "32 word"
type_synonym i64 = "64 word"
type_synonym f64 = "64 word"

text \<open>What a routine that walks a buffer ends with: a value, a null result, or a fault (an access
  outside the buffer, which is undefined behaviour in C++).\<close>

datatype 'a outcome = Value 'a | NullPtr | Fault

primrec and_then :: "'a outcome \<Rightarrow> ('a \<Rightarrow> 'b outcome) \<Rightarrow> 'b outcome" where
  "and_then (Value x) f = f x"
| "and_then NullPtr f = NullPtr"
| "and_then Fault f = Fault"

lemma and_then_cong [fundef_cong]:
  "m = m' \<Longrightarrow> (\<And>x. m' = Value x \<Longrightarrow> f x = f' x) \<Longrightarrow> and_then m f = and_then m' f'"
  by (cases m') auto

lemma and_then_eq_Value [simp]:
  "and_then m f = Value y \<longleftrightarrow> (\<exists>x. m = Value x \<and> f x = Value y)"
  by (cases m) auto

lemma and_then_eq_Fault [simp]:
  "and_then m f = Fault \<longleftrightarrow> m = Fault \<or> (\<exists>x. m = Value x \<and> f x = Fault)"
  by (cases m) auto

section \<open>Collections of facts\<close>

named_theorems layout_simps \<open>facts on rearranged association lists\<close>
named_theorems consume_simps \<open>facts on how much input a reader consumes\<close>

section \<open>Lists\<close>

lemma drop_eq_Cons_nth:
  "drop n xs = y # ys \<Longrightarrow> n < length xs \<and> xs ! n = y \<and> drop (Suc n) xs = ys"
  by (metis Cons_nth_drop_Suc drop_all leI list.distinct(1) list.inject)

lemma drop_eq_append:
  "drop n xs = ys @ zs \<Longrightarrow> drop (n + length ys) xs = zs"
  by (metis add.commute append_eq_conv_conj drop_drop)

lemma last_notin_butlast: "distinct xs \<Longrightarrow> xs \<noteq> [] \<Longrightarrow> last xs \<notin> set (butlast xs)"
  by (induction xs) auto

lemma hd_notin_tl: "distinct xs \<Longrightarrow> hd xs \<notin> set (tl xs)"
  by (cases xs) auto

section \<open>Words\<close>

lemma unat_of_nat_small: "n < 2 ^ LENGTH('a) \<Longrightarrow> unat (of_nat n :: 'a :: len word) = n"
  by (simp add: unat_of_nat)

lemma word_of_int_sint: "word_of_int (sint v) = (v :: 'a :: len word)"
  by (metis scast_eq scast_id)

lemma ucast_word_of_sint:
  "LENGTH('b) \<le> LENGTH('a) \<Longrightarrow> (ucast (v :: 'a :: len word) :: 'b :: len word) = word_of_int (sint v)"
  by (metis is_down ucast_down_wi word_of_int_sint)

lemma ucast_ucast_nonneg:
  fixes v :: "'a :: len word"
  assumes "0 \<le> sint v" "sint v < 2 ^ LENGTH('b)" "LENGTH('b) \<le> LENGTH('a)"
  shows "ucast (ucast v :: 'b :: len word) = v"
proof -
  have "uint (ucast v :: 'b word) = sint v"
    unfolding ucast_word_of_sint [OF assms(3)] uint_word_of_int
    using assms(1,2) by (rule mod_pos_pos_trivial)
  then show ?thesis by (metis ucast_eq word_of_int_sint)
qed

lemma scast_ucast_small:
  fixes v :: "'a :: len word"
  assumes "- (2 ^ (LENGTH('b) - 1)) \<le> sint v" "sint v < 2 ^ (LENGTH('b) - 1)" "LENGTH('b) \<le> LENGTH('a)"
  shows "scast (ucast v :: 'b :: len word) = v"
proof -
  have "sint (ucast v :: 'b word) = sint v"
    unfolding ucast_word_of_sint [OF assms(3)] sint_sbintrunc'
    using assms(1,2) by (rule signed_take_bit_int_eq_self)
  then show ?thesis by (metis scast_eq word_of_int_sint)
qed

lemma sint_i64: "sint (v :: i64) = (if uint v < 2 ^ 63 then uint v else uint v - 2 ^ 64)"
proof -
  have "sint v = (uint v + 2 ^ 63) mod 2 ^ 64 - 2 ^ 63"
    using int_word_sint [of "uint v", where ?'a = 64] by simp
  moreover have "0 \<le> uint v" "uint v < 2 ^ 64"
    using unsigned_less [of v, where ?'a = int] by simp_all
  moreover have "(uint v + 2 ^ 63) mod 2 ^ 64 = (uint v + 2 ^ 63 - 2 ^ 64) mod 2 ^ 64"
    by (rule minus_mod_self2 [symmetric])
  ultimately show ?thesis by auto
qed

text \<open>The big-endian bytes of a word put together again.\<close>

lemma join_u16:
  "push_bit 8 (ucast (ucast (drop_bit 8 v) :: byte)) OR ucast (ucast v :: byte) = (v :: u16)"
  by (rule bit_word_eqI) (auto simp: bit_simps)

lemma join_u32:
  fixes v :: u32
  shows "push_bit 24 (ucast (ucast (drop_bit 24 v) :: byte))
     OR push_bit 16 (ucast (ucast (drop_bit 16 v) :: byte))
     OR push_bit 8 (ucast (ucast (drop_bit 8 v) :: byte)) OR ucast (ucast v :: byte) = v"
    (is "?l = v")
proof (rule bit_word_eqI)
  fix n assume "n < LENGTH(32)"
  then consider "n < 8" | "8 \<le> n" "n < 16" | "16 \<le> n" "n < 24" | "24 \<le> n" "n < 32" by fastforce
  then show "bit ?l n = bit v n" by cases (auto simp: bit_simps)
qed

lemma join_u64:
  "push_bit 32 (ucast (ucast (drop_bit 32 v) :: u32)) OR ucast (ucast v :: u32) = (v :: u64)"
  by (rule bit_word_eqI) (auto simp: bit_simps)

section \<open>Bytes and characters\<close>

text \<open>A \<^verbatim>\<open>char\<close> of the program and the byte it is stored in.\<close>

definition byte_of :: "char \<Rightarrow> byte" where
  "byte_of c = of_nat (of_char c)"

definition char_of_byte :: "byte \<Rightarrow> char" where
  "char_of_byte b = char_of (unat b)"

lemma char_of_byte_inverse [simp]: "char_of_byte (byte_of c) = c"
  by (simp add: char_of_byte_def byte_of_def unat_of_nat)

lemma unat_byte_less: "unat (b :: byte) < 256"
  using unsigned_less [of b, where ?'a = nat] by simp

lemma byte_of_inverse [simp]: "byte_of (char_of_byte b) = b"
proof -
  have "of_char (char_of (unat b)) = unat b"
    using unat_byte_less [of b] by (simp only: of_char_of mod_less)
  then show ?thesis by (simp add: char_of_byte_def byte_of_def)
qed

abbreviation code :: "char \<Rightarrow> nat" where
  "code \<equiv> of_char"

text \<open>\<^verbatim>\<open>c_str()\<close> of a string is read up to the first NUL by every function that
  takes a \<^verbatim>\<open>const char*\<close>.\<close>

definition c_str :: "string \<Rightarrow> string" where
  "c_str s = takeWhile (\<lambda>c. c \<noteq> CHR 0x00) s"

lemma c_str_id: "CHR 0x00 \<notin> set s \<Longrightarrow> c_str s = s"
  unfolding c_str_def takeWhile_eq_all_conv by blast

lemma c_str_no_nul [simp]: "CHR 0x00 \<notin> set (c_str s)"
  unfolding c_str_def by (auto dest: set_takeWhileD)

section \<open>Doubles by their bits\<close>

definition f64_is_nan :: "f64 \<Rightarrow> bool" where
  "f64_is_nan d \<longleftrightarrow> (d AND 0x7FF0000000000000) = 0x7FF0000000000000
     \<and> (d AND 0x000FFFFFFFFFFFFF) \<noteq> 0"

definition f64_is_inf :: "f64 \<Rightarrow> bool" where
  "f64_is_inf d \<longleftrightarrow> (d AND 0x7FFFFFFFFFFFFFFF) = 0x7FF0000000000000"

definition f64_is_zero :: "f64 \<Rightarrow> bool" where
  "f64_is_zero d \<longleftrightarrow> (d AND 0x7FFFFFFFFFFFFFFF) = 0"

text \<open>The comparison \<^verbatim>\<open>a == b\<close> on doubles: false on a NaN, true on the two zeros.\<close>

definition f64_eq :: "f64 \<Rightarrow> f64 \<Rightarrow> bool" where
  "f64_eq a b \<longleftrightarrow> \<not> f64_is_nan a \<and> \<not> f64_is_nan b
     \<and> (a = b \<or> f64_is_zero a \<and> f64_is_zero b)"

text \<open>The conversion \<^verbatim>\<open>static_cast<double>(float)\<close>: it is exact; a subnormal float
  becomes a normal double, and a signalling NaN a quiet one.\<close>

fun floor_log2 :: "nat \<Rightarrow> nat" where
  "floor_log2 n = (if n < 2 then 0 else Suc (floor_log2 (n div 2)))"

declare floor_log2.simps [simp del]

definition f64_of_f32 :: "u32 \<Rightarrow> f64" where
  "f64_of_f32 b =
     (let s = push_bit 63 (ucast (drop_bit 31 b) :: u64);
          e = (ucast (drop_bit 23 b AND 0xFF) :: u64);
          m = (ucast (b AND 0x7FFFFF) :: u64)
      in if e = 0xFF then
           s OR 0x7FF0000000000000 OR push_bit 29 m OR (if m = 0 then 0 else 0x0008000000000000)
         else if e = 0 then
           (if m = 0 then s
            else let k = floor_log2 (unat m)
                 in s OR push_bit 52 (of_nat (k + 874)) OR push_bit (52 - k) (m - push_bit k 1))
         else s OR push_bit 52 (e + 896) OR push_bit 29 m)"

section \<open>Hash maps\<close>

text \<open>
  The program's maps are \<^verbatim>\<open>tsl::robin_map\<close> containers (\<^verbatim>\<open>data/data_map.h\<close>), a
  third-party hash table.  A map is modelled by the list of its entries in iteration order.
  Where the table puts its entries is its own affair: the operations that insert or erase take
  a layout, a function that says in which order the keys are iterated afterwards.  What is
  relied on is that a layout only permutes the keys (\<open>layout_ok\<close>).
\<close>

definition layout_ok :: "('k list \<Rightarrow> 'k list) \<Rightarrow> bool" where
  "layout_ok lay \<longleftrightarrow> (\<forall>ks. mset (lay ks) = mset ks)"

definition rearrange :: "('k list \<Rightarrow> 'k list) \<Rightarrow> ('k \<times> 'v) list \<Rightarrow> ('k \<times> 'v) list" where
  "rearrange lay m = map (\<lambda>k. (k, the (map_of m k))) (lay (map fst m))"

definition map_put :: "('k list \<Rightarrow> 'k list) \<Rightarrow> 'k \<Rightarrow> 'v \<Rightarrow> ('k \<times> 'v) list \<Rightarrow> ('k \<times> 'v) list" where
  "map_put lay k v m =
     (if k \<in> fst ` set m then AList.update k v m else rearrange lay (m @ [(k, v)]))"

definition map_del :: "('k list \<Rightarrow> 'k list) \<Rightarrow> 'k \<Rightarrow> ('k \<times> 'v) list \<Rightarrow> ('k \<times> 'v) list" where
  "map_del lay k m = rearrange lay (filter (\<lambda>p. fst p \<noteq> k) m)"

lemma layout_okD: "layout_ok lay \<Longrightarrow> mset (lay ks) = mset ks"
  unfolding layout_ok_def by blast

lemma layout_ok_id [simp, intro]: "layout_ok (\<lambda>ks. ks)"
  by (simp add: layout_ok_def)

lemma layout_ok_rev [simp, intro]: "layout_ok rev"
  by (simp add: layout_ok_def)

lemma rearrange_mset [layout_simps]:
  assumes "layout_ok lay" "distinct (map fst m)"
  shows "mset (rearrange lay m) = mset m"
proof -
  have "mset (rearrange lay m) = image_mset (\<lambda>k. (k, the (map_of m k))) (mset (map fst m))"
    by (simp only: rearrange_def mset_map layout_okD [OF assms(1)])
  also have "\<dots> = mset (map (\<lambda>p. (fst p, the (map_of m (fst p)))) m)"
    by (simp add: image_mset.compositionality comp_def)
  also have "map (\<lambda>p. (fst p, the (map_of m (fst p)))) m = m"
    using assms(2) by (intro map_idI) (auto simp: map_of_eq_Some_iff)
  finally show ?thesis .
qed

lemma rearrange_keys [layout_simps]:
  assumes "layout_ok lay"
  shows "mset (map fst (rearrange lay m)) = mset (map fst m)"
proof -
  have "map fst (rearrange lay m) = lay (map fst m)"
    by (simp add: rearrange_def comp_def)
  then show ?thesis by (simp only: layout_okD [OF assms])
qed

lemma mset_distinct_map_of:
  assumes "mset m = mset m'" "distinct (map fst m)"
  shows "distinct (map fst m')" "map_of m = map_of m'" "length m = length m'"
proof -
  show d: "distinct (map fst m')"
    using assms by (metis mset_eq_imp_distinct_iff mset_map)
  show "map_of m = map_of m'"
    using assms(2) d mset_eq_setD [OF assms(1)] by (simp add: map_of_inject_set)
  show "length m = length m'"
    using assms(1) by (rule mset_eq_length)
qed

lemma map_put_mset [layout_simps]:
  assumes "layout_ok lay" "distinct (map fst m)" "k \<notin> fst ` set m"
  shows "mset (map_put lay k v m) = add_mset (k, v) (mset m)"
  using assms by (simp add: map_put_def rearrange_mset)

lemma map_put_distinct [layout_simps]:
  assumes "layout_ok lay" "distinct (map fst m)"
  shows "distinct (map fst (map_put lay k v m))"
proof (cases "k \<in> fst ` set m")
  case True
  with assms show ?thesis by (simp add: map_put_def distinct_update)
next
  case False
  have "distinct (map fst (m @ [(k, v)]))" using assms(2) False by simp
  with rearrange_mset [OF assms(1) this] False show ?thesis
    by (metis map_put_def mset_distinct_map_of(1))
qed

lemma map_put_lookup [layout_simps]:
  assumes "layout_ok lay" "distinct (map fst m)"
  shows "map_of (map_put lay k v m) = (map_of m)(k \<mapsto> v)"
proof (cases "k \<in> fst ` set m")
  case True
  then show ?thesis by (simp add: map_put_def update_conv')
next
  case False
  have d: "distinct (map fst (m @ [(k, v)]))" using assms(2) False by simp
  have "map_of (rearrange lay (m @ [(k, v)])) = map_of (m @ [(k, v)])"
    using mset_distinct_map_of(2) [OF _ d] rearrange_mset [OF assms(1) d] by metis
  also have "\<dots> = (map_of m)(k \<mapsto> v)"
    using False map_of_eq_None_iff [of m k]
    by (auto simp: map_add_def fun_eq_iff split: option.splits)
  finally show ?thesis using False by (simp add: map_put_def)
qed

lemma map_put_entries:
  assumes "layout_ok lay" "distinct (map fst m)" "P v" "\<forall>p \<in> set m. P (snd p)"
  shows "\<forall>p \<in> set (map_put lay k v m). P (snd p)"
proof
  fix p assume "p \<in> set (map_put lay k v m)"
  then have "map_of (map_put lay k v m) (fst p) = Some (snd p)"
    using map_put_distinct [OF assms(1,2)] by (simp add: map_of_eq_Some_iff)
  then show "P (snd p)"
    using assms(3,4) by (auto simp: map_put_lookup [OF assms(1,2)] split: if_splits dest: map_of_SomeD)
qed

lemma map_del_mset [layout_simps]:
  assumes "layout_ok lay" "distinct (map fst m)"
  shows "mset (map_del lay k m) = filter_mset (\<lambda>p. fst p \<noteq> k) (mset m)"
proof -
  have "distinct (map fst (filter (\<lambda>p. fst p \<noteq> k) m))"
    using assms(2) by (simp add: distinct_map_filter)
  with assms(1) show ?thesis by (simp add: map_del_def rearrange_mset)
qed

lemma update_fresh: "k \<notin> set (map fst m) \<Longrightarrow> AList.update k v m = m @ [(k, v)]"
  by (induction m) auto

lemma delete_key:
  assumes "distinct (map fst m)" "mset m = add_mset (k, v) M"
  shows "mset (AList.delete k m) = M"
proof -
  obtain ys where ys: "mset ys = M" by (metis ex_mset)
  then have "mset m = mset ((k, v) # ys)" by (simp add: assms(2))
  then have "distinct (map fst ((k, v) # ys))" by (rule mset_distinct_map_of(1) [OF _ assms(1)])
  then have k: "filter (\<lambda>p. k \<noteq> fst p) ys = ys" by (auto simp: filter_id_conv)
  have "mset (AList.delete k m) = filter_mset (\<lambda>p. k \<noteq> fst p) (mset m)"
    by (simp add: AList.delete_eq case_prod_unfold)
  also have "\<dots> = mset (filter (\<lambda>p. k \<noteq> fst p) ys)" by (simp add: assms(2) ys)
  finally show ?thesis by (simp only: k ys)
qed

text \<open>What the operations do to the values of a map.\<close>

lemma values_update:
  assumes "map_of m k = Some old"
  shows "add_mset old (mset (map snd (AList.update k v m))) = add_mset v (mset (map snd m))"
  using assms by (induction m) (auto split: if_splits simp: add_mset_commute)

lemma values_has: "map_of m k = Some v \<Longrightarrow> mset (map snd m) = add_mset v (mset (map snd m) - {#v#})"
  by (rule insert_DiffM [symmetric]) (force dest: map_of_SomeD)

lemma values_put:
  assumes "layout_ok lay" "distinct (map fst m)" "map_of m k = None"
  shows "mset (map snd (map_put lay k v m)) = add_mset v (mset (map snd m))"
proof -
  have "k \<notin> fst ` set m" using assms(3) by (simp add: map_of_eq_None_iff)
  from map_put_mset [OF assms(1,2) this, of v] show ?thesis by simp
qed

lemma map_del_distinct:
  assumes "layout_ok lay" "distinct (map fst m)"
  shows "distinct (map fst (map_del lay k m))"
proof -
  have "distinct (map fst (filter (\<lambda>p. fst p \<noteq> k) m))"
    using assms(2) by (simp add: distinct_map_filter)
  moreover have "mset (filter (\<lambda>p. fst p \<noteq> k) m) = mset (map_del lay k m)"
    by (simp add: map_del_mset [OF assms])
  ultimately show ?thesis by (rule mset_distinct_map_of(1) [rotated])
qed

lemma values_del:
  assumes "layout_ok lay" "distinct (map fst m)" "map_of m k = Some old"
  shows "add_mset old (mset (map snd (map_del lay k m))) = mset (map snd m)"
proof -
  have "mset m = add_mset (k, old) (mset (filter (\<lambda>p. fst p \<noteq> k) m))"
    using assms(2,3)
  proof (induction m)
    case (Cons p m)
    have "filter (\<lambda>p. fst p \<noteq> k) m = m" if "k \<notin> fst ` set m"
      using that by (auto simp: filter_id_conv)
    with Cons show ?case by (cases "fst p = k") (auto simp flip: mset_filter)
  qed simp
  from arg_cong [OF this, of "image_mset snd"] show ?thesis
    using map_del_mset [OF assms(1,2), of k] by (simp flip: mset_filter)
qed

section \<open>Refinement of operation sequences\<close>

text \<open>A component with state, and the abstract machine it implements: the operations are run one
  after the other, None where one of them faults.\<close>

primrec run_all :: "('op \<Rightarrow> 's \<Rightarrow> ('r \<times> 's) option) \<Rightarrow> 'op list \<Rightarrow> 's \<Rightarrow> ('r list \<times> 's) option" where
  "run_all run [] s = Some ([], s)"
| "run_all run (op # ops) s = (case run op s of
     None \<Rightarrow> None
   | Some (r, s') \<Rightarrow> (case run_all run ops s' of None \<Rightarrow> None | Some (rs, s'') \<Rightarrow> Some (r # rs, s'')))"

primrec spec_all :: "('op \<Rightarrow> 'a \<Rightarrow> 'r \<Rightarrow> 'a \<Rightarrow> bool) \<Rightarrow> 'op list \<Rightarrow> 'a \<Rightarrow> 'r list \<Rightarrow> 'a \<Rightarrow> bool" where
  "spec_all spec [] a rs b \<longleftrightarrow> rs = [] \<and> b = a"
| "spec_all spec (op # ops) a rs b \<longleftrightarrow>
     (\<exists>r rs' c. rs = r # rs' \<and> spec op a r c \<and> spec_all spec ops c rs' b)"

locale refinement =
  fixes run :: "'op \<Rightarrow> 's \<Rightarrow> ('r \<times> 's) option"
    and spec :: "'op \<Rightarrow> 'a \<Rightarrow> 'r \<Rightarrow> 'a \<Rightarrow> bool"
    and abs :: "'s \<Rightarrow> 'a"
    and ok :: "'s \<Rightarrow> bool"
    and room :: "nat \<Rightarrow> 's \<Rightarrow> bool"
  assumes step: "ok s \<Longrightarrow> room (Suc k) s \<Longrightarrow>
    \<exists>r s'. run op s = Some (r, s') \<and> ok s' \<and> room k s' \<and> spec op (abs s) r (abs s')"
begin

lemma runs:
  assumes "ok s" "room (length ops) s"
  shows "\<exists>rs s'. run_all run ops s = Some (rs, s') \<and> ok s' \<and> spec_all spec ops (abs s) rs (abs s')"
  using assms
proof (induction ops arbitrary: s)
  case (Cons op ops)
  then obtain r s1 where 1: "run op s = Some (r, s1)" "ok s1" "room (length ops) s1" "spec op (abs s) r (abs s1)"
    using step [of s "length ops" op] by auto
  from Cons.IH [OF 1(2,3)] obtain rs s2 where
    "run_all run ops s1 = Some (rs, s2)" "ok s2" "spec_all spec ops (abs s1) rs (abs s2)" by blast
  with 1 show ?case by auto
qed simp

end

end
