(* ===== verification/Locked_Queue.thy ===== *)
theory Locked_Queue
  imports Async2_Prelude
begin

text \<open>
  The queue that carries requests, completions and socket events between the game thread
  and the event thread (\<^verbatim>\<open>src/locked_queue.h\<close>).  Every operation is called between
  \<^verbatim>\<open>Lock\<close> and \<^verbatim>\<open>Unlock\<close>, so an operation is one atomic step on the record
  below; \<^verbatim>\<open>HasItems\<close> alone is read without the lock, and reads the flag.
\<close>

section \<open>Model\<close>

record 'a LockedQueue =
  queue :: "'a list"
  has_items :: bool

definition LockedQueue_init :: "'a LockedQueue" where
  "LockedQueue_init = \<lparr>queue = [], has_items = False\<rparr>"

text \<open>\<^verbatim>\<open>Pop\<close> on an empty deque is undefined behaviour: None.\<close>

definition Pop :: "'a LockedQueue \<Rightarrow> ('a \<times> 'a LockedQueue) option" where
  "Pop q = (case queue q of
     [] \<Rightarrow> None
   | output # rest \<Rightarrow> Some (output, q\<lparr>queue := rest, has_items := (rest \<noteq> [])\<rparr>))"

definition Push :: "'a \<Rightarrow> 'a LockedQueue \<Rightarrow> 'a LockedQueue" where
  "Push item q = q\<lparr>queue := queue q @ [item], has_items := True\<rparr>"

definition Empty :: "'a LockedQueue \<Rightarrow> bool" where
  "Empty q \<longleftrightarrow> queue q = []"

definition HasItems :: "'a LockedQueue \<Rightarrow> bool" where
  "HasItems q \<longleftrightarrow> has_items q"

text \<open>The flag agrees with the deque.\<close>

definition queue_ok :: "'a LockedQueue \<Rightarrow> bool" where
  "queue_ok q \<longleftrightarrow> (has_items q \<longleftrightarrow> queue q \<noteq> [])"

section \<open>The interface of a first-in first-out queue\<close>

locale fifo_queue =
  fixes init :: "'q"
    and push :: "'a \<Rightarrow> 'q \<Rightarrow> 'q"
    and pop :: "'q \<Rightarrow> ('a \<times> 'q) option"
    and invar :: "'q \<Rightarrow> bool"
    and items :: "'q \<Rightarrow> 'a list"
  assumes init_invar: "invar init"
    and init_items: "items init = []"
    and push_invar: "invar q \<Longrightarrow> invar (push x q)"
    and push_items: "invar q \<Longrightarrow> items (push x q) = items q @ [x]"
    and pop_None: "invar q \<Longrightarrow> pop q = None \<longleftrightarrow> items q = []"
    and pop_Some: "invar q \<Longrightarrow> pop q = Some (x, q') \<Longrightarrow> invar q' \<and> items q = x # items q'"
begin

lemma push_all:
  assumes "invar q"
  shows "invar (fold push xs q) \<and> items (fold push xs q) = items q @ xs"
  using assms by (induction xs arbitrary: q) (simp_all add: push_invar push_items)

end

interpretation lq: fifo_queue LockedQueue_init Push Pop queue_ok queue
  by unfold_locales
     (auto simp: LockedQueue_init_def Push_def Pop_def queue_ok_def split: list.splits)

section \<open>The consumer's loop\<close>

text \<open>The consumers drain a queue with
  \<^verbatim>\<open>while (!queue.Empty()) { x = queue.Pop(); ... }\<close>, as in
  \<^verbatim>\<open>EventLoop::OnAsyncAdd\<close>.\<close>

function drain :: "'a LockedQueue \<Rightarrow> 'a list \<times> 'a LockedQueue" where
  "drain q = (case Pop q of
     None \<Rightarrow> ([], q)
   | Some (x, q') \<Rightarrow> (let (xs, q'') = drain q' in (x # xs, q'')))"
  by pat_completeness auto
termination
  by (relation "measure (\<lambda>q. length (queue q))")
     (auto simp: Pop_def split: list.splits)

declare drain.simps [simp del]

lemma drain_items:
  assumes "queue_ok q"
  shows "fst (drain q) = queue q \<and> queue_ok (snd (drain q)) \<and> queue (snd (drain q)) = []"
  using assms
proof (induction "queue q" arbitrary: q)
  case Nil
  then have "Pop q = None" by (simp add: lq.pop_None)
  with Nil show ?case by (simp add: drain.simps [of q])
next
  case (Cons x xs)
  then obtain y q' where pop: "Pop q = Some (y, q')"
    by (metis lq.pop_None list.distinct(1) not_Some_eq surj_pair)
  with lq.pop_Some [OF Cons.prems pop] Cons.hyps
  have q': "queue_ok q'" "y = x" "queue q' = xs" by auto
  from Cons.hyps(1) [OF q'(3) [symmetric] q'(1)] pop q' Cons.hyps(2) [symmetric] show ?case
    by (auto simp: drain.simps [of q] split: prod.splits)
qed

text \<open>C27: whatever was pushed since the queue was created is what a consumer that drains it
  sees, once each and in order, and afterwards the unlocked flag reads false again; before the
  drain it reads true exactly when something was pushed.\<close>

theorem drain_fifo:
  "fst (drain (fold Push xs LockedQueue_init)) = xs
   \<and> HasItems (fold Push xs LockedQueue_init) = (xs \<noteq> [])
   \<and> HasItems (snd (drain (fold Push xs LockedQueue_init))) = False"
proof -
  let ?q = "fold Push xs (LockedQueue_init :: 'a LockedQueue)"
  have q: "queue_ok ?q" "queue ?q = xs"
    using lq.push_all [OF lq.init_invar, of xs] by (simp_all add: LockedQueue_init_def)
  with drain_items [OF q(1)] show ?thesis
    by (auto simp: HasItems_def queue_ok_def)
qed

end
