(* ===== verification/Data_Node.thy ===== *)
theory Data_Node
  imports Async2_Prelude
begin

text \<open>
  The tree of typed values behind every JSON, Hjson and MessagePack handle
  (\<^verbatim>\<open>src/data/data_node.h\<close>, \<^verbatim>\<open>data_node.cpp\<close>), as values: what a node that
  is not shared holds.  \<^verbatim>\<open>DeepCopy\<close> and \<^verbatim>\<open>Equals\<close> are here; \<open>content\<close> is
  the reference notion of what a tree means, in which the iteration order of a map is
  forgotten.  Sharing and reference counts are the subject of another theory.
\<close>

section \<open>Model\<close>

datatype DataNode =
    NullN
  | BoolN bool
  | IntN i64
  | FloatN f64
  | StringN string
  | ArrayN "DataNode list"
  | ObjectN "(string \<times> DataNode) list"
  | IntMapN "(i64 \<times> DataNode) list"
  | BinaryN "byte list"

text \<open>The layouts of the two kinds of hash map a node can hold.\<close>

record layouts =
  str_layout :: "string list \<Rightarrow> string list"
  int_layout :: "i64 list \<Rightarrow> i64 list"

definition layouts_ok :: "layouts \<Rightarrow> bool" where
  "layouts_ok L \<longleftrightarrow> layout_ok (str_layout L) \<and> layout_ok (int_layout L)"

text \<open>A loop that inserts its entries one after the other into a map.\<close>

definition put_all :: "('k list \<Rightarrow> 'k list) \<Rightarrow> ('k \<times> 'v) list \<Rightarrow> ('k \<times> 'v) list \<Rightarrow> ('k \<times> 'v) list" where
  "put_all lay ps m = fold (\<lambda>(k, v). map_put lay k v) ps m"

primrec DeepCopy :: "layouts \<Rightarrow> DataNode \<Rightarrow> DataNode" where
  "DeepCopy L NullN = NullN"
| "DeepCopy L (BoolN b) = BoolN b"
| "DeepCopy L (IntN i) = IntN i"
| "DeepCopy L (FloatN d) = FloatN d"
| "DeepCopy L (StringN s) = StringN (c_str s)"
| "DeepCopy L (ArrayN xs) = ArrayN (map (DeepCopy L) xs)"
| "DeepCopy L (ObjectN m) = ObjectN (put_all (str_layout L) (map (map_prod id (DeepCopy L)) m) [])"
| "DeepCopy L (IntMapN m) = IntMapN (put_all (int_layout L) (map (map_prod id (DeepCopy L)) m) [])"
| "DeepCopy L (BinaryN bs) = BinaryN bs"

text \<open>\<^verbatim>\<open>Equals\<close> takes a pointer that may be null: None.\<close>

primrec Equals :: "DataNode \<Rightarrow> DataNode option \<Rightarrow> bool" where
  "Equals NullN other = (case other of Some NullN \<Rightarrow> True | _ \<Rightarrow> False)"
| "Equals (BoolN b) other = (case other of Some (BoolN b') \<Rightarrow> b = b' | _ \<Rightarrow> False)"
| "Equals (IntN i) other = (case other of Some (IntN i') \<Rightarrow> i = i' | _ \<Rightarrow> False)"
| "Equals (FloatN d) other = (case other of Some (FloatN d') \<Rightarrow> f64_eq d d' | _ \<Rightarrow> False)"
| "Equals (StringN s) other = (case other of Some (StringN s') \<Rightarrow> s = s' | _ \<Rightarrow> False)"
| "Equals (ArrayN xs) other = (case other of
     Some (ArrayN ys) \<Rightarrow> length xs = length ys
       \<and> list_all2 (\<lambda>eq y. eq (Some y)) (map Equals xs) ys
   | _ \<Rightarrow> False)"
| "Equals (ObjectN m) other = (case other of
     Some (ObjectN m') \<Rightarrow> length m = length m'
       \<and> list_all (\<lambda>(k, eq). case map_of m' k of None \<Rightarrow> False | Some v \<Rightarrow> eq (Some v))
           (map (map_prod id Equals) m)
   | _ \<Rightarrow> False)"
| "Equals (IntMapN m) other = (case other of
     Some (IntMapN m') \<Rightarrow> length m = length m'
       \<and> list_all (\<lambda>(k, eq). case map_of m' k of None \<Rightarrow> False | Some v \<Rightarrow> eq (Some v))
           (map (map_prod id Equals) m)
   | _ \<Rightarrow> False)"
| "Equals (BinaryN bs) other = (case other of Some (BinaryN bs') \<Rightarrow> bs = bs' | _ \<Rightarrow> False)"

section \<open>What a tree means\<close>

text \<open>A well-formed tree has at most one entry per key in each of its maps.\<close>

primrec wf_node :: "DataNode \<Rightarrow> bool" where
  "wf_node NullN = True"
| "wf_node (BoolN b) = True"
| "wf_node (IntN i) = True"
| "wf_node (FloatN d) = True"
| "wf_node (StringN s) = True"
| "wf_node (ArrayN xs) = list_all id (map wf_node xs)"
| "wf_node (ObjectN m) = (distinct (map fst m) \<and> list_all snd (map (map_prod id wf_node) m))"
| "wf_node (IntMapN m) = (distinct (map fst m) \<and> list_all snd (map (map_prod id wf_node) m))"
| "wf_node (BinaryN bs) = True"

text \<open>The content of a tree lists the entries of each map in the order of their keys, so that two
  trees have the same content exactly when they differ in iteration orders only.\<close>

primrec content :: "DataNode \<Rightarrow> DataNode" where
  "content NullN = NullN"
| "content (BoolN b) = BoolN b"
| "content (IntN i) = IntN i"
| "content (FloatN d) = FloatN d"
| "content (StringN s) = StringN s"
| "content (ArrayN xs) = ArrayN (map content xs)"
| "content (ObjectN m) = ObjectN (sort_key fst (map (map_prod id content) m))"
| "content (IntMapN m) = IntMapN (sort_key fst (map (map_prod id content) m))"
| "content (BinaryN bs) = BinaryN bs"

text \<open>All the strings of a tree, keys excluded, satisfy a predicate; so do all its doubles.\<close>

primrec all_strings :: "(string \<Rightarrow> bool) \<Rightarrow> DataNode \<Rightarrow> bool" where
  "all_strings P NullN = True"
| "all_strings P (BoolN b) = True"
| "all_strings P (IntN i) = True"
| "all_strings P (FloatN d) = True"
| "all_strings P (StringN s) = P s"
| "all_strings P (ArrayN xs) = list_all id (map (all_strings P) xs)"
| "all_strings P (ObjectN m) = list_all snd (map (map_prod id (all_strings P)) m)"
| "all_strings P (IntMapN m) = list_all snd (map (map_prod id (all_strings P)) m)"
| "all_strings P (BinaryN bs) = True"

primrec all_floats :: "(f64 \<Rightarrow> bool) \<Rightarrow> DataNode \<Rightarrow> bool" where
  "all_floats P NullN = True"
| "all_floats P (BoolN b) = True"
| "all_floats P (IntN i) = True"
| "all_floats P (FloatN d) = P d"
| "all_floats P (StringN s) = True"
| "all_floats P (ArrayN xs) = list_all id (map (all_floats P) xs)"
| "all_floats P (ObjectN m) = list_all snd (map (map_prod id (all_floats P)) m)"
| "all_floats P (IntMapN m) = list_all snd (map (map_prod id (all_floats P)) m)"
| "all_floats P (BinaryN bs) = True"

lemma list_all_id_map [simp]: "list_all id (map f xs) \<longleftrightarrow> (\<forall>x \<in> set xs. f x)"
  by (simp add: list_all_iff)

lemma list_all_snd_map_prod [simp]:
  "list_all snd (map (map_prod g f) m) \<longleftrightarrow> (\<forall>p \<in> set m. f (snd p))"
  by (auto simp: list_all_iff)

text \<open>Structural induction with a plain hypothesis for the entries of a map.\<close>

lemma DataNode_induct [case_names NullN BoolN IntN FloatN StringN ArrayN ObjectN IntMapN BinaryN]:
  assumes "P NullN" "\<And>b. P (BoolN b)" "\<And>i. P (IntN i)" "\<And>d. P (FloatN d)" "\<And>s. P (StringN s)"
    and "\<And>xs. (\<And>x. x \<in> set xs \<Longrightarrow> P x) \<Longrightarrow> P (ArrayN xs)"
    and "\<And>m. (\<And>p. p \<in> set m \<Longrightarrow> P (snd p)) \<Longrightarrow> P (ObjectN m)"
    and "\<And>m. (\<And>p. p \<in> set m \<Longrightarrow> P (snd p)) \<Longrightarrow> P (IntMapN m)"
    and "\<And>bs. P (BinaryN bs)"
  shows "P n"
proof (induction n)
  case (ObjectN m)
  then show ?case by (intro assms(7)) (metis snds.intros surjective_pairing)
next
  case (IntMapN m)
  then show ?case by (intro assms(8)) (metis snds.intros surjective_pairing)
qed (use assms in auto)

text \<open>How deep a tree is: the number of nodes below the root on the longest path.\<close>

primrec nesting :: "DataNode \<Rightarrow> nat" where
  "nesting NullN = 0"
| "nesting (BoolN b) = 0"
| "nesting (IntN i) = 0"
| "nesting (FloatN d) = 0"
| "nesting (StringN s) = 0"
| "nesting (ArrayN xs) = fold max (map (Suc \<circ> nesting) xs) 0"
| "nesting (ObjectN m) = fold max (map (Suc \<circ> snd) (map (map_prod id nesting) m)) 0"
| "nesting (IntMapN m) = fold max (map (Suc \<circ> snd) (map (map_prod id nesting) m)) 0"
| "nesting (BinaryN bs) = 0"

lemma fold_max_ge: "x \<in> set xs \<Longrightarrow> x \<le> fold max xs (a :: nat)" "a \<le> fold max xs a"
proof -
  have "fold max xs a = Max (set (a # xs))" by (simp only: Max.set_eq_fold)
  then show "x \<in> set xs \<Longrightarrow> x \<le> fold max xs (a :: nat)" "a \<le> fold max xs a" by simp_all
qed

lemma nesting_array: "x \<in> set xs \<Longrightarrow> nesting x < nesting (ArrayN xs)"
  using fold_max_ge(1) [of "Suc (nesting x)" "map (Suc \<circ> nesting) xs" 0] by simp

lemma nesting_map:
  "p \<in> set m \<Longrightarrow> nesting (snd p) < fold max (map (Suc \<circ> snd) (map (map_prod id nesting) m)) 0"
  using fold_max_ge(1) [of "Suc (nesting (snd p))" "map (Suc \<circ> snd) (map (map_prod id nesting) m)" 0]
  by force

section \<open>Inserting distinct keys\<close>

lemma put_all_mset:
  assumes "layout_ok lay" "distinct (map fst m @ map fst ps)"
  shows "mset (put_all lay ps m) = mset m + mset ps \<and> distinct (map fst (put_all lay ps m))"
  using assms(2)
proof (induction ps arbitrary: m)
  case Nil
  then show ?case by (simp add: put_all_def)
next
  case (Cons p ps)
  obtain k v where p: "p = (k, v)" by force
  let ?m = "map_put lay k v m"
  have k: "distinct (map fst m)" "k \<notin> fst ` set m" using Cons.prems p by auto
  have ms: "mset ?m = add_mset (k, v) (mset m)" by (rule map_put_mset [OF assms(1) k])
  then have "set ?m = insert (k, v) (set m)" by (metis set_mset_add_mset_insert set_mset_mset)
  moreover have "distinct (map fst ?m)" by (rule map_put_distinct [OF assms(1) k(1)])
  ultimately have "distinct (map fst ?m @ map fst ps)" using Cons.prems p by auto
  from Cons.IH [OF this] ms show ?case by (simp add: put_all_def p)
qed

lemma sort_key_fst_mset:
  fixes m m' :: "('k :: linorder \<times> 'v) list"
  assumes "mset m = mset m'" "distinct (map fst m)"
  shows "sort_key fst m = sort_key fst m'"
proof (rule sort_key_inj_key_eq)
  show "mset m = mset (sort_key fst m')" using assms(1) by simp
  show "inj_on fst (set m)" using assms(2) by (simp add: distinct_map)
qed simp

lemma content_put_all:
  fixes ps ps' :: "('k :: linorder \<times> DataNode) list"
  assumes "layout_ok lay" "distinct (map fst ps)"
    and "map (map_prod id content) ps' = map (map_prod id content) ps"
  shows "sort_key fst (map (map_prod id content) (put_all lay ps' []))
       = sort_key fst (map (map_prod id content) ps)"
proof -
  have keys: "map fst ps' = map fst ps"
    using arg_cong [OF assms(3), of "map fst"] by (simp add: comp_def)
  with assms(2) have "mset (put_all lay ps' []) = mset ps'"
    using put_all_mset [OF assms(1), of "[]" ps'] by simp
  then have "mset (map (map_prod id content) (put_all lay ps' [])) = mset (map (map_prod id content) ps)"
    using assms(3) by (metis mset_map)
  moreover have "distinct (map fst (map (map_prod id content) ps))"
    using assms(2) by (simp add: comp_def)
  ultimately show ?thesis by (intro sort_key_fst_mset [symmetric]) simp_all
qed

section \<open>DeepCopy and Equals\<close>

lemma copied_map:
  fixes m :: "('k :: linorder \<times> DataNode) list"
  assumes "layout_ok lay" "distinct (map fst m)"
    and IH: "\<And>p. p \<in> set m \<Longrightarrow> content (f (snd p)) = content (snd p) \<and> wf_node (f (snd p))"
  shows "sort_key fst (map (map_prod id content) (put_all lay (map (map_prod id f) m) []))
         = sort_key fst (map (map_prod id content) m)"
    and "distinct (map fst (put_all lay (map (map_prod id f) m) []))"
    and "\<forall>p \<in> set (put_all lay (map (map_prod id f) m) []). wf_node (snd p)"
proof -
  let ?ps = "map (map_prod id f) m"
  have d: "distinct (map fst ?ps)" using assms(2) by (simp add: comp_def)
  have c: "map (map_prod id content) ?ps = map (map_prod id content) m"
    using IH by (auto simp: comp_def map_prod_def split: prod.splits)
  have ms: "mset (put_all lay ?ps []) = mset ?ps \<and> distinct (map fst (put_all lay ?ps []))"
    using put_all_mset [OF assms(1), of "[]" ?ps] d by simp
  then show "distinct (map fst (put_all lay ?ps []))" ..
  from ms show "\<forall>p \<in> set (put_all lay ?ps []). wf_node (snd p)"
    using mset_eq_setD [of _ ?ps] IH by auto
  show "sort_key fst (map (map_prod id content) (put_all lay ?ps []))
         = sort_key fst (map (map_prod id content) m)"
    by (rule content_put_all [OF assms(1,2) c])
qed



lemma map_prod_image_iff:
  "map_prod id f p \<in> map_prod id f ` S \<longleftrightarrow> (\<exists>v'. (fst p, v') \<in> S \<and> f (snd p) = f v')"
  by (cases p) force

text \<open>Equality of two maps entry by entry, and of their contents.\<close>

lemma content_map_eq_iff:
  fixes m m' :: "('k :: linorder \<times> DataNode) list"
  assumes "distinct (map fst m)" "distinct (map fst m')"
  shows "sort_key fst (map (map_prod id content) m) = sort_key fst (map (map_prod id content) m')
    \<longleftrightarrow> length m = length m'
      \<and> (\<forall>p \<in> set m. \<exists>v'. map_of m' (fst p) = Some v' \<and> content (snd p) = content v')"
    (is "?L \<longleftrightarrow> ?len \<and> ?all")
proof -
  let ?c = "map (map_prod id content)"
  have dk: "distinct (map fst (?c m))" "distinct (map fst (?c m'))"
    using assms by (simp_all add: comp_def)
  then have dc: "distinct (?c m)" "distinct (?c m')" by (simp_all only: distinct_map)
  have "?L \<longleftrightarrow> mset (?c m) = mset (?c m')"
    using sort_key_fst_mset [OF _ dk(1)] by (metis mset_sort)
  also have "\<dots> \<longleftrightarrow> set (?c m) = set (?c m')"
    by (rule set_eq_iff_mset_eq_distinct [OF dc, symmetric])
  also have "\<dots> \<longleftrightarrow> ?len \<and> set (?c m) \<subseteq> set (?c m')"
    using dc by (metis List.finite_set card_subset_eq distinct_card length_map order_refl)
  also have "set (?c m) \<subseteq> set (?c m') \<longleftrightarrow> ?all"
    using assms(2) by (simp add: image_subset_iff map_prod_image_iff)
  finally show ?thesis .
qed

text \<open>A double for which \<^verbatim>\<open>==\<close> is equality of bits: neither a NaN nor the negative zero.\<close>

definition f64_tame :: "f64 \<Rightarrow> bool" where
  "f64_tame d \<longleftrightarrow> \<not> f64_is_nan d \<and> d \<noteq> 0x8000000000000000"

lemma f64_is_zero_cases:
  assumes "f64_is_zero d"
  shows "d = 0 \<or> d = 0x8000000000000000"
proof -
  have "d AND mask 63 = 0" using assms by (simp add: f64_is_zero_def mask_eq_exp_minus_1)
  then have "take_bit 63 (unat d) = 0"
    by (metis take_bit_eq_mask unat_0 unsigned_take_bit_eq)
  then have "9223372036854775808 dvd unat d" by (simp add: take_bit_eq_mod mod_eq_0_iff_dvd)
  then obtain k where "unat d = 9223372036854775808 * k" ..
  moreover have "unat d < 18446744073709551616" using unsigned_less [of d, where ?'a = nat] by simp
  ultimately have "unat d = 0 \<or> unat d = 9223372036854775808"
    by (cases k; cases "k - 1") simp_all
  then show ?thesis
    using word_unat_eq_iff [of d 0] word_unat_eq_iff [of d "0x8000000000000000"] by auto
qed

lemma f64_eq_tame: "f64_tame a \<Longrightarrow> f64_tame b \<Longrightarrow> f64_eq a b \<longleftrightarrow> a = b"
  using f64_is_zero_cases [of a] f64_is_zero_cases [of b] by (auto simp: f64_eq_def f64_tame_def)

lemma Equals_map_iff:
  fixes m m' :: "('k :: linorder \<times> DataNode) list"
  assumes "distinct (map fst m)" "distinct (map fst m')"
    and "\<And>p v'. p \<in> set m \<Longrightarrow> map_of m' (fst p) = Some v' \<Longrightarrow>
           Equals (snd p) (Some v') \<longleftrightarrow> content (snd p) = content v'"
  shows "(length m = length m'
      \<and> list_all (\<lambda>(k, eq). case map_of m' k of None \<Rightarrow> False | Some v \<Rightarrow> eq (Some v))
           (map (map_prod id Equals) m))
    \<longleftrightarrow> sort_key fst (map (map_prod id content) m) = sort_key fst (map (map_prod id content) m')"
proof -
  have "list_all (\<lambda>(k, eq). case map_of m' k of None \<Rightarrow> False | Some v \<Rightarrow> eq (Some v))
           (map (map_prod id Equals) m)
    \<longleftrightarrow> (\<forall>p \<in> set m. \<exists>v'. map_of m' (fst p) = Some v' \<and> Equals (snd p) (Some v'))"
    by (force simp: list_all_iff split: option.splits)
  also have "\<dots> \<longleftrightarrow> (\<forall>p \<in> set m. \<exists>v'. map_of m' (fst p) = Some v' \<and> content (snd p) = content v')"
    using assms(3) by blast
  finally show ?thesis using content_map_eq_iff [OF assms(1,2)] by blast
qed

lemma wf_entryD:
  "map_of m k = Some v \<Longrightarrow> \<forall>p \<in> set m. Q (snd p) \<Longrightarrow> Q v"
  by (force dest: map_of_SomeD)

text \<open>C23: on well-formed trees without a NaN and without a negative zero, \<^verbatim>\<open>Equals\<close>
  decides equality of contents: the order in which the maps are iterated does not matter.\<close>

theorem Equals_iff_content:
  assumes "wf_node a" "wf_node b" "all_floats f64_tame a" "all_floats f64_tame b"
  shows "Equals a (Some b) \<longleftrightarrow> content a = content b"
  using assms
proof (induction a arbitrary: b rule: DataNode_induct)
  case (ArrayN xs)
  then show ?case
    by (cases b) (auto simp: list_all2_conv_all_nth list_eq_iff_nth_eq)
next
  case (ObjectN m)
  show ?case
  proof (cases b)
    case b: (ObjectN m')
    have "Equals (snd p) (Some v') \<longleftrightarrow> content (snd p) = content v'"
      if "p \<in> set m" "map_of m' (fst p) = Some v'" for p v'
      using ObjectN.IH [OF that(1)] ObjectN.prems b that(1)
        wf_entryD [OF that(2), of wf_node] wf_entryD [OF that(2), of "all_floats f64_tame"]
      by simp
    from Equals_map_iff [OF _ _ this] ObjectN.prems b show ?thesis by simp
  qed simp_all
next
  case (IntMapN m)
  show ?case
  proof (cases b)
    case b: (IntMapN m')
    have "Equals (snd p) (Some v') \<longleftrightarrow> content (snd p) = content v'"
      if "p \<in> set m" "map_of m' (fst p) = Some v'" for p v'
      using IntMapN.IH [OF that(1)] IntMapN.prems b that(1)
        wf_entryD [OF that(2), of wf_node] wf_entryD [OF that(2), of "all_floats f64_tame"]
      by simp
    from Equals_map_iff [OF _ _ this] IntMapN.prems b show ?thesis by simp
  qed simp_all
qed (auto split: DataNode.splits simp: f64_eq_tame)

theorem Equals_iff_content_witness:
  "Equals (ObjectN [(''a'', FloatN 0), (''b'', NullN)]) (Some (ObjectN [(''b'', NullN), (''a'', FloatN 0)]))"
  using Equals_iff_content [of "ObjectN [(''a'', FloatN 0), (''b'', NullN)]"
      "ObjectN [(''b'', NullN), (''a'', FloatN 0)]"]
  by (simp add: f64_tame_def f64_is_nan_def)

end
