(* ===== verification/MsgPack.thy ===== *)
theory MsgPack
  imports Data_Node
begin

text \<open>
  MessagePack, both directions (\<^verbatim>\<open>src/msgpack/msgpack_serialize.cpp\<close> and
  \<^verbatim>\<open>msgpack_parse.cpp\<close>).  The writers return the bytes they append to the output
  vector.  The reader walks a buffer: an access outside it is \<open>Fault\<close>, a refused input is
  \<open>NullPtr\<close>.  The width of \<^verbatim>\<open>size_t\<close> is a parameter, because the bounds test
  \<^verbatim>\<open>pos + n <= len\<close> is computed in it.
\<close>

section \<open>Serializer\<close>

definition write_u8 :: "byte \<Rightarrow> byte list" where
  "write_u8 v = [v]"

definition write_u16 :: "u16 \<Rightarrow> byte list" where
  "write_u16 v = [ucast (drop_bit 8 v), ucast v]"

definition write_u32 :: "u32 \<Rightarrow> byte list" where
  "write_u32 v = [ucast (drop_bit 24 v), ucast (drop_bit 16 v), ucast (drop_bit 8 v), ucast v]"

definition write_u64 :: "u64 \<Rightarrow> byte list" where
  "write_u64 v = write_u32 (ucast (drop_bit 32 v)) @ write_u32 (ucast v)"

definition write_f64 :: "f64 \<Rightarrow> byte list" where
  "write_f64 v = write_u64 v"

definition write_bytes :: "byte list \<Rightarrow> byte list" where
  "write_bytes bs = bs"

definition write_msgpack_str :: "string \<Rightarrow> byte list" where
  "write_msgpack_str s =
     (let len = length s in
      (if len \<le> 31 then write_u8 (0xa0 OR of_nat len)
       else if len \<le> 0xff then write_u8 0xd9 @ write_u8 (of_nat len)
       else if len \<le> 0xffff then write_u8 0xda @ write_u16 (of_nat len)
       else write_u8 0xdb @ write_u32 (of_nat len))
      @ write_bytes (map byte_of s))"

definition write_msgpack_int :: "i64 \<Rightarrow> byte list" where
  "write_msgpack_int v =
     (if 0 \<le> sint v then
        (if sint v \<le> 0x7f then write_u8 (ucast v)
         else if sint v \<le> 0xff then write_u8 0xcc @ write_u8 (ucast v)
         else if sint v \<le> 0xffff then write_u8 0xcd @ write_u16 (ucast v)
         else if sint v \<le> 0xffffffff then write_u8 0xce @ write_u32 (ucast v)
         else write_u8 0xcf @ write_u64 v)
      else
        (if sint v \<ge> -32 then write_u8 (ucast v)
         else if sint v \<ge> -128 then write_u8 0xd0 @ write_u8 (ucast v)
         else if sint v \<ge> -32768 then write_u8 0xd1 @ write_u16 (ucast v)
         else if sint v \<ge> -2147483648 then write_u8 0xd2 @ write_u32 (ucast v)
         else write_u8 0xd3 @ write_u64 v))"

definition write_msgpack_map_header :: "nat \<Rightarrow> byte list" where
  "write_msgpack_map_header cnt =
     (if cnt \<le> 15 then write_u8 (0x80 OR of_nat cnt)
      else if cnt \<le> 0xffff then write_u8 0xde @ write_u16 (of_nat cnt)
      else write_u8 0xdf @ write_u32 (of_nat cnt))"

definition write_array_header :: "nat \<Rightarrow> byte list" where
  "write_array_header cnt =
     (if cnt \<le> 15 then write_u8 (0x90 OR of_nat cnt)
      else if cnt \<le> 0xffff then write_u8 0xdc @ write_u16 (of_nat cnt)
      else write_u8 0xdd @ write_u32 (of_nat cnt))"

definition write_binary :: "byte list \<Rightarrow> byte list" where
  "write_binary bs =
     (let len = length bs in
      (if len \<le> 0xff then write_u8 0xc4 @ write_u8 (of_nat len)
       else if len \<le> 0xffff then write_u8 0xc5 @ write_u16 (of_nat len)
       else write_u8 0xc6 @ write_u32 (of_nat len))
      @ write_bytes bs)"

primrec serialize_node :: "DataNode \<Rightarrow> byte list" where
  "serialize_node NullN = write_u8 0xc0"
| "serialize_node (BoolN b) = write_u8 (if b then 0xc3 else 0xc2)"
| "serialize_node (IntN i) = write_msgpack_int i"
| "serialize_node (FloatN d) = write_u8 0xcb @ write_f64 d"
| "serialize_node (StringN s) = write_msgpack_str s"
| "serialize_node (ArrayN xs) = write_array_header (length xs) @ concat (map serialize_node xs)"
| "serialize_node (ObjectN m) = write_msgpack_map_header (length m)
     @ concat (map (\<lambda>(k, out). write_msgpack_str k @ out) (map (map_prod id serialize_node) m))"
| "serialize_node (IntMapN m) = write_msgpack_map_header (length m)
     @ concat (map (\<lambda>(k, out). write_msgpack_int k @ out) (map (map_prod id serialize_node) m))"
| "serialize_node (BinaryN bs) = write_binary bs"

definition MsgPackSerialize :: "DataNode \<Rightarrow> byte list" where
  "MsgPackSerialize n = serialize_node n"

section \<open>Parser\<close>

definition kMaxDepth :: nat where
  "kMaxDepth = 256"

text \<open>The environment of a parse: the width of \<^verbatim>\<open>size_t\<close>, the limit on the number of
  elements of a container, and the layouts of the hash tables that are filled.\<close>

record msgpack_env =
  size_t_bits :: nat
  g_max_container_elements :: nat
  hash_layouts :: layouts

definition MsgPackSetMaxElements :: "nat \<Rightarrow> msgpack_env \<Rightarrow> msgpack_env" where
  "MsgPackSetMaxElements limit env =
     env\<lparr>g_max_container_elements := (if 0 < limit then limit else 1000000)\<rparr>"

definition MsgPackGetMaxElements :: "msgpack_env \<Rightarrow> nat" where
  "MsgPackGetMaxElements env = g_max_container_elements env"

record Reader =
  mdata :: "byte list"
  mpos :: nat

type_synonym 'a reader = "Reader \<Rightarrow> ('a \<times> Reader) outcome"

definition adv :: "nat \<Rightarrow> Reader \<Rightarrow> Reader" where
  "adv n r = r\<lparr>mpos := mpos r + n\<rparr>"

definition has :: "msgpack_env \<Rightarrow> Reader \<Rightarrow> nat \<Rightarrow> bool" where
  "has env r n \<longleftrightarrow> (mpos r + n) mod 2 ^ size_t_bits env \<le> length (mdata r)"

definition read_bytes :: "nat \<Rightarrow> byte list reader" where
  "read_bytes n r =
     (if mpos r + n \<le> length (mdata r) then Value (take n (drop (mpos r) (mdata r)), adv n r)
      else Fault)"

definition read_u8 :: "byte reader" where
  "read_u8 r = and_then (read_bytes 1 r) (\<lambda>(bs, r). Value (bs ! 0, r))"

definition read_u16 :: "u16 reader" where
  "read_u16 r = and_then (read_bytes 2 r)
     (\<lambda>(bs, r). Value (push_bit 8 (ucast (bs ! 0)) OR ucast (bs ! 1), r))"

definition read_u32 :: "u32 reader" where
  "read_u32 r = and_then (read_bytes 4 r)
     (\<lambda>(bs, r). Value (push_bit 24 (ucast (bs ! 0)) OR push_bit 16 (ucast (bs ! 1))
                         OR push_bit 8 (ucast (bs ! 2)) OR ucast (bs ! 3), r))"

definition read_u64 :: "u64 reader" where
  "read_u64 r = and_then (read_u32 r) (\<lambda>(hi, r). and_then (read_u32 r) (\<lambda>(lo, r).
     Value (push_bit 32 (ucast hi) OR ucast lo, r)))"

definition read_f32 :: "u32 reader" where
  "read_f32 r = read_u32 r"

definition read_f64 :: "f64 reader" where
  "read_f64 r = read_u64 r"

text \<open>The element loops, over the reader \<open>self\<close> of one nested node.\<close>

primrec read_elems :: "DataNode reader \<Rightarrow> nat \<Rightarrow> DataNode list \<Rightarrow> DataNode reader" where
  "read_elems self 0 arr r = Value (ArrayN arr, r)"
| "read_elems self (Suc n) arr r =
     and_then (self r) (\<lambda>(elem, r). read_elems self n (arr @ [elem]) r)"

primrec read_int_entries ::
  "layouts \<Rightarrow> DataNode reader \<Rightarrow> nat \<Rightarrow> (i64 \<times> DataNode) list \<Rightarrow> DataNode reader" where
  "read_int_entries L self 0 m r = Value (IntMapN m, r)"
| "read_int_entries L self (Suc n) m r =
     and_then (self r) (\<lambda>(key_node, r). case key_node of
       IntN key \<Rightarrow> and_then (self r) (\<lambda>(val, r).
         read_int_entries L self n (map_put (int_layout L) key val m) r)
     | _ \<Rightarrow> NullPtr)"

primrec read_str_entries ::
  "layouts \<Rightarrow> DataNode reader \<Rightarrow> nat \<Rightarrow> (string \<times> DataNode) list \<Rightarrow> DataNode reader" where
  "read_str_entries L self 0 m r = Value (ObjectN m, r)"
| "read_str_entries L self (Suc n) m r =
     and_then (self r) (\<lambda>(key_node, r). case key_node of
       StringN key \<Rightarrow> and_then (self r) (\<lambda>(val, r).
         read_str_entries L self n (map_put (str_layout L) key val m) r)
     | _ \<Rightarrow> NullPtr)"

text \<open>The type bytes of integer keys and of string keys.\<close>

definition int_keys :: "byte \<Rightarrow> bool" where
  "int_keys peek \<longleftrightarrow> peek \<le> 0x7f \<or> 0xe0 \<le> peek \<or> (0xcc \<le> peek \<and> peek \<le> 0xd3)"

definition str_keys :: "byte \<Rightarrow> bool" where
  "str_keys peek \<longleftrightarrow> peek AND 0xe0 = 0xa0 \<or> (0xd9 \<le> peek \<and> peek \<le> 0xdb)"

definition read_map :: "msgpack_env \<Rightarrow> DataNode reader \<Rightarrow> nat \<Rightarrow> DataNode reader" where
  "read_map env self cnt r =
     (if cnt = 0 then Value (ObjectN [], r)
      else if g_max_container_elements env < cnt then NullPtr
      else if \<not> has env r 1 then NullPtr
      else and_then (read_bytes 1 r) (\<lambda>(peeked, _).
        let peek = peeked ! 0 in
        if \<not> int_keys peek \<and> \<not> str_keys peek then NullPtr
        else if int_keys peek then read_int_entries (hash_layouts env) self cnt [] r
        else read_str_entries (hash_layouts env) self cnt [] r))"

definition read_array :: "msgpack_env \<Rightarrow> DataNode reader \<Rightarrow> nat \<Rightarrow> DataNode reader" where
  "read_array env self cnt r =
     (if g_max_container_elements env < cnt then NullPtr else read_elems self cnt [] r)"

text \<open>\<open>guarded env n rd\<close> is the pattern \<^verbatim>\<open>if (!r.has(n)) return nullptr;\<close> followed by a
  read.\<close>

definition guarded :: "msgpack_env \<Rightarrow> nat \<Rightarrow> 'a reader \<Rightarrow> 'a reader" where
  "guarded env n rd r = (if has env r n then rd r else NullPtr)"

definition read_str :: "msgpack_env \<Rightarrow> nat \<Rightarrow> DataNode reader" where
  "read_str env len r = and_then (guarded env len (read_bytes len) r)
     (\<lambda>(p, r). Value (StringN (map char_of_byte p), r))"

definition read_bin :: "msgpack_env \<Rightarrow> nat \<Rightarrow> DataNode reader" where
  "read_bin env len r = and_then (guarded env len (read_bytes len) r)
     (\<lambda>(p, r). Value (BinaryN p, r))"

text \<open>The part of \<^verbatim>\<open>read_node\<close> behind the type byte; \<open>self\<close> reads a node one level
  deeper.\<close>

definition read_tagged :: "msgpack_env \<Rightarrow> DataNode reader \<Rightarrow> byte \<Rightarrow> DataNode reader" where
  "read_tagged env self b r =
     (if b \<le> 0x7f then Value (IntN (ucast b), r)
      else if 0xe0 \<le> b then Value (IntN (scast b), r)
      else if b AND 0xf0 = 0x80 then read_map env self (unat (b AND 0x0f)) r
      else if b AND 0xf0 = 0x90 then read_array env self (unat (b AND 0x0f)) r
      else if b AND 0xe0 = 0xa0 then read_str env (unat (b AND 0x1f)) r
      else if b = 0xc0 then Value (NullN, r)
      else if b = 0xc1 then NullPtr
      else if b = 0xc2 then Value (BoolN False, r)
      else if b = 0xc3 then Value (BoolN True, r)
      else if b = 0xc4 then and_then (guarded env 1 read_u8 r) (\<lambda>(len, r). read_bin env (unat len) r)
      else if b = 0xc5 then and_then (guarded env 2 read_u16 r) (\<lambda>(len, r). read_bin env (unat len) r)
      else if b = 0xc6 then and_then (guarded env 4 read_u32 r) (\<lambda>(len, r). read_bin env (unat len) r)
      else if b = 0xc7 \<or> b = 0xc8 \<or> b = 0xc9 then NullPtr
      else if b = 0xca then and_then (guarded env 4 read_f32 r) (\<lambda>(v, r). Value (FloatN (f64_of_f32 v), r))
      else if b = 0xcb then and_then (guarded env 8 read_f64 r) (\<lambda>(v, r). Value (FloatN v, r))
      else if b = 0xcc then and_then (guarded env 1 read_u8 r) (\<lambda>(v, r). Value (IntN (ucast v), r))
      else if b = 0xcd then and_then (guarded env 2 read_u16 r) (\<lambda>(v, r). Value (IntN (ucast v), r))
      else if b = 0xce then and_then (guarded env 4 read_u32 r) (\<lambda>(v, r). Value (IntN (ucast v), r))
      else if b = 0xcf then and_then (guarded env 8 read_u64 r) (\<lambda>(v, r). Value (IntN v, r))
      else if b = 0xd0 then and_then (guarded env 1 read_u8 r) (\<lambda>(v, r). Value (IntN (scast v), r))
      else if b = 0xd1 then and_then (guarded env 2 read_u16 r) (\<lambda>(v, r). Value (IntN (scast v), r))
      else if b = 0xd2 then and_then (guarded env 4 read_u32 r) (\<lambda>(v, r). Value (IntN (scast v), r))
      else if b = 0xd3 then and_then (guarded env 8 read_u64 r) (\<lambda>(v, r). Value (IntN v, r))
      else if 0xd4 \<le> b \<and> b \<le> 0xd8 then NullPtr
      else if b = 0xd9 then and_then (guarded env 1 read_u8 r) (\<lambda>(len, r). read_str env (unat len) r)
      else if b = 0xda then and_then (guarded env 2 read_u16 r) (\<lambda>(len, r). read_str env (unat len) r)
      else if b = 0xdb then and_then (guarded env 4 read_u32 r) (\<lambda>(len, r). read_str env (unat len) r)
      else if b = 0xdc then and_then (guarded env 2 read_u16 r) (\<lambda>(n, r). read_array env self (unat n) r)
      else if b = 0xdd then and_then (guarded env 4 read_u32 r) (\<lambda>(n, r). read_array env self (unat n) r)
      else if b = 0xde then and_then (guarded env 2 read_u16 r) (\<lambda>(n, r). read_map env self (unat n) r)
      else if b = 0xdf then and_then (guarded env 4 read_u32 r) (\<lambda>(n, r). read_map env self (unat n) r)
      else NullPtr)"

function read_node :: "msgpack_env \<Rightarrow> nat \<Rightarrow> DataNode reader" where
  "read_node env depth r =
     (if kMaxDepth < depth \<or> \<not> has env r 1 then NullPtr
      else and_then (read_u8 r) (\<lambda>(b, r). read_tagged env (\<lambda>r. read_node env (depth + 1) r) b r))"
  by pat_completeness auto
termination
  by (relation "measure (\<lambda>(env, depth, r). kMaxDepth + 1 - depth)") auto

declare read_node.simps [simp del]

definition MsgPackParse :: "msgpack_env \<Rightarrow> byte list \<Rightarrow> DataNode outcome" where
  "MsgPackParse env bs =
     (if bs = [] then NullPtr
      else and_then (read_node env 0 \<lparr>mdata = bs, mpos = 0\<rparr>) (\<lambda>(result, r).
        if mpos r \<noteq> length bs then NullPtr else Value result))"

section \<open>Reading back what was written\<close>

text \<open>The reader stands before the bytes \<open>bs\<close>, in a buffer whose length fits \<^verbatim>\<open>size_t\<close>.\<close>

definition stands :: "msgpack_env \<Rightarrow> Reader \<Rightarrow> byte list \<Rightarrow> bool" where
  "stands env r bs \<longleftrightarrow> length (mdata r) < 2 ^ size_t_bits env \<and> mpos r \<le> length (mdata r)
     \<and> drop (mpos r) (mdata r) = bs"

lemma adv_adv [simp]: "adv m (adv n r) = adv (n + m) r"
  by (simp add: adv_def add.assoc)

lemma adv_0 [simp]: "adv 0 r = r"
  by (simp add: adv_def)

lemma stands_bound: "stands env r (xs @ ys) \<Longrightarrow> mpos r + length xs \<le> length (mdata r)"
  unfolding stands_def
  by (metis add_le_cancel_left length_append length_drop le_add1 ordered_cancel_comm_monoid_diff_class.add_diff_inverse)

lemma stands_adv: "stands env r (xs @ ys) \<Longrightarrow> stands env (adv (length xs) r) ys"
  using stands_bound [of env r xs ys] drop_eq_append [of "mpos r" "mdata r" xs ys]
  by (simp add: stands_def adv_def)

lemma stands_has: "stands env r (xs @ ys) \<Longrightarrow> has env r (length xs)"
  using stands_bound [of env r xs ys] by (simp add: stands_def has_def)

lemma stands_read_bytes:
  "stands env r (xs @ ys) \<Longrightarrow> read_bytes (length xs) r = Value (xs, adv (length xs) r)"
  using stands_bound [of env r xs ys] by (simp add: stands_def read_bytes_def)

lemma stands_Cons: "stands env r (b # ys) \<Longrightarrow> stands env r ([b] @ ys)"
  by simp

lemma guarded_bytes:
  assumes "stands env r (xs @ ys)" "n = length xs"
  shows "guarded env n (read_bytes n) r = Value (xs, adv n r)"
  using assms stands_has stands_read_bytes by (simp add: guarded_def)

lemma guarded_u8:
  assumes "stands env r (b # ys)"
  shows "guarded env 1 read_u8 r = Value (b, adv 1 r)"
  using stands_has [OF stands_Cons [OF assms]] stands_read_bytes [OF stands_Cons [OF assms]]
  by (simp add: guarded_def read_u8_def)

lemma guarded_u16:
  assumes "stands env r (write_u16 v @ ys)"
  shows "guarded env 2 read_u16 r = Value (v, adv 2 r)"
  using stands_has [OF assms] stands_read_bytes [OF assms]
  by (simp add: guarded_def read_u16_def write_u16_def numeral_2_eq_2 join_u16)

lemma write_length [simp]:
  "length (write_u8 b) = 1" "length (write_u16 h) = 2" "length (write_u32 w) = 4"
  "length (write_u64 q) = 8" "length (write_f64 q) = 8"
  by (simp_all add: write_u8_def write_u16_def write_u32_def write_u64_def write_f64_def)

lemma read_u32_write:
  assumes "stands env r (write_u32 v @ ys)"
  shows "read_u32 r = Value (v, adv 4 r)"
proof -
  have "read_bytes 4 r = Value (write_u32 v, adv 4 r)"
    using stands_read_bytes [OF assms] by simp
  then show ?thesis
    by (simp add: read_u32_def write_u32_def numeral_2_eq_2 numeral_3_eq_3 join_u32)
qed

lemma guarded_u32:
  assumes "stands env r (write_u32 v @ ys)"
  shows "guarded env 4 read_u32 r = Value (v, adv 4 r)"
  using stands_has [OF assms] read_u32_write [OF assms] by (simp add: guarded_def)

lemma guarded_u64:
  assumes "stands env r (write_u64 v @ ys)"
  shows "guarded env 8 read_u64 r = Value (v, adv 8 r)"
proof -
  have 1: "stands env r (write_u32 (ucast (drop_bit 32 v)) @ write_u32 (ucast v) @ ys)"
    using assms by (simp add: write_u64_def)
  then have 2: "stands env (adv 4 r) (write_u32 (ucast v) @ ys)"
    using stands_adv [OF 1] by simp
  show ?thesis
    using stands_has [OF assms] read_u32_write [OF 1] read_u32_write [OF 2]
    by (simp add: guarded_def read_u64_def join_u64)
qed

text \<open>What the type bytes say.\<close>

lemma tag_fixstr:
  assumes "n \<le> 31"
  shows "\<not> (0xa0 OR of_nat n :: byte) \<le> 0x7f" "\<not> 0xe0 \<le> (0xa0 OR of_nat n :: byte)"
    "(0xa0 OR of_nat n :: byte) AND 0xf0 \<noteq> 0x80" "(0xa0 OR of_nat n :: byte) AND 0xf0 \<noteq> 0x90"
    "(0xa0 OR of_nat n :: byte) AND 0xe0 = 0xa0" "unat ((0xa0 OR of_nat n :: byte) AND 0x1f) = n"
proof -
  have "\<forall>n \<in> set [0..<32]. \<not> (0xa0 OR of_nat n :: byte) \<le> 0x7f \<and> \<not> 0xe0 \<le> (0xa0 OR of_nat n :: byte)
    \<and> (0xa0 OR of_nat n :: byte) AND 0xf0 \<noteq> 0x80 \<and> (0xa0 OR of_nat n :: byte) AND 0xf0 \<noteq> 0x90
    \<and> (0xa0 OR of_nat n :: byte) AND 0xe0 = 0xa0 \<and> unat ((0xa0 OR of_nat n :: byte) AND 0x1f) = n"
    by code_simp
  moreover have "n \<in> set [0..<32]" using assms by simp
  ultimately show "\<not> (0xa0 OR of_nat n :: byte) \<le> 0x7f" "\<not> 0xe0 \<le> (0xa0 OR of_nat n :: byte)"
    "(0xa0 OR of_nat n :: byte) AND 0xf0 \<noteq> 0x80" "(0xa0 OR of_nat n :: byte) AND 0xf0 \<noteq> 0x90"
    "(0xa0 OR of_nat n :: byte) AND 0xe0 = 0xa0" "unat ((0xa0 OR of_nat n :: byte) AND 0x1f) = n"
    by blast+
qed

lemma tag_fixmap:
  assumes "n \<le> 15"
  shows "\<not> (0x80 OR of_nat n :: byte) \<le> 0x7f \<and> \<not> 0xe0 \<le> (0x80 OR of_nat n :: byte)
    \<and> (0x80 OR of_nat n :: byte) AND 0xf0 = 0x80 \<and> unat ((0x80 OR of_nat n :: byte) AND 0x0f) = n"
proof -
  have "\<forall>n \<in> set [0..<16]. \<not> (0x80 OR of_nat n :: byte) \<le> 0x7f \<and> \<not> 0xe0 \<le> (0x80 OR of_nat n :: byte)
    \<and> (0x80 OR of_nat n :: byte) AND 0xf0 = 0x80 \<and> unat ((0x80 OR of_nat n :: byte) AND 0x0f) = n"
    by code_simp
  then show ?thesis using assms by (auto simp del: upt_rec_numeral)
qed

lemma tag_fixarray:
  assumes "n \<le> 15"
  shows "\<not> (0x90 OR of_nat n :: byte) \<le> 0x7f \<and> \<not> 0xe0 \<le> (0x90 OR of_nat n :: byte)
    \<and> (0x90 OR of_nat n :: byte) AND 0xf0 = 0x90 \<and> unat ((0x90 OR of_nat n :: byte) AND 0x0f) = n"
proof -
  have "\<forall>n \<in> set [0..<16]. \<not> (0x90 OR of_nat n :: byte) \<le> 0x7f \<and> \<not> 0xe0 \<le> (0x90 OR of_nat n :: byte)
    \<and> (0x90 OR of_nat n :: byte) AND 0xf0 = 0x90 \<and> unat ((0x90 OR of_nat n :: byte) AND 0x0f) = n"
    by code_simp
  then show ?thesis using assms by (auto simp del: upt_rec_numeral)
qed

text \<open>One step into a node.\<close>

lemma read_node_tag:
  assumes "stands env r (b # ys)" "depth \<le> kMaxDepth"
  shows "read_node env depth r = read_tagged env (read_node env (depth + 1)) b (adv 1 r)"
    and "stands env (adv 1 r) ys"
  using stands_has [OF stands_Cons [OF assms(1)]] stands_read_bytes [OF stands_Cons [OF assms(1)]]
    stands_adv [OF stands_Cons [OF assms(1)]] assms(2)
  by (simp_all add: read_node.simps [of env depth r] read_u8_def)

lemma read_str_back:
  assumes "stands env r (map byte_of s @ ys)" "length s = n"
  shows "read_str env n r = Value (StringN s, adv n r)"
  using guarded_bytes [OF assms(1)] assms(2) by (simp add: read_str_def comp_def)

lemma read_bin_back:
  assumes "stands env r (bs @ ys)" "length bs = n"
  shows "read_bin env n r = Value (BinaryN bs, adv n r)"
  using guarded_bytes [OF assms(1)] assms(2) by (simp add: read_bin_def)

lemma read_msgpack_str:
  assumes "stands env r (write_msgpack_str s @ ys)" "depth \<le> kMaxDepth" "length s < 2 ^ 32"
  shows "read_node env depth r = Value (StringN s, adv (length (write_msgpack_str s)) r)"
proof -
  consider "length s \<le> 31" | "31 < length s" "length s \<le> 0xff"
    | "0xff < length s" "length s \<le> 0xffff" | "0xffff < length s" by linarith
  then show ?thesis
  proof cases
    case 1
    have "stands env r ((0xa0 OR of_nat (length s)) # map byte_of s @ ys)"
      using assms(1) 1 by (simp add: write_msgpack_str_def write_u8_def write_bytes_def)
    note t = read_node_tag [OF this assms(2)]
    show ?thesis
      using 1 read_str_back [OF t(2)]
      by (simp add: t(1) read_tagged_def tag_fixstr write_msgpack_str_def write_bytes_def)
  next
    case 2
    have "stands env r (0xd9 # of_nat (length s) # map byte_of s @ ys)"
      using assms(1) 2 by (simp add: write_msgpack_str_def write_u8_def write_bytes_def)
    note t = read_node_tag [OF this assms(2)]
    note u = guarded_u8 [OF t(2), simplified] stands_adv [OF stands_Cons [OF t(2)]]
    show ?thesis
      using 2 read_str_back [OF u(2)]
      by (simp add: t(1) read_tagged_def u(1) unat_of_nat_small write_msgpack_str_def write_bytes_def)
  next
    case 3
    have "stands env r (0xda # write_u16 (of_nat (length s)) @ map byte_of s @ ys)"
      using assms(1) 3 by (simp add: write_msgpack_str_def write_u8_def write_bytes_def)
    note t = read_node_tag [OF this assms(2)]
    note u = guarded_u16 [OF t(2), simplified] stands_adv [OF t(2)]
    show ?thesis
      using 3 read_str_back [OF u(2)]
      by (simp add: t(1) read_tagged_def u(1) unat_of_nat_small write_msgpack_str_def write_bytes_def)
  next
    case 4
    have "stands env r (0xdb # write_u32 (of_nat (length s)) @ map byte_of s @ ys)"
      using assms(1) 4 by (simp add: write_msgpack_str_def write_u8_def write_bytes_def)
    note t = read_node_tag [OF this assms(2)]
    note u = guarded_u32 [OF t(2), simplified] stands_adv [OF t(2)]
    show ?thesis
      using 4 assms(3) read_str_back [OF u(2)]
      by (simp add: t(1) read_tagged_def u(1) unat_of_nat_small write_msgpack_str_def write_bytes_def)
  qed
qed

lemma read_binary:
  assumes "stands env r (write_binary bs @ ys)" "depth \<le> kMaxDepth" "length bs < 2 ^ 32"
  shows "read_node env depth r = Value (BinaryN bs, adv (length (write_binary bs)) r)"
proof -
  consider "length bs \<le> 0xff" | "0xff < length bs" "length bs \<le> 0xffff" | "0xffff < length bs"
    by linarith
  then show ?thesis
  proof cases
    case 1
    have "stands env r (0xc4 # of_nat (length bs) # bs @ ys)"
      using assms(1) 1 by (simp add: write_binary_def write_u8_def write_bytes_def)
    note t = read_node_tag [OF this assms(2)]
    note u = guarded_u8 [OF t(2), simplified] stands_adv [OF stands_Cons [OF t(2)]]
    show ?thesis
      using 1 read_bin_back [OF u(2)]
      by (simp add: t(1) read_tagged_def u(1) unat_of_nat_small write_binary_def write_bytes_def)
  next
    case 2
    have "stands env r (0xc5 # write_u16 (of_nat (length bs)) @ bs @ ys)"
      using assms(1) 2 by (simp add: write_binary_def write_u8_def write_bytes_def)
    note t = read_node_tag [OF this assms(2)]
    note u = guarded_u16 [OF t(2), simplified] stands_adv [OF t(2)]
    show ?thesis
      using 2 read_bin_back [OF u(2)]
      by (simp add: t(1) read_tagged_def u(1) unat_of_nat_small write_binary_def write_bytes_def)
  next
    case 3
    have "stands env r (0xc6 # write_u32 (of_nat (length bs)) @ bs @ ys)"
      using assms(1) 3 by (simp add: write_binary_def write_u8_def write_bytes_def)
    note t = read_node_tag [OF this assms(2)]
    note u = guarded_u32 [OF t(2), simplified] stands_adv [OF t(2)]
    show ?thesis
      using 3 assms(3) read_bin_back [OF u(2)]
      by (simp add: t(1) read_tagged_def u(1) unat_of_nat_small write_binary_def write_bytes_def)
  qed
qed

lemma uint_ucast_byte: "uint (ucast (v :: i64) :: byte) = sint v mod 256"
proof -
  have "(ucast v :: byte) = word_of_int (sint v)" by (rule ucast_word_of_sint) simp
  then show ?thesis by (simp only: uint_word_of_int) simp
qed

lemma tag_fixint:
  assumes "-32 \<le> sint (v :: i64)" "sint v \<le> 0x7f"
  shows "0 \<le> sint v \<Longrightarrow> (ucast v :: byte) \<le> 0x7f"
    and "sint v < 0 \<Longrightarrow> \<not> (ucast v :: byte) \<le> 0x7f \<and> 0xe0 \<le> (ucast v :: byte)"
proof -
  show "0 \<le> sint v \<Longrightarrow> (ucast v :: byte) \<le> 0x7f"
    using assms by (simp add: word_le_def uint_ucast_byte)
  have "sint v mod 256 = sint v + 256" if "sint v < 0"
    using assms that by presburger
  then show "sint v < 0 \<Longrightarrow> \<not> (ucast v :: byte) \<le> 0x7f \<and> 0xe0 \<le> (ucast v :: byte)"
    using assms by (simp add: word_le_def uint_ucast_byte)
qed

lemma read_msgpack_nonneg:
  assumes "stands env r (write_msgpack_int v @ ys)" "depth \<le> kMaxDepth" "0 \<le> sint v"
  shows "read_node env depth r = Value (IntN v, adv (length (write_msgpack_int v)) r)"
proof -
  consider "sint v \<le> 0x7f" | "0x7f < sint v" "sint v \<le> 0xff" | "0xff < sint v" "sint v \<le> 0xffff"
    | "0xffff < sint v" "sint v \<le> 0xffffffff" | "0xffffffff < sint v" by linarith
  then show ?thesis
  proof cases
    case 1
    with assms have "stands env r (ucast v # ys)" by (simp add: write_msgpack_int_def write_u8_def)
    from read_node_tag [OF this assms(2)] 1 assms(3) show ?thesis
      by (simp add: read_tagged_def tag_fixint ucast_ucast_nonneg write_msgpack_int_def)
  next
    case 2
    with assms have "stands env r (0xcc # ucast v # ys)" by (simp add: write_msgpack_int_def write_u8_def)
    note t = read_node_tag [OF this assms(2)]
    from t(1) 2 assms(3) guarded_u8 [OF t(2), simplified] show ?thesis
      by (simp add: read_tagged_def ucast_ucast_nonneg write_msgpack_int_def)
  next
    case 3
    with assms have "stands env r (0xcd # write_u16 (ucast v) @ ys)" by (simp add: write_msgpack_int_def write_u8_def)
    note t = read_node_tag [OF this assms(2)]
    from t(1) 3 assms(3) guarded_u16 [OF t(2), simplified] show ?thesis
      by (simp add: read_tagged_def ucast_ucast_nonneg write_msgpack_int_def)
  next
    case 4
    with assms have "stands env r (0xce # write_u32 (ucast v) @ ys)" by (simp add: write_msgpack_int_def write_u8_def)
    note t = read_node_tag [OF this assms(2)]
    from t(1) 4 assms(3) guarded_u32 [OF t(2), simplified] show ?thesis
      by (simp add: read_tagged_def ucast_ucast_nonneg write_msgpack_int_def)
  next
    case 5
    with assms have "stands env r (0xcf # write_u64 v @ ys)" by (simp add: write_msgpack_int_def write_u8_def)
    note t = read_node_tag [OF this assms(2)]
    from t(1) 5 assms(3) guarded_u64 [OF t(2), simplified] show ?thesis
      by (simp add: read_tagged_def write_msgpack_int_def)
  qed
qed

lemma read_msgpack_neg:
  assumes "stands env r (write_msgpack_int v @ ys)" "depth \<le> kMaxDepth" "sint v < 0"
  shows "read_node env depth r = Value (IntN v, adv (length (write_msgpack_int v)) r)"
proof -
  consider "-32 \<le> sint v" | "-128 \<le> sint v" "sint v < -32" | "-32768 \<le> sint v" "sint v < -128"
    | "-2147483648 \<le> sint v" "sint v < -32768" | "sint v < -2147483648" by linarith
  then show ?thesis
  proof cases
    case 1
    with assms have "stands env r (ucast v # ys)" by (simp add: write_msgpack_int_def write_u8_def)
    from read_node_tag [OF this assms(2)] 1 assms(3) show ?thesis
      by (simp add: read_tagged_def tag_fixint scast_ucast_small write_msgpack_int_def)
  next
    case 2
    with assms have "stands env r (0xd0 # ucast v # ys)" by (simp add: write_msgpack_int_def write_u8_def)
    note t = read_node_tag [OF this assms(2)]
    from t(1) 2 assms(3) guarded_u8 [OF t(2), simplified] show ?thesis
      by (simp add: read_tagged_def scast_ucast_small write_msgpack_int_def)
  next
    case 3
    with assms have "stands env r (0xd1 # write_u16 (ucast v) @ ys)" by (simp add: write_msgpack_int_def write_u8_def)
    note t = read_node_tag [OF this assms(2)]
    from t(1) 3 assms(3) guarded_u16 [OF t(2), simplified] show ?thesis
      by (simp add: read_tagged_def scast_ucast_small write_msgpack_int_def)
  next
    case 4
    with assms have "stands env r (0xd2 # write_u32 (ucast v) @ ys)" by (simp add: write_msgpack_int_def write_u8_def)
    note t = read_node_tag [OF this assms(2)]
    from t(1) 4 assms(3) guarded_u32 [OF t(2), simplified] show ?thesis
      by (simp add: read_tagged_def scast_ucast_small write_msgpack_int_def)
  next
    case 5
    with assms have "stands env r (0xd3 # write_u64 v @ ys)" by (simp add: write_msgpack_int_def write_u8_def)
    note t = read_node_tag [OF this assms(2)]
    from t(1) 5 assms(3) guarded_u64 [OF t(2), simplified] show ?thesis
      by (simp add: read_tagged_def write_msgpack_int_def)
  qed
qed

lemma read_msgpack_int:
  assumes "stands env r (write_msgpack_int v @ ys)" "depth \<le> kMaxDepth"
  shows "read_node env depth r = Value (IntN v, adv (length (write_msgpack_int v)) r)"
  using read_msgpack_nonneg [OF assms] read_msgpack_neg [OF assms] by linarith

section \<open>Containers\<close>

text \<open>What the format and the limits of the reader can carry: lengths below 2 to the 32, at most as
  many elements as the limit, and no empty map with integer keys (it is written like an empty
  object, and read as one).\<close>

primrec fits :: "msgpack_env \<Rightarrow> DataNode \<Rightarrow> bool" where
  "fits env NullN = True"
| "fits env (BoolN b) = True"
| "fits env (IntN i) = True"
| "fits env (FloatN d) = True"
| "fits env (StringN s) = (length s < 2 ^ 32)"
| "fits env (ArrayN xs) = (length xs \<le> g_max_container_elements env \<and> length xs < 2 ^ 32
     \<and> list_all id (map (fits env) xs))"
| "fits env (ObjectN m) = (length m \<le> g_max_container_elements env \<and> length m < 2 ^ 32
     \<and> list_all (\<lambda>k. length k < 2 ^ 32) (map fst m)
     \<and> list_all snd (map (map_prod id (fits env)) m))"
| "fits env (IntMapN m) = (m \<noteq> [] \<and> length m \<le> g_max_container_elements env \<and> length m < 2 ^ 32
     \<and> list_all snd (map (map_prod id (fits env)) m))"
| "fits env (BinaryN bs) = (length bs < 2 ^ 32)"

text \<open>\<open>self\<close> reads back a node.\<close>

definition reads_back :: "msgpack_env \<Rightarrow> DataNode reader \<Rightarrow> DataNode \<Rightarrow> bool" where
  "reads_back env self n \<longleftrightarrow> (\<forall>r ys. stands env r (serialize_node n @ ys) \<longrightarrow>
     (\<exists>n'. self r = Value (n', adv (length (serialize_node n)) r) \<and> content n' = content n))"

lemma reads_backE:
  assumes "reads_back env self n" "stands env r (serialize_node n @ ys)"
  obtains n' where "self r = Value (n', adv (length (serialize_node n)) r)" "content n' = content n"
    "stands env (adv (length (serialize_node n)) r) ys"
  using assms stands_adv [OF assms(2)] unfolding reads_back_def by blast

lemma read_elems_back:
  assumes "\<And>x. x \<in> set xs \<Longrightarrow> reads_back env self x"
    and "stands env r (concat (map serialize_node xs) @ ys)"
  shows "\<exists>xs'. read_elems self (length xs) arr r
      = Value (ArrayN (arr @ xs'), adv (length (concat (map serialize_node xs))) r)
    \<and> map content xs' = map content xs"
  using assms
proof (induction xs arbitrary: arr r)
  case (Cons x xs)
  have "stands env r (serialize_node x @ concat (map serialize_node xs) @ ys)"
    using Cons.prems(2) by simp
  then obtain x' where x': "self r = Value (x', adv (length (serialize_node x)) r)"
    "content x' = content x"
    "stands env (adv (length (serialize_node x)) r) (concat (map serialize_node xs) @ ys)"
    using Cons.prems(1) by (auto elim: reads_backE)
  from Cons.IH [OF _ x'(3), of "arr @ [x']"] Cons.prems(1) obtain xs' where
    "read_elems self (length xs) (arr @ [x']) (adv (length (serialize_node x)) r)
      = Value (ArrayN ((arr @ [x']) @ xs'), adv (length (concat (map serialize_node xs)))
          (adv (length (serialize_node x)) r))"
    "map content xs' = map content xs" by auto
  with x' show ?case by (intro exI [of _ "x' # xs'"]) simp
qed simp

definition entries_bytes :: "('k \<Rightarrow> byte list) \<Rightarrow> ('k \<times> DataNode) list \<Rightarrow> byte list" where
  "entries_bytes wk ps = concat (map (\<lambda>p. wk (fst p) @ serialize_node (snd p)) ps)"

lemma serialize_entries:
  "concat (map (\<lambda>(k, out). wk k @ out) (map (map_prod id serialize_node) m)) = entries_bytes wk m"
  by (simp add: entries_bytes_def comp_def map_prod_def case_prod_unfold)

lemma serialize_map:
  "serialize_node (ObjectN m) = write_msgpack_map_header (length m) @ entries_bytes write_msgpack_str m"
  "serialize_node (IntMapN im) = write_msgpack_map_header (length im) @ entries_bytes write_msgpack_int im"
  by (simp_all only: serialize_node.simps serialize_entries)

lemma entry_back:
  assumes "reads_back env self kn" "reads_back env self v"
    and "stands env r (serialize_node kn @ serialize_node v @ ys)"
  obtains k' v' where "self r = Value (k', adv (length (serialize_node kn)) r)" "content k' = content kn"
    "self (adv (length (serialize_node kn)) r)
       = Value (v', adv (length (serialize_node kn) + length (serialize_node v)) r)"
    "content v' = content v"
    "stands env (adv (length (serialize_node kn) + length (serialize_node v)) r) ys"
proof -
  obtain k' where k': "self r = Value (k', adv (length (serialize_node kn)) r)" "content k' = content kn"
    "stands env (adv (length (serialize_node kn)) r) (serialize_node v @ ys)"
    using reads_backE [OF assms(1,3)] by blast
  obtain v' where v': "self (adv (length (serialize_node kn)) r)
      = Value (v', adv (length (serialize_node kn) + length (serialize_node v)) r)"
    "content v' = content v"
    "stands env (adv (length (serialize_node kn) + length (serialize_node v)) r) ys"
    using reads_backE [OF assms(2) k'(3)] by auto
  from that [OF k'(1,2) v'] show thesis .
qed

lemma read_str_entries_back:
  assumes "\<And>p. p \<in> set ps \<Longrightarrow> reads_back env self (snd p) \<and> reads_back env self (StringN (fst p))"
    and "stands env r (entries_bytes write_msgpack_str ps @ ys)"
  shows "\<exists>ps'. read_str_entries L self (length ps) m r
      = Value (ObjectN (put_all (str_layout L) ps' m), adv (length (entries_bytes write_msgpack_str ps)) r)
    \<and> map (map_prod id content) ps' = map (map_prod id content) ps"
  using assms
proof (induction ps arbitrary: m r)
  case (Cons p ps)
  let ?n = "length (write_msgpack_str (fst p)) + length (serialize_node (snd p))"
  have "stands env r (serialize_node (StringN (fst p)) @ serialize_node (snd p) @ entries_bytes write_msgpack_str ps @ ys)"
    using Cons.prems(2) by (simp add: entries_bytes_def)
  then obtain k' v' where e: "self r = Value (k', adv (length (write_msgpack_str (fst p))) r)"
    "content k' = StringN (fst p)" "self (adv (length (write_msgpack_str (fst p))) r) = Value (v', adv ?n r)"
    "content v' = content (snd p)" "stands env (adv ?n r) (entries_bytes write_msgpack_str ps @ ys)"
    using Cons.prems(1) [of p] by (auto elim: entry_back)
  have k: "k' = StringN (fst p)" using e(2) by (cases k') simp_all
  have "\<And>q. q \<in> set ps \<Longrightarrow> reads_back env self (snd q) \<and> reads_back env self (StringN (fst q))"
    using Cons.prems(1) by simp
  from Cons.IH [OF this e(5), of "map_put (str_layout L) (fst p) v' m"] obtain ps' where
    "read_str_entries L self (length ps) (map_put (str_layout L) (fst p) v' m) (adv ?n r)
      = Value (ObjectN (put_all (str_layout L) ps' (map_put (str_layout L) (fst p) v' m)),
         adv (length (entries_bytes write_msgpack_str ps)) (adv ?n r))"
    "map (map_prod id content) ps' = map (map_prod id content) ps" by blast
  with e k show ?case
    by (intro exI [of _ "(fst p, v') # ps'"]) (cases p, simp add: put_all_def entries_bytes_def add.assoc id_def)
qed (simp add: put_all_def entries_bytes_def)

lemma read_int_entries_back:
  assumes "\<And>p. p \<in> set ps \<Longrightarrow> reads_back env self (snd p) \<and> reads_back env self (IntN (fst p))"
    and "stands env r (entries_bytes write_msgpack_int ps @ ys)"
  shows "\<exists>ps'. read_int_entries L self (length ps) m r
      = Value (IntMapN (put_all (int_layout L) ps' m), adv (length (entries_bytes write_msgpack_int ps)) r)
    \<and> map (map_prod id content) ps' = map (map_prod id content) ps"
  using assms
proof (induction ps arbitrary: m r)
  case (Cons p ps)
  let ?n = "length (write_msgpack_int (fst p)) + length (serialize_node (snd p))"
  have "stands env r (serialize_node (IntN (fst p)) @ serialize_node (snd p) @ entries_bytes write_msgpack_int ps @ ys)"
    using Cons.prems(2) by (simp add: entries_bytes_def)
  then obtain k' v' where e: "self r = Value (k', adv (length (write_msgpack_int (fst p))) r)"
    "content k' = IntN (fst p)" "self (adv (length (write_msgpack_int (fst p))) r) = Value (v', adv ?n r)"
    "content v' = content (snd p)" "stands env (adv ?n r) (entries_bytes write_msgpack_int ps @ ys)"
    using Cons.prems(1) [of p] by (auto elim: entry_back)
  have k: "k' = IntN (fst p)" using e(2) by (cases k') simp_all
  have "\<And>q. q \<in> set ps \<Longrightarrow> reads_back env self (snd q) \<and> reads_back env self (IntN (fst q))"
    using Cons.prems(1) by simp
  from Cons.IH [OF this e(5), of "map_put (int_layout L) (fst p) v' m"] obtain ps' where
    "read_int_entries L self (length ps) (map_put (int_layout L) (fst p) v' m) (adv ?n r)
      = Value (IntMapN (put_all (int_layout L) ps' (map_put (int_layout L) (fst p) v' m)),
         adv (length (entries_bytes write_msgpack_int ps)) (adv ?n r))"
    "map (map_prod id content) ps' = map (map_prod id content) ps" by blast
  with e k show ?case
    by (intro exI [of _ "(fst p, v') # ps'"]) (cases p, simp add: put_all_def entries_bytes_def add.assoc id_def)
qed (simp add: put_all_def entries_bytes_def)

lemma read_array_header:
  assumes "stands env r (write_array_header n @ ys)" "depth \<le> kMaxDepth" "n < 2 ^ 32"
  shows "read_node env depth r = read_array env (read_node env (depth + 1)) n (adv (length (write_array_header n)) r)"
proof -
  consider "n \<le> 15" | "15 < n" "n \<le> 0xffff" | "0xffff < n" by linarith
  then show ?thesis
  proof cases
    case 1
    with assms(1) have "stands env r ((0x90 OR of_nat n) # ys)" by (simp add: write_array_header_def write_u8_def)
    from read_node_tag(1) [OF this assms(2)] 1 tag_fixarray [OF 1] show ?thesis
      by (simp add: read_tagged_def write_array_header_def)
  next
    case 2
    with assms(1) have "stands env r (0xdc # write_u16 (of_nat n) @ ys)"
      by (simp add: write_array_header_def write_u8_def)
    note t = read_node_tag [OF this assms(2)]
    from t(1) 2 guarded_u16 [OF t(2), simplified] show ?thesis
      by (simp add: read_tagged_def unat_of_nat_small write_array_header_def)
  next
    case 3
    with assms(1) have "stands env r (0xdd # write_u32 (of_nat n) @ ys)"
      by (simp add: write_array_header_def write_u8_def)
    note t = read_node_tag [OF this assms(2)]
    from t(1) 3 assms(3) guarded_u32 [OF t(2), simplified] show ?thesis
      by (simp add: read_tagged_def unat_of_nat_small write_array_header_def)
  qed
qed

lemma read_map_header:
  assumes "stands env r (write_msgpack_map_header n @ ys)" "depth \<le> kMaxDepth" "n < 2 ^ 32"
  shows "read_node env depth r = read_map env (read_node env (depth + 1)) n (adv (length (write_msgpack_map_header n)) r)"
proof -
  consider "n \<le> 15" | "15 < n" "n \<le> 0xffff" | "0xffff < n" by linarith
  then show ?thesis
  proof cases
    case 1
    with assms(1) have "stands env r ((0x80 OR of_nat n) # ys)" by (simp add: write_msgpack_map_header_def write_u8_def)
    from read_node_tag(1) [OF this assms(2)] 1 tag_fixmap [OF 1] show ?thesis
      by (simp add: read_tagged_def write_msgpack_map_header_def)
  next
    case 2
    with assms(1) have "stands env r (0xde # write_u16 (of_nat n) @ ys)"
      by (simp add: write_msgpack_map_header_def write_u8_def)
    note t = read_node_tag [OF this assms(2)]
    from t(1) 2 guarded_u16 [OF t(2), simplified] show ?thesis
      by (simp add: read_tagged_def unat_of_nat_small write_msgpack_map_header_def)
  next
    case 3
    with assms(1) have "stands env r (0xdf # write_u32 (of_nat n) @ ys)"
      by (simp add: write_msgpack_map_header_def write_u8_def)
    note t = read_node_tag [OF this assms(2)]
    from t(1) 3 assms(3) guarded_u32 [OF t(2), simplified] show ?thesis
      by (simp add: read_tagged_def unat_of_nat_small write_msgpack_map_header_def)
  qed
qed

lemma str_first_byte:
  "\<exists>b bs. write_msgpack_str s = b # bs \<and> str_keys b \<and> \<not> int_keys b"
proof -
  have "\<forall>n \<in> set [0..<32]. str_keys (0xa0 OR of_nat n) \<and> \<not> int_keys (0xa0 OR of_nat n)"
    by code_simp
  then have "length s \<le> 31 \<Longrightarrow> str_keys (0xa0 OR of_nat (length s)) \<and> \<not> int_keys (0xa0 OR of_nat (length s))"
    by (simp del: upt_rec_numeral)
  moreover have "str_keys 0xd9" "str_keys 0xda" "str_keys 0xdb"
    "\<not> int_keys 0xd9" "\<not> int_keys 0xda" "\<not> int_keys 0xdb"
    by (simp_all add: str_keys_def int_keys_def)
  ultimately show ?thesis
    by (simp add: write_msgpack_str_def write_u8_def Let_def)
qed

lemma int_first_byte:
  "\<exists>b bs. write_msgpack_int v = b # bs \<and> int_keys b"
proof -
  have "int_keys (ucast v)" if "-32 \<le> sint v" "sint v \<le> 0x7f"
    using tag_fixint [OF that] by (cases "0 \<le> sint v") (auto simp: int_keys_def)
  moreover have "int_keys 0xcc" "int_keys 0xcd" "int_keys 0xce" "int_keys 0xcf"
    "int_keys 0xd0" "int_keys 0xd1" "int_keys 0xd2" "int_keys 0xd3"
    by (simp_all add: int_keys_def)
  ultimately show ?thesis
    by (simp add: write_msgpack_int_def write_u8_def)
qed

lemma read_map_peek:
  assumes "stands env r (b # ys)" "0 < n" "n \<le> g_max_container_elements env"
  shows "int_keys b \<Longrightarrow> read_map env self n r = read_int_entries (hash_layouts env) self n [] r"
    and "str_keys b \<Longrightarrow> \<not> int_keys b \<Longrightarrow> read_map env self n r = read_str_entries (hash_layouts env) self n [] r"
  using assms(2,3) stands_has [OF stands_Cons [OF assms(1)]] stands_read_bytes [OF stands_Cons [OF assms(1)]]
  by (simp_all add: read_map_def)

lemma reads_back_array:
  assumes "\<And>x. x \<in> set xs \<Longrightarrow> reads_back env (read_node env (depth + 1)) x"
    and "fits env (ArrayN xs)" "depth \<le> kMaxDepth"
  shows "reads_back env (read_node env depth) (ArrayN xs)"
  unfolding reads_back_def
proof (intro allI impI)
  fix r ys assume "stands env r (serialize_node (ArrayN xs) @ ys)"
  then have st: "stands env r (write_array_header (length xs) @ concat (map serialize_node xs) @ ys)" by simp
  let ?r = "adv (length (write_array_header (length xs))) r"
  have st': "stands env ?r (concat (map serialize_node xs) @ ys)" by (rule stands_adv [OF st])
  from read_elems_back [OF assms(1) st', of "[]"] obtain xs' where
    "read_elems (read_node env (depth + 1)) (length xs) [] ?r
      = Value (ArrayN xs', adv (length (concat (map serialize_node xs))) ?r)"
    "map content xs' = map content xs" by auto
  then show "\<exists>n'. read_node env depth r = Value (n', adv (length (serialize_node (ArrayN xs))) r)
      \<and> content n' = content (ArrayN xs)"
    using read_array_header [OF st assms(3)] assms(2) by (simp add: read_array_def)
qed

lemma reads_back_object:
  assumes "\<And>p. p \<in> set m \<Longrightarrow> reads_back env (read_node env (depth + 1)) (snd p)
      \<and> reads_back env (read_node env (depth + 1)) (StringN (fst p))"
    and "fits env (ObjectN m)" "wf_node (ObjectN m)" "depth \<le> kMaxDepth" "layouts_ok (hash_layouts env)"
  shows "reads_back env (read_node env depth) (ObjectN m)"
  unfolding reads_back_def
proof (intro allI impI)
  fix r ys assume "stands env r (serialize_node (ObjectN m) @ ys)"
  then have st: "stands env r (write_msgpack_map_header (length m) @ entries_bytes write_msgpack_str m @ ys)"
    by (simp only: serialize_map append_assoc)
  let ?self = "read_node env (depth + 1)"
  let ?r = "adv (length (write_msgpack_map_header (length m))) r"
  have st': "stands env ?r (entries_bytes write_msgpack_str m @ ys)" by (rule stands_adv [OF st])
  have lay: "layout_ok (str_layout (hash_layouts env))" using assms(5) by (simp add: layouts_ok_def)
  obtain ps' where ps': "read_str_entries (hash_layouts env) ?self (length m) [] ?r
      = Value (ObjectN (put_all (str_layout (hash_layouts env)) ps' []), adv (length (entries_bytes write_msgpack_str m)) ?r)"
    "map (map_prod id content) ps' = map (map_prod id content) m"
    using read_str_entries_back [OF assms(1) st', of "hash_layouts env" "[]"] by blast
  have "read_map env ?self (length m) ?r = read_str_entries (hash_layouts env) ?self (length m) [] ?r"
  proof (cases m)
    case (Cons p ps)
    with str_first_byte [of "fst p"] obtain b bs where
      "entries_bytes write_msgpack_str m @ ys = b # bs" "str_keys b" "\<not> int_keys b"
      by (auto simp: entries_bytes_def)
    with read_map_peek(2) [of env ?r b bs "length m"] st' Cons assms(2) show ?thesis by simp
  qed (simp add: read_map_def)
  moreover have "content (ObjectN (put_all (str_layout (hash_layouts env)) ps' [])) = content (ObjectN m)"
    using content_put_all [OF lay _ ps'(2)] assms(3) by simp
  ultimately show "\<exists>n'. read_node env depth r = Value (n', adv (length (serialize_node (ObjectN m))) r)
      \<and> content n' = content (ObjectN m)"
    using read_map_header [OF st assms(4)] assms(2) ps'(1)
    by (simp add: serialize_map del: serialize_node.simps)
qed

lemma reads_back_intmap:
  assumes "\<And>p. p \<in> set m \<Longrightarrow> reads_back env (read_node env (depth + 1)) (snd p)
      \<and> reads_back env (read_node env (depth + 1)) (IntN (fst p))"
    and "fits env (IntMapN m)" "wf_node (IntMapN m)" "depth \<le> kMaxDepth" "layouts_ok (hash_layouts env)"
  shows "reads_back env (read_node env depth) (IntMapN m)"
  unfolding reads_back_def
proof (intro allI impI)
  fix r ys assume "stands env r (serialize_node (IntMapN m) @ ys)"
  then have st: "stands env r (write_msgpack_map_header (length m) @ entries_bytes write_msgpack_int m @ ys)"
    by (simp only: serialize_map append_assoc)
  let ?self = "read_node env (depth + 1)"
  let ?r = "adv (length (write_msgpack_map_header (length m))) r"
  have st': "stands env ?r (entries_bytes write_msgpack_int m @ ys)" by (rule stands_adv [OF st])
  have lay: "layout_ok (int_layout (hash_layouts env))" using assms(5) by (simp add: layouts_ok_def)
  obtain ps' where ps': "read_int_entries (hash_layouts env) ?self (length m) [] ?r
      = Value (IntMapN (put_all (int_layout (hash_layouts env)) ps' []), adv (length (entries_bytes write_msgpack_int m)) ?r)"
    "map (map_prod id content) ps' = map (map_prod id content) m"
    using read_int_entries_back [OF assms(1) st', of "hash_layouts env" "[]"] by blast
  obtain p ps where m: "m = p # ps" using assms(2) by (cases m) auto
  with int_first_byte [of "fst p"] obtain b bs where
    "entries_bytes write_msgpack_int m @ ys = b # bs" "int_keys b"
    by (auto simp: entries_bytes_def)
  with read_map_peek(1) [of env ?r b bs "length m"] st' m assms(2)
  have "read_map env ?self (length m) ?r = read_int_entries (hash_layouts env) ?self (length m) [] ?r" by simp
  moreover have "content (IntMapN (put_all (int_layout (hash_layouts env)) ps' [])) = content (IntMapN m)"
    using content_put_all [OF lay _ ps'(2)] assms(3) by simp
  ultimately show "\<exists>n'. read_node env depth r = Value (n', adv (length (serialize_node (IntMapN m))) r)
      \<and> content n' = content (IntMapN m)"
    using read_map_header [OF st assms(4)] assms(2) ps'(1)
    by (simp add: serialize_map del: serialize_node.simps)
qed

lemma reads_back_leaf:
  assumes "depth \<le> kMaxDepth"
  shows "reads_back env (read_node env depth) NullN" "reads_back env (read_node env depth) (BoolN b)"
    "reads_back env (read_node env depth) (IntN i)" "reads_back env (read_node env depth) (FloatN d)"
    "length s < 2 ^ 32 \<Longrightarrow> reads_back env (read_node env depth) (StringN s)"
    "length bs < 2 ^ 32 \<Longrightarrow> reads_back env (read_node env depth) (BinaryN bs)"
proof -
  show "reads_back env (read_node env depth) NullN"
    using read_node_tag(1) [OF _ assms] by (simp add: reads_back_def read_tagged_def write_u8_def)
  show "reads_back env (read_node env depth) (BoolN b)"
    using read_node_tag(1) [OF _ assms] by (cases b) (simp_all add: reads_back_def read_tagged_def write_u8_def)
  show "reads_back env (read_node env depth) (FloatN d)"
    unfolding reads_back_def
  proof (intro allI impI)
    fix r ys assume "stands env r (serialize_node (FloatN d) @ ys)"
    then have "stands env r (0xcb # write_u64 d @ ys)" by (simp add: write_u8_def write_f64_def)
    note t = read_node_tag [OF this assms]
    from t(1) guarded_u64 [OF t(2), simplified]
    show "\<exists>n'. read_node env depth r = Value (n', adv (length (serialize_node (FloatN d))) r)
        \<and> content n' = content (FloatN d)"
      by (simp add: read_tagged_def read_f64_def [abs_def] guarded_def)
  qed
qed (use assms in \<open>auto simp: reads_back_def read_msgpack_int read_msgpack_str read_binary\<close>)

lemma read_node_back:
  assumes "layouts_ok (hash_layouts env)" "wf_node n" "fits env n" "depth + nesting n \<le> kMaxDepth"
  shows "reads_back env (read_node env depth) n"
  using assms(2-)
proof (induction n arbitrary: depth rule: DataNode_induct)
  case (ArrayN xs)
  show ?case
  proof (rule reads_back_array)
    fix x assume x: "x \<in> set xs"
    show "reads_back env (read_node env (depth + 1)) x"
      using ArrayN.IH [OF x, of "depth + 1"] ArrayN.prems x nesting_array [OF x] by simp
  qed (use ArrayN.prems in simp_all)
next
  case (ObjectN m)
  show ?case
  proof (rule reads_back_object [OF _ _ _ _ assms(1)])
    fix p assume p: "p \<in> set m"
    have "depth + 1 \<le> kMaxDepth" using ObjectN.prems nesting_map [OF p] by simp
    moreover have "length (fst p) < 2 ^ 32" using ObjectN.prems p by (auto simp: list_all_iff)
    ultimately show "reads_back env (read_node env (depth + 1)) (snd p)
        \<and> reads_back env (read_node env (depth + 1)) (StringN (fst p))"
      using ObjectN.IH [OF p, of "depth + 1"] ObjectN.prems p nesting_map [OF p] reads_back_leaf(5) by simp
  qed (use ObjectN.prems in simp_all)
next
  case (IntMapN m)
  show ?case
  proof (rule reads_back_intmap [OF _ _ _ _ assms(1)])
    fix p assume p: "p \<in> set m"
    have "depth + 1 \<le> kMaxDepth" using IntMapN.prems nesting_map [OF p] by simp
    then show "reads_back env (read_node env (depth + 1)) (snd p)
        \<and> reads_back env (read_node env (depth + 1)) (IntN (fst p))"
      using IntMapN.IH [OF p, of "depth + 1"] IntMapN.prems p nesting_map [OF p] reads_back_leaf(3) by simp
  qed (use IntMapN.prems in simp_all)
qed (simp_all add: reads_back_leaf)



section \<open>Every input\<close>

text \<open>The reader is inside the buffer, and an offset plus a 32-bit length does not wrap.\<close>

definition inside :: "msgpack_env \<Rightarrow> Reader \<Rightarrow> bool" where
  "inside env r \<longleftrightarrow> mpos r \<le> length (mdata r) \<and> length (mdata r) + 2 ^ 32 \<le> 2 ^ size_t_bits env"

text \<open>A reader that never leaves the buffer and whose results satisfy \<open>Q\<close>.\<close>

definition sound :: "msgpack_env \<Rightarrow> 'a reader \<Rightarrow> ('a \<Rightarrow> bool) \<Rightarrow> bool" where
  "sound env rd Q \<longleftrightarrow> (\<forall>r. inside env r \<longrightarrow> rd r \<noteq> Fault
     \<and> (\<forall>x r'. rd r = Value (x, r') \<longrightarrow> inside env r' \<and> Q x))"

lemma sound_Value: "Q x \<Longrightarrow> sound env (\<lambda>r. Value (x, r)) Q"
  by (simp add: sound_def)

lemma sound_NullPtr: "sound env (\<lambda>r. NullPtr) Q"
  by (simp add: sound_def)

lemma sound_if:
  "(c \<Longrightarrow> sound env f Q) \<Longrightarrow> (\<not> c \<Longrightarrow> sound env g Q) \<Longrightarrow> sound env (\<lambda>r. if c then f r else g r) Q"
  by (cases c) simp_all

lemma soundD:
  "sound env rd Q \<Longrightarrow> inside env r \<Longrightarrow> rd r \<noteq> Fault"
  "sound env rd Q \<Longrightarrow> inside env r \<Longrightarrow> rd r = Value (x, r') \<Longrightarrow> inside env r' \<and> Q x"
  unfolding sound_def by blast+

lemma sound_and_then:
  assumes "sound env rd P" "\<And>x. P x \<Longrightarrow> sound env (f x) Q"
  shows "sound env (\<lambda>r. and_then (rd r) (\<lambda>(x, r). f x r)) Q"
  unfolding sound_def
proof (intro allI impI)
  fix r assume r: "inside env r"
  show "and_then (rd r) (\<lambda>(x, r). f x r) \<noteq> Fault
    \<and> (\<forall>x r'. and_then (rd r) (\<lambda>(x, r). f x r) = Value (x, r') \<longrightarrow> inside env r' \<and> Q x)"
  proof (cases "rd r")
    case (Value p)
    obtain x r1 where p: "p = (x, r1)" by force
    with soundD(2) [OF assms(1) r, of x r1] Value have "inside env r1" "P x" by auto
    with soundD [OF assms(2), of x r1] Value p show ?thesis by auto
  qed (use soundD(1) [OF assms(1) r] in auto)
qed

lemma inside_has:
  assumes "inside env r" "n < 2 ^ 32"
  shows "has env r n \<longleftrightarrow> mpos r + n \<le> length (mdata r)"
proof -
  have "mpos r + n < 2 ^ size_t_bits env" using assms unfolding inside_def by linarith
  then show ?thesis by (simp add: has_def)
qed

lemma sound_bytes:
  assumes "n < 2 ^ 32"
  shows "sound env (guarded env n (read_bytes n)) (\<lambda>bs. length bs = n)"
  using inside_has [OF _ assms]
  by (auto simp: sound_def guarded_def read_bytes_def adv_def inside_def)

lemma sound_u8: "sound env (guarded env 1 read_u8) (\<lambda>_. True)"
  using inside_has [of env _ 1]
  by (auto simp: sound_def guarded_def read_u8_def read_bytes_def adv_def inside_def)

lemma sound_u16: "sound env (guarded env 2 read_u16) (\<lambda>_. True)"
  using inside_has [of env _ 2]
  by (auto simp: sound_def guarded_def read_u16_def read_bytes_def adv_def inside_def)

lemma sound_u32: "sound env (guarded env 4 read_u32) (\<lambda>_. True)"
  using inside_has [of env _ 4]
  by (auto simp: sound_def guarded_def read_u32_def read_bytes_def adv_def inside_def)

lemma sound_u64: "sound env (guarded env 8 read_u64) (\<lambda>_. True)"
  using inside_has [of env _ 8]
  by (auto simp: sound_def guarded_def read_u64_def read_u32_def read_bytes_def adv_def inside_def)

text \<open>What holds of a node read at a depth.\<close>

definition node_ok :: "nat \<Rightarrow> DataNode \<Rightarrow> bool" where
  "node_ok depth n \<longleftrightarrow> wf_node n \<and> depth + nesting n \<le> kMaxDepth"

lemma fold_max_le: "fold max xs (a :: nat) \<le> b \<longleftrightarrow> a \<le> b \<and> (\<forall>x \<in> set xs. x \<le> b)"
  by (induction xs arbitrary: a) auto

lemma node_ok_containers:
  assumes "depth \<le> kMaxDepth"
  shows "\<forall>x \<in> set xs. node_ok (Suc depth) x \<Longrightarrow> node_ok depth (ArrayN xs)"
    and "distinct (map fst m) \<Longrightarrow> \<forall>p \<in> set m. node_ok (Suc depth) (snd p) \<Longrightarrow> node_ok depth (ObjectN m)"
    and "distinct (map fst im) \<Longrightarrow> \<forall>p \<in> set im. node_ok (Suc depth) (snd p) \<Longrightarrow> node_ok depth (IntMapN im)"
proof -
  have le: "depth + fold max ys 0 \<le> kMaxDepth" if "\<forall>y \<in> set ys. depth + y \<le> kMaxDepth" for ys
    using assms that fold_max_le [of ys 0 "kMaxDepth - depth"] by force
  show "\<forall>x \<in> set xs. node_ok (Suc depth) x \<Longrightarrow> node_ok depth (ArrayN xs)"
    using le [of "map (Suc \<circ> nesting) xs"] by (simp add: node_ok_def)
  show "distinct (map fst m) \<Longrightarrow> \<forall>p \<in> set m. node_ok (Suc depth) (snd p) \<Longrightarrow> node_ok depth (ObjectN m)"
    using le [of "map (Suc \<circ> snd) (map (map_prod id nesting) m)"] by (fastforce simp: node_ok_def)
  show "distinct (map fst im) \<Longrightarrow> \<forall>p \<in> set im. node_ok (Suc depth) (snd p) \<Longrightarrow> node_ok depth (IntMapN im)"
    using le [of "map (Suc \<circ> snd) (map (map_prod id nesting) im)"] by (fastforce simp: node_ok_def)
qed

lemma sound_elems:
  assumes "sound env self (node_ok (Suc depth))" "depth \<le> kMaxDepth" "\<forall>x \<in> set arr. node_ok (Suc depth) x"
  shows "sound env (read_elems self n arr) (node_ok depth)"
  using assms(3)
proof (induction n arbitrary: arr)
  case 0
  then show ?case using node_ok_containers(1) [OF assms(2)] by (simp add: sound_Value)
next
  case (Suc n)
  show ?case unfolding read_elems.simps
    by (rule sound_and_then [OF assms(1)]) (use Suc in simp)
qed

lemma sound_str_entries:
  assumes "sound env self (node_ok (Suc depth))" "depth \<le> kMaxDepth" "layout_ok (str_layout L)"
    and "distinct (map fst m)" "\<forall>p \<in> set m. node_ok (Suc depth) (snd p)"
  shows "sound env (read_str_entries L self n m) (node_ok depth)"
  using assms(4,5)
proof (induction n arbitrary: m)
  case 0
  then show ?case using node_ok_containers(2) [OF assms(2)] by (simp add: sound_Value)
next
  case (Suc n)
  have "sound env (\<lambda>r. and_then (self r) (\<lambda>(val, r).
      read_str_entries L self n (map_put (str_layout L) key val m) r)) (node_ok depth)" for key
    by (rule sound_and_then [OF assms(1)], rule Suc.IH)
       (rule map_put_distinct [OF assms(3) Suc.prems(1)],
        rule map_put_entries [OF assms(3) Suc.prems(1) _ Suc.prems(2)])
  then show ?case unfolding read_str_entries.simps
    apply (intro sound_and_then [OF assms(1)])
    subgoal for key_node by (cases key_node) (simp_all add: sound_NullPtr)
    done
qed

lemma sound_int_entries:
  assumes "sound env self (node_ok (Suc depth))" "depth \<le> kMaxDepth" "layout_ok (int_layout L)"
    and "distinct (map fst m)" "\<forall>p \<in> set m. node_ok (Suc depth) (snd p)"
  shows "sound env (read_int_entries L self n m) (node_ok depth)"
  using assms(4,5)
proof (induction n arbitrary: m)
  case 0
  then show ?case using node_ok_containers(3) [OF assms(2)] by (simp add: sound_Value)
next
  case (Suc n)
  have "sound env (\<lambda>r. and_then (self r) (\<lambda>(val, r).
      read_int_entries L self n (map_put (int_layout L) key val m) r)) (node_ok depth)" for key
    by (rule sound_and_then [OF assms(1)], rule Suc.IH)
       (rule map_put_distinct [OF assms(3) Suc.prems(1)],
        rule map_put_entries [OF assms(3) Suc.prems(1) _ Suc.prems(2)])
  then show ?case unfolding read_int_entries.simps
    apply (intro sound_and_then [OF assms(1)])
    subgoal for key_node by (cases key_node) (simp_all add: sound_NullPtr)
    done
qed

lemma sound_map:
  assumes "sound env self (node_ok (Suc depth))" "depth \<le> kMaxDepth" "layouts_ok (hash_layouts env)"
  shows "sound env (read_map env self n) (node_ok depth)"
proof -
  let ?L = "hash_layouts env"
  have e: "sound env (read_str_entries ?L self n []) (node_ok depth)"
    "sound env (read_int_entries ?L self n []) (node_ok depth)"
    using assms sound_str_entries sound_int_entries by (simp_all add: layouts_ok_def)
  show ?thesis
    unfolding sound_def
  proof (intro allI impI)
    fix r assume r: "inside env r"
    have "node_ok depth (ObjectN [])" using assms(2) by (simp add: node_ok_def)
    then show "read_map env self n r \<noteq> Fault
      \<and> (\<forall>x r'. read_map env self n r = Value (x, r') \<longrightarrow> inside env r' \<and> node_ok depth x)"
      using r inside_has [OF r, of 1] soundD(1) [OF e(1) r] soundD(1) [OF e(2) r]
        soundD(2) [OF e(1) r] soundD(2) [OF e(2) r]
      by (auto simp: read_map_def read_bytes_def Let_def split: if_splits)
  qed
qed

lemma sound_array:
  assumes "sound env self (node_ok (Suc depth))" "depth \<le> kMaxDepth"
  shows "sound env (read_array env self n) (node_ok depth)"
  unfolding read_array_def using sound_elems [OF assms, of "[]" n]
  by (intro sound_if sound_NullPtr) simp_all

lemma sound_str:
  assumes "n < 2 ^ 32" "depth \<le> kMaxDepth"
  shows "sound env (read_str env n) (node_ok depth)"
  unfolding read_str_def using assms(2)
  by (intro sound_and_then [OF sound_bytes [OF assms(1)]] sound_Value) (simp add: node_ok_def)

lemma sound_bin:
  assumes "n < 2 ^ 32" "depth \<le> kMaxDepth"
  shows "sound env (read_bin env n) (node_ok depth)"
  unfolding read_bin_def using assms(2)
  by (intro sound_and_then [OF sound_bytes [OF assms(1)]] sound_Value) (simp add: node_ok_def)

lemma unat_less_2p32:
  "unat (b :: byte) < 2 ^ 32" "unat (h :: u16) < 2 ^ 32" "unat (w :: u32) < 2 ^ 32"
  using unsigned_less [of b, where ?'a = nat] unsigned_less [of h, where ?'a = nat]
    unsigned_less [of w, where ?'a = nat] by simp_all

lemmas sound_reads = sound_and_then [OF sound_u8] sound_and_then [OF sound_u16]
  sound_and_then [OF sound_u32] sound_and_then [OF sound_u64]

lemma sound_tagged:
  assumes "sound env self (node_ok (Suc depth))" "depth \<le> kMaxDepth" "layouts_ok (hash_layouts env)"
  shows "sound env (read_tagged env self b) (node_ok depth)"
proof -
  have leaf: "node_ok depth (IntN i)" "node_ok depth (FloatN f)" "node_ok depth (BoolN c)" "node_ok depth NullN"
    for i f c using assms(2) by (simp_all add: node_ok_def)
  have f: "read_f32 = read_u32" "read_f64 = read_u64" by (simp_all add: fun_eq_iff read_f32_def read_f64_def)
  note sub = sound_map [OF assms] sound_array [OF assms(1,2)]
    sound_str [OF unat_less_2p32(1) assms(2)] sound_str [OF unat_less_2p32(2) assms(2)]
    sound_str [OF unat_less_2p32(3) assms(2)] sound_bin [OF unat_less_2p32(1) assms(2)]
    sound_bin [OF unat_less_2p32(2) assms(2)] sound_bin [OF unat_less_2p32(3) assms(2)]
  show ?thesis unfolding read_tagged_def f
    by (intro sound_if sound_reads sub sound_NullPtr sound_Value leaf)
qed

lemma sound_node:
  assumes "layouts_ok (hash_layouts env)"
  shows "sound env (read_node env depth) (node_ok depth)"
proof (induction "kMaxDepth + 1 - depth" arbitrary: depth)
  case 0
  then show ?case by (simp add: sound_def read_node.simps)
next
  case (Suc k)
  then have d: "depth \<le> kMaxDepth" "k = kMaxDepth + 1 - Suc depth" by simp_all
  have "sound env (read_tagged env (read_node env (Suc depth)) b) (node_ok depth)" for b
    by (rule sound_tagged [OF Suc.hyps(1) [OF d(2)] d(1) assms])
  then have "sound env (\<lambda>r. and_then (guarded env 1 read_u8 r)
      (\<lambda>(b, r). read_tagged env (read_node env (Suc depth)) b r)) (node_ok depth)"
    by (intro sound_reads)
  moreover have "read_node env depth = (\<lambda>r. and_then (guarded env 1 read_u8 r)
      (\<lambda>(b, r). read_tagged env (read_node env (Suc depth)) b r))"
    using d(1) by (auto simp: fun_eq_iff read_node.simps [of env depth] guarded_def)
  ultimately show ?case by simp
qed

text \<open>C13: on every input, where a buffer offset plus a 32-bit length does not wrap in
  \<^verbatim>\<open>size_t\<close> (as on 64-bit builds), the parser never reads outside the buffer; and a tree it
  returns has no duplicate keys and is at most \<^verbatim>\<open>kMaxDepth\<close> levels deep.\<close>

theorem MsgPackParse_safe:
  assumes "layouts_ok (hash_layouts env)" "length bs + 2 ^ 32 \<le> 2 ^ size_t_bits env"
  shows "MsgPackParse env bs \<noteq> Fault
    \<and> (\<forall>n. MsgPackParse env bs = Value n \<longrightarrow> wf_node n \<and> nesting n \<le> kMaxDepth)"
proof -
  have "inside env \<lparr>mdata = bs, mpos = 0\<rparr>" using assms(2) by (simp add: inside_def)
  note s = soundD [OF sound_node [OF assms(1), of 0] this]
  show ?thesis using s by (auto simp: MsgPackParse_def node_ok_def split: if_splits)
qed

theorem MsgPackParse_safe_witness:
  "MsgPackParse \<lparr>size_t_bits = 64, g_max_container_elements = 1000000,
      hash_layouts = \<lparr>str_layout = rev, int_layout = rev\<rparr>\<rparr> [0xdb, 0xff, 0xff, 0xff, 0xff] \<noteq> Fault"
  using MsgPackParse_safe [of "\<lparr>size_t_bits = 64, g_max_container_elements = 1000000,
      hash_layouts = \<lparr>str_layout = rev, int_layout = rev\<rparr>\<rparr>" "[0xdb, 0xff, 0xff, 0xff, 0xff]"]
  by (simp add: layouts_ok_def)


text \<open>C34: an integer that does not fit 63 bits, sent as an unsigned 64-bit integer, is read as the
  negative number with the same bits.\<close>

theorem MsgPackParse_uint64_wraps:
  assumes "2 ^ 63 \<le> uint v" "(9 :: nat) < 2 ^ size_t_bits env"
  shows "\<exists>i. MsgPackParse env (0xcf # write_u64 v) = Value (IntN i) \<and> sint i = uint v - 2 ^ 64"
proof -
  let ?r = "\<lparr>mdata = 0xcf # write_u64 v, mpos = 0\<rparr>"
  have "stands env ?r (0xcf # write_u64 v @ [])" using assms(2) by (simp add: stands_def)
  note t = read_node_tag [OF this, of 0]
  have "sint v = uint v - 2 ^ 64" using assms(1) by (simp add: sint_i64)
  with t guarded_u64 [OF t(2), simplified] show ?thesis
    by (simp add: MsgPackParse_def read_tagged_def adv_def)
qed

theorem MsgPackParse_uint64_wraps_witness:
  "\<exists>i. MsgPackParse \<lparr>size_t_bits = 64, g_max_container_elements = 1000000,
      hash_layouts = \<lparr>str_layout = rev, int_layout = rev\<rparr>\<rparr> (0xcf # write_u64 0xffffffffffffffff)
      = Value (IntN i) \<and> sint i = -1"
  using MsgPackParse_uint64_wraps [of "0xffffffffffffffff" "\<lparr>size_t_bits = 64,
      g_max_container_elements = 1000000, hash_layouts = \<lparr>str_layout = rev, int_layout = rev\<rparr>\<rparr>"]
  by simp

end
