(* ===== verification/Linked_List.thy ===== *)
theory Linked_List
  imports Async2_Prelude "HOL-Library.Monad_Syntax"
begin

text \<open>
  The doubly linked list behind the LinkedList natives (\<^verbatim>\<open>src/linked_list.h\<close>,
  \<^verbatim>\<open>linked_list.cpp\<close>): a ring of heap nodes through a sentinel, an index from node ids to
  nodes, and a supply of ids that are recycled in first-in first-out order.  The heap is explicit:
  following a pointer to a node that was deleted is None.  The theory shows that no operation ever
  does so, and that every operation does on the ring what its name says on the list of
  (id, value) pairs.
\<close>

section \<open>Model\<close>

type_synonym addr = nat

record Node =
  node_value :: i32
  node_prev :: addr
  node_next :: addr
  node_id :: u32

text \<open>The sentinel is a member of the list object; it has the address 0 here.  \<open>brk\<close> is the next
  address \<^verbatim>\<open>new\<close> returns.\<close>

record LinkedList =
  heap :: "addr \<Rightarrow> Node option"
  brk :: addr
  next_id :: u32
  free_ids :: "u32 list"
  nodes :: "(u32 \<times> addr) list"

abbreviation sentinel :: addr where
  "sentinel \<equiv> 0"

definition LinkedList_init :: LinkedList where
  "LinkedList_init = \<lparr>heap = [sentinel \<mapsto> \<lparr>node_value = 0, node_prev = sentinel,
       node_next = sentinel, node_id = 0\<rparr>], brk = 1, next_id = 1, free_ids = [], nodes = []\<rparr>"

text \<open>A write through a pointer.\<close>

definition upd :: "addr \<Rightarrow> (Node \<Rightarrow> Node) \<Rightarrow> LinkedList \<Rightarrow> LinkedList option" where
  "upd p f l = do { n \<leftarrow> heap l p; Some (l\<lparr>heap := (heap l)(p \<mapsto> f n)\<rparr>) }"

definition FindNode :: "u32 \<Rightarrow> LinkedList \<Rightarrow> addr option" where
  "FindNode i l = map_of (nodes l) i"

definition InsertBefore :: "addr \<Rightarrow> addr \<Rightarrow> LinkedList \<Rightarrow> LinkedList option" where
  "InsertBefore pos node l = do {
     p \<leftarrow> heap l pos;
     l \<leftarrow> upd node (\<lambda>n. n\<lparr>node_prev := node_prev p\<rparr>) l;
     l \<leftarrow> upd node (\<lambda>n. n\<lparr>node_next := pos\<rparr>) l;
     p \<leftarrow> heap l pos;
     l \<leftarrow> upd (node_prev p) (\<lambda>n. n\<lparr>node_next := node\<rparr>) l;
     upd pos (\<lambda>n. n\<lparr>node_prev := node\<rparr>) l
   }"

definition Unlink :: "addr \<Rightarrow> LinkedList \<Rightarrow> LinkedList option" where
  "Unlink node l = do {
     n \<leftarrow> heap l node;
     l \<leftarrow> upd (node_prev n) (\<lambda>m. m\<lparr>node_next := node_next n\<rparr>) l;
     n \<leftarrow> heap l node;
     upd (node_next n) (\<lambda>m. m\<lparr>node_prev := node_prev n\<rparr>) l
   }"

definition RecycleId :: "u32 \<Rightarrow> LinkedList \<Rightarrow> LinkedList" where
  "RecycleId i l = l\<lparr>free_ids := free_ids l @ [i]\<rparr>"

definition NextId :: "LinkedList \<Rightarrow> u32 \<times> LinkedList" where
  "NextId l = (case free_ids l of
     i # rest \<Rightarrow> (i, l\<lparr>free_ids := rest\<rparr>)
   | [] \<Rightarrow>
       let i = next_id l; l = l\<lparr>next_id := next_id l + 1\<rparr>
       in if i = 0 then (next_id l, l\<lparr>next_id := next_id l + 1\<rparr>) else (i, l))"

text \<open>\<^verbatim>\<open>new Node()\<close>, with the value and the id that are stored right after.\<close>

definition new_node :: "i32 \<Rightarrow> LinkedList \<Rightarrow> addr \<times> u32 \<times> LinkedList" where
  "new_node v l =
     (let node = brk l;
          l = l\<lparr>heap := (heap l)(node \<mapsto> \<lparr>node_value = v, node_prev = 0, node_next = 0, node_id = 0\<rparr>),
                brk := brk l + 1\<rparr>;
          (i, l) = NextId l
      in (node, i, l\<lparr>heap := (heap l)(node \<mapsto> \<lparr>node_value = v, node_prev = 0, node_next = 0, node_id = i\<rparr>)\<rparr>))"

definition PushFront :: "i32 \<Rightarrow> LinkedList \<Rightarrow> (u32 \<times> LinkedList) option" where
  "PushFront v l = (let (node, i, l) = new_node v l in do {
     s \<leftarrow> heap l sentinel;
     l \<leftarrow> InsertBefore (node_next s) node l;
     Some (i, l\<lparr>nodes := AList.update i node (nodes l)\<rparr>)
   })"

definition PushBack :: "i32 \<Rightarrow> LinkedList \<Rightarrow> (u32 \<times> LinkedList) option" where
  "PushBack v l = (let (node, i, l) = new_node v l in do {
     l \<leftarrow> InsertBefore sentinel node l;
     Some (i, l\<lparr>nodes := AList.update i node (nodes l)\<rparr>)
   })"

text \<open>The tail shared by the two pops and by \<^verbatim>\<open>Remove\<close>: unlink, forget the id, recycle it,
  delete the node.\<close>

definition drop_node :: "addr \<Rightarrow> u32 \<Rightarrow> LinkedList \<Rightarrow> LinkedList option" where
  "drop_node node i l = do {
     l \<leftarrow> Unlink node l;
     let l = RecycleId i (l\<lparr>nodes := AList.delete i (nodes l)\<rparr>);
     Some (l\<lparr>heap := (heap l)(node := None)\<rparr>)
   }"

definition PopFront :: "LinkedList \<Rightarrow> (i32 \<times> LinkedList) option" where
  "PopFront l = (if nodes l = [] then Some (0, l) else do {
     s \<leftarrow> heap l sentinel;
     n \<leftarrow> heap l (node_next s);
     l \<leftarrow> drop_node (node_next s) (node_id n) l;
     Some (node_value n, l)
   })"

definition PopBack :: "LinkedList \<Rightarrow> (i32 \<times> LinkedList) option" where
  "PopBack l = (if nodes l = [] then Some (0, l) else do {
     s \<leftarrow> heap l sentinel;
     n \<leftarrow> heap l (node_prev s);
     l \<leftarrow> drop_node (node_prev s) (node_id n) l;
     Some (node_value n, l)
   })"

definition Remove :: "u32 \<Rightarrow> LinkedList \<Rightarrow> (i32 \<times> LinkedList) option" where
  "Remove i l = (case FindNode i l of
     None \<Rightarrow> Some (0, l)
   | Some node \<Rightarrow> do {
       n \<leftarrow> heap l node;
       l \<leftarrow> drop_node node i l;
       Some (node_value n, l)
     })"

definition MoveToFront :: "u32 \<Rightarrow> LinkedList \<Rightarrow> LinkedList option" where
  "MoveToFront i l = do {
     s \<leftarrow> heap l sentinel;
     case FindNode i l of
       None \<Rightarrow> Some l
     | Some node \<Rightarrow> if node = node_next s then Some l else do {
         l \<leftarrow> Unlink node l;
         s \<leftarrow> heap l sentinel;
         InsertBefore (node_next s) node l
       }
   }"

definition MoveToBack :: "u32 \<Rightarrow> LinkedList \<Rightarrow> LinkedList option" where
  "MoveToBack i l = do {
     s \<leftarrow> heap l sentinel;
     case FindNode i l of
       None \<Rightarrow> Some l
     | Some node \<Rightarrow> if node = node_prev s then Some l else do {
         l \<leftarrow> Unlink node l;
         InsertBefore sentinel node l
       }
   }"

definition GetValue :: "u32 \<Rightarrow> LinkedList \<Rightarrow> i32 option" where
  "GetValue i l = (case FindNode i l of
     None \<Rightarrow> Some 0
   | Some node \<Rightarrow> map_option node_value (heap l node))"

definition SetValue :: "u32 \<Rightarrow> i32 \<Rightarrow> LinkedList \<Rightarrow> LinkedList option" where
  "SetValue i v l = (case FindNode i l of
     None \<Rightarrow> Some l
   | Some node \<Rightarrow> upd node (\<lambda>n. n\<lparr>node_value := v\<rparr>) l)"

definition First :: "LinkedList \<Rightarrow> u32 option" where
  "First l = do {
     s \<leftarrow> heap l sentinel;
     if node_next s \<noteq> sentinel then map_option node_id (heap l (node_next s)) else Some 0
   }"

definition Last :: "LinkedList \<Rightarrow> u32 option" where
  "Last l = do {
     s \<leftarrow> heap l sentinel;
     if node_prev s \<noteq> sentinel then map_option node_id (heap l (node_prev s)) else Some 0
   }"

definition Next :: "u32 \<Rightarrow> LinkedList \<Rightarrow> u32 option" where
  "Next i l = (case FindNode i l of
     None \<Rightarrow> Some 0
   | Some node \<Rightarrow> do {
       n \<leftarrow> heap l node;
       if node_next n = sentinel then Some 0 else map_option node_id (heap l (node_next n))
     })"

definition Prev :: "u32 \<Rightarrow> LinkedList \<Rightarrow> u32 option" where
  "Prev i l = (case FindNode i l of
     None \<Rightarrow> Some 0
   | Some node \<Rightarrow> do {
       n \<leftarrow> heap l node;
       if node_prev n = sentinel then Some 0 else map_option node_id (heap l (node_prev n))
     })"

definition Size :: "LinkedList \<Rightarrow> i32" where
  "Size l = of_nat (length (nodes l))"

text \<open>The loops of \<^verbatim>\<open>DeepCopy\<close> and \<^verbatim>\<open>Clear\<close> follow the ring until they are back at the
  sentinel; on a broken ring they need not return.\<close>

partial_function (option) copy_loop :: "LinkedList \<Rightarrow> addr \<Rightarrow> LinkedList \<Rightarrow> LinkedList option" where
  "copy_loop l cur copy =
     (if cur = sentinel then Some copy
      else do {
        n \<leftarrow> heap l cur;
        r \<leftarrow> PushBack (node_value n) copy;
        copy_loop l (node_next n) (snd r)
      })"

definition LinkedList_DeepCopy :: "LinkedList \<Rightarrow> LinkedList option" where
  "LinkedList_DeepCopy l = do { s \<leftarrow> heap l sentinel; copy_loop l (node_next s) LinkedList_init }"

partial_function (option) clear_loop :: "addr \<Rightarrow> LinkedList \<Rightarrow> LinkedList option" where
  "clear_loop node l =
     (if node = sentinel then Some l
      else do {
        n \<leftarrow> heap l node;
        clear_loop (node_next n) (l\<lparr>heap := (heap l)(node := None)\<rparr>)
      })"

definition Clear :: "LinkedList \<Rightarrow> LinkedList option" where
  "Clear l = do {
     s \<leftarrow> heap l sentinel;
     l \<leftarrow> clear_loop (node_next s) l;
     l \<leftarrow> upd sentinel (\<lambda>n. n\<lparr>node_next := sentinel\<rparr>) l;
     l \<leftarrow> upd sentinel (\<lambda>n. n\<lparr>node_prev := sentinel\<rparr>) l;
     Some (l\<lparr>nodes := [], free_ids := []\<rparr>)
   }"

section \<open>The ring\<close>

text \<open>The links of a heap, and its data, apart.\<close>

definition nx :: "(addr \<Rightarrow> Node option) \<Rightarrow> addr \<Rightarrow> addr option" where
  "nx h p = map_option node_next (h p)"

definition pv :: "(addr \<Rightarrow> Node option) \<Rightarrow> addr \<Rightarrow> addr option" where
  "pv h p = map_option node_prev (h p)"

definition dat :: "(addr \<Rightarrow> Node option) \<Rightarrow> addr \<Rightarrow> (u32 \<times> i32) option" where
  "dat h p = map_option (\<lambda>n. (node_id n, node_value n)) (h p)"

fun links :: "(addr \<Rightarrow> addr option) \<Rightarrow> (addr \<Rightarrow> addr option) \<Rightarrow> addr list \<Rightarrow> bool" where
  "links N P (x # y # zs) = (N x = Some y \<and> P y = Some x \<and> links N P (y # zs))"
| "links N P _ = True"

lemma links_split:
  "links N P (us @ x # vs) \<longleftrightarrow> links N P (us @ [x]) \<and> links N P (x # vs)"
proof (induction us)
  case (Cons u us)
  then show ?case by (cases us) auto
qed simp

lemma links_cong:
  assumes "\<And>x. x \<in> set (butlast xs) \<Longrightarrow> N' x = N x" "\<And>x. x \<in> set (tl xs) \<Longrightarrow> P' x = P x"
  shows "links N' P' xs = links N P xs"
  using assms
proof (induction N P xs rule: links.induct)
  case (1 N P x y zs)
  have "links N' P' (y # zs) = links N P (y # zs)" using 1 by (intro "1.IH") auto
  with 1(2,3) show ?case by simp
qed simp_all

text \<open>The addresses \<open>as\<close> form a ring with the sentinel.\<close>

definition ring :: "(addr \<Rightarrow> addr option) \<Rightarrow> (addr \<Rightarrow> addr option) \<Rightarrow> addr list \<Rightarrow> bool" where
  "ring N P as \<longleftrightarrow> distinct (sentinel # as) \<and> links N P (sentinel # as @ [sentinel])"

text \<open>The neighbours of a gap in the ring.\<close>

abbreviation before :: "addr list \<Rightarrow> addr" where
  "before as \<equiv> last (sentinel # as)"

abbreviation behind :: "addr list \<Rightarrow> addr" where
  "behind as \<equiv> hd (as @ [sentinel])"

lemma ring_at:
  "sentinel # as1 @ as2 @ [sentinel]
   = butlast (sentinel # as1) @ before as1 # behind as2 # tl (as2 @ [sentinel])"
proof -
  have 1: "sentinel # as1 = butlast (sentinel # as1) @ [before as1]"
    by (metis append_butlast_last_id list.distinct(1))
  have 2: "as2 @ [sentinel] = behind as2 # tl (as2 @ [sentinel])"
    by (metis append_is_Nil_conv list.collapse not_Cons_self2)
  have "sentinel # as1 @ as2 @ [sentinel] = (sentinel # as1) @ (as2 @ [sentinel])" by simp
  also have "\<dots> = (butlast (sentinel # as1) @ [before as1]) @ (behind as2 # tl (as2 @ [sentinel]))"
    by (rule arg_cong2 [where f = "(@)", OF 1 2])
  finally show ?thesis by simp
qed

lemma ring_gap:
  assumes "ring N P (as1 @ as2)"
  shows "links N P (sentinel # as1)" "links N P (as2 @ [sentinel])"
    "N (before as1) = Some (behind as2)" "P (behind as2) = Some (before as1)"
proof -
  have "links N P (butlast (sentinel # as1) @ before as1 # behind as2 # tl (as2 @ [sentinel]))"
    using assms ring_at [of as1 as2] by (simp add: ring_def)
  then have l: "links N P (butlast (sentinel # as1) @ [before as1])"
    "links N P (before as1 # behind as2 # tl (as2 @ [sentinel]))"
    by (subst (asm) links_split, simp)+
  from l(1) show "links N P (sentinel # as1)" by (simp del: butlast.simps last.simps)
  from l(2) show "links N P (as2 @ [sentinel])"
    "N (before as1) = Some (behind as2)" "P (behind as2) = Some (before as1)"
    by (cases as2; simp del: last.simps)+
qed

lemma ringI:
  assumes "distinct (sentinel # as1 @ as2)" "links N P (sentinel # as1)" "links N P (as2 @ [sentinel])"
    and "N (before as1) = Some (behind as2)" "P (behind as2) = Some (before as1)"
  shows "ring N P (as1 @ as2)"
proof -
  have "links N P (butlast (sentinel # as1) @ [before as1])"
    using assms(2) by (simp del: butlast.simps last.simps)
  moreover have "links N P (before as1 # behind as2 # tl (as2 @ [sentinel]))"
    using assms(3-) by (cases as2) (simp_all del: last.simps)
  ultimately have "links N P (butlast (sentinel # as1) @ before as1 # behind as2 # tl (as2 @ [sentinel]))"
    by (subst links_split) simp
  then have "links N P (sentinel # as1 @ as2 @ [sentinel])" by (simp only: ring_at)
  with assms(1) show ?thesis by (simp add: ring_def)
qed

lemma ring_ends:
  assumes "distinct (sentinel # as1 @ as2)"
  shows "before as1 \<in> set (sentinel # as1)" "before as1 \<notin> set (butlast (sentinel # as1))"
    "before as1 \<notin> set as2" "behind as2 \<in> set (sentinel # as2)" "behind as2 \<notin> set as1"
    "behind as2 \<notin> set (tl (as2 @ [sentinel]))"
proof -
  show b: "before as1 \<in> set (sentinel # as1)" by (metis last_in_set list.distinct(1))
  show "before as1 \<notin> set (butlast (sentinel # as1))"
    using assms by (intro last_notin_butlast) auto
  show "before as1 \<notin> set as2" using assms b by (auto simp del: last.simps)
  show "behind as2 \<in> set (sentinel # as2)" "behind as2 \<notin> set as1"
    "behind as2 \<notin> set (tl (as2 @ [sentinel]))"
    using assms by (cases as2; auto)+
qed

lemma links_outer:
  assumes "links N P (sentinel # as1)" "links N P (as2 @ [sentinel])"
    and d: "distinct (sentinel # as1 @ as2)" and "node \<notin> set (sentinel # as1 @ as2)"
    and N: "\<And>x. x \<noteq> node \<Longrightarrow> x \<noteq> before as1 \<Longrightarrow> N' x = N x"
    and P: "\<And>x. x \<noteq> node \<Longrightarrow> x \<noteq> behind as2 \<Longrightarrow> P' x = P x"
  shows "links N' P' (sentinel # as1)" "links N' P' (as2 @ [sentinel])"
proof -
  note e = ring_ends [OF d]
  have "links N' P' (sentinel # as1) = links N P (sentinel # as1)"
  proof (rule links_cong)
    fix x assume x: "x \<in> set (butlast (sentinel # as1))"
    from in_set_butlastD [OF x] x show "N' x = N x"
      using e(2) assms(4) by (intro N) (auto simp del: last.simps butlast.simps)
  next
    fix x assume "x \<in> set (tl (sentinel # as1))"
    then show "P' x = P x" using e(5) assms(4) by (intro P) auto
  qed
  with assms(1) show "links N' P' (sentinel # as1)" by simp
  have "links N' P' (as2 @ [sentinel]) = links N P (as2 @ [sentinel])"
  proof (rule links_cong)
    fix x assume "x \<in> set (butlast (as2 @ [sentinel]))"
    then show "N' x = N x" using e(3) assms(4) by (intro N) (auto simp del: last.simps)
  next
    fix x assume "x \<in> set (tl (as2 @ [sentinel]))"
    then show "P' x = P x" using e(6) assms(4) by (intro P) (cases as2; auto)+
  qed
  with assms(2) show "links N' P' (as2 @ [sentinel])" by simp
qed

lemma ring_insert:
  assumes "ring N P (as1 @ as2)" "node \<notin> set (sentinel # as1 @ as2)"
    and "q = before as1" "pos = behind as2"
  shows "ring (N(node \<mapsto> pos, q \<mapsto> node)) (P(node \<mapsto> q, pos \<mapsto> node)) (as1 @ node # as2)"
proof -
  let ?N = "N(node \<mapsto> pos, q \<mapsto> node)" and ?P = "P(node \<mapsto> q, pos \<mapsto> node)"
  note g = ring_gap [OF assms(1)]
  have d: "distinct (sentinel # as1 @ as2)" using assms(1) by (simp add: ring_def)
  note e = ring_ends [OF d]
  have l: "links ?N ?P (sentinel # as1)" "links ?N ?P (as2 @ [sentinel])"
    by (rule links_outer [OF g(1,2) d assms(2)]; simp add: assms(3,4))+
  have "node \<noteq> q" "node \<noteq> pos" using assms(2-4) e(1,4) by (auto simp del: last.simps)
  then show ?thesis
    using d assms(2-4) l by (intro ringI) (auto simp del: last.simps, cases as2, auto)
qed

lemma ring_remove:
  assumes "ring N P (as1 @ node # as2)" "q = before as1" "pos = behind as2"
  shows "ring (N(q \<mapsto> pos)) (P(pos \<mapsto> q)) (as1 @ as2)"
proof -
  note g = ring_gap [OF assms(1)]
  have d: "distinct (sentinel # as1 @ as2)" "node \<notin> set (sentinel # as1 @ as2)"
    using assms(1) by (auto simp: ring_def)
  have "links N P (as2 @ [sentinel])" using g(2) by (cases as2) auto
  note l = links_outer [OF g(1) this d]
  show ?thesis
    using d(1) by (intro ringI l) (auto simp: assms(2,3) simp del: last.simps)
qed

section \<open>Effects of the pointer operations\<close>

lemma dom_dat: "dom (dat h) = dom h" "dom (nx h) = dom h" "dom (pv h) = dom h"
  by (auto simp: dat_def nx_def pv_def dom_def)

lemma InsertBefore_effect:
  assumes "pv (heap l) pos = Some q" "q \<in> dom (heap l)" "node \<in> dom (heap l)" "node \<noteq> pos" "node \<noteq> q"
  shows "\<exists>h. InsertBefore pos node l = Some (l\<lparr>heap := h\<rparr>)
    \<and> nx h = (nx (heap l))(node \<mapsto> pos, q \<mapsto> node) \<and> pv h = (pv (heap l))(node \<mapsto> q, pos \<mapsto> node)
    \<and> dat h = dat (heap l)"
proof -
  obtain p n m where *: "heap l pos = Some p" "node_prev p = q" "heap l node = Some n" "heap l q = Some m"
    using assms(1-3) by (auto simp: pv_def)
  show ?thesis
  proof (cases "q = pos")
    case True
    with * assms(4,5) show ?thesis
      by (auto simp: InsertBefore_def upd_def nx_def pv_def dat_def fun_eq_iff)
  next
    case False
    with * assms(4,5) show ?thesis
      by (auto simp: InsertBefore_def upd_def nx_def pv_def dat_def fun_eq_iff)
  qed
qed

lemma Unlink_effect:
  assumes "nx (heap l) node = Some pos" "pv (heap l) node = Some q"
    and "q \<in> dom (heap l)" "pos \<in> dom (heap l)" "node \<noteq> pos" "node \<noteq> q"
  shows "\<exists>h. Unlink node l = Some (l\<lparr>heap := h\<rparr>)
    \<and> nx h = (nx (heap l))(q \<mapsto> pos) \<and> pv h = (pv (heap l))(pos \<mapsto> q) \<and> dat h = dat (heap l)"
proof -
  obtain n m r where *: "heap l node = Some n" "node_next n = pos" "node_prev n = q"
    "heap l q = Some m" "heap l pos = Some r"
    using assms(1-4) by (auto simp: pv_def nx_def)
  show ?thesis
  proof (cases "q = pos")
    case True
    with * assms(5,6) show ?thesis
      by (auto simp: Unlink_def upd_def nx_def pv_def dat_def fun_eq_iff)
  next
    case False
    with * assms(5,6) show ?thesis
      by (auto simp: Unlink_def upd_def nx_def pv_def dat_def fun_eq_iff)
  qed
qed

section \<open>The supply of ids\<close>

text \<open>Ids run through the nonzero 32-bit words and start over; \<open>wid k\<close> is the \<open>k\<close>-th.\<close>

definition id_count :: nat where
  "id_count = 2 ^ 32 - 1"

definition wid :: "nat \<Rightarrow> u32" where
  "wid k = of_nat (k mod id_count + 1)"

definition first_id :: "u32 \<Rightarrow> u32" where
  "first_id x = (if x = 0 then 1 else x)"

text \<open>The ids in use or waiting to be reused are the ones handed out last.\<close>

definition id_supply :: "u32 \<Rightarrow> u32 list \<Rightarrow> bool" where
  "id_supply next used \<longleftrightarrow> distinct used
     \<and> (\<exists>base. set used = (\<lambda>i. wid (base + i)) ` {..<length used} \<and> first_id next = wid (base + length used))"

lemma wid_less: "unat (wid k) = k mod id_count + 1"
proof -
  have "k mod id_count < id_count" by (simp add: id_count_def)
  then show ?thesis unfolding wid_def by (subst unat_of_nat_small) (simp_all add: id_count_def)
qed

lemma wid_eq_iff: "wid a = wid b \<longleftrightarrow> a mod id_count = b mod id_count"
  using wid_less [of a] wid_less [of b] by (metis add_right_cancel wid_def)

lemma wid_nonzero [simp]: "wid k \<noteq> 0"
  using wid_less [of k] by (metis add_is_0 one_neq_zero unat_0)

lemma first_id_Suc: "first_id (wid k + 1) = wid (Suc k)"
proof (cases "Suc (k mod id_count) = id_count")
  case True
  then have "Suc k mod id_count = 0" "k mod id_count + 1 = id_count" by (simp_all add: mod_Suc)
  then have "wid k = of_nat id_count" "wid (Suc k) = 1" by (simp_all add: wid_def)
  then show ?thesis by (simp add: first_id_def id_count_def)
next
  case False
  then have "Suc k mod id_count = k mod id_count + 1" by (simp add: mod_Suc)
  then have "wid (Suc k) = wid k + 1" by (simp add: wid_def)
  with wid_nonzero [of "Suc k"] show ?thesis by (simp add: first_id_def)
qed

lemma id_supply_cong:
  "id_supply next used \<Longrightarrow> mset used' = mset used \<Longrightarrow> id_supply next used'"
  unfolding id_supply_def
  by (metis mset_eq_imp_distinct_iff mset_eq_setD size_mset)

lemma id_supply_nonzero: "id_supply next used \<Longrightarrow> i \<in> set used \<Longrightarrow> i \<noteq> 0"
  by (auto simp: id_supply_def)

lemma id_supply_next:
  assumes "id_supply next used" "length used < id_count"
  shows "first_id next \<notin> set used" "first_id next \<noteq> 0" "id_supply (first_id next + 1) (first_id next # used)"
proof -
  obtain base where b: "distinct used" "set used = (\<lambda>i. wid (base + i)) ` {..<length used}"
    "first_id next = wid (base + length used)"
    using assms(1) by (auto simp: id_supply_def)
  show nin: "first_id next \<notin> set used"
  proof
    assume "first_id next \<in> set used"
    then obtain i where "i < length used" "(base + length used) mod id_count = (base + i) mod id_count"
      using b(2,3) by (auto simp: wid_eq_iff)
    then have "id_count dvd length used - i" by (simp add: mod_eq_dvd_iff_nat)
    with assms(2) \<open>i < length used\<close> show False by (auto dest: dvd_imp_le)
  qed
  show "first_id next \<noteq> 0" by (simp add: first_id_def)
  have "set (first_id next # used) = (\<lambda>i. wid (base + i)) ` {..<length (first_id next # used)}"
    using b(2,3) by (simp add: lessThan_Suc)
  with nin b show "id_supply (first_id next + 1) (first_id next # used)"
    using first_id_Suc [of "base + length used"] unfolding id_supply_def by (intro conjI exI [of _ base]) auto
qed

section \<open>Representation\<close>

lemma ring_cong:
  assumes "ring N P as" "\<And>x. x \<in> set (sentinel # as) \<Longrightarrow> N' x = N x \<and> P' x = P x"
  shows "ring N' P' as"
proof -
  have "links N' P' (sentinel # as @ [sentinel]) = links N P (sentinel # as @ [sentinel])"
    by (rule links_cong) (use assms(2) in \<open>auto dest: in_set_butlastD split: if_splits\<close>)
  with assms(1) show ?thesis by (simp add: ring_def)
qed

lemma InsertBefore_ring:
  assumes "ring (nx (heap l)) (pv (heap l)) (as1 @ as2)" "node \<notin> set (sentinel # as1 @ as2)"
    and "set (sentinel # as1 @ as2) \<subseteq> dom (heap l)" "node \<in> dom (heap l)"
  shows "\<exists>h. InsertBefore (behind as2) node l = Some (l\<lparr>heap := h\<rparr>)
    \<and> ring (nx h) (pv h) (as1 @ node # as2) \<and> dat h = dat (heap l)"
proof -
  have d: "distinct (sentinel # as1 @ as2)" using assms(1) by (simp add: ring_def)
  have "before as1 \<in> set (sentinel # as1 @ as2)" "behind as2 \<in> set (sentinel # as1 @ as2)"
    using ring_ends(1,4) [OF d] by (auto simp del: last.simps)
  then have "before as1 \<in> dom (heap l)" "node \<noteq> behind as2" "node \<noteq> before as1"
    using assms(2,3) by blast+
  from InsertBefore_effect [OF ring_gap(4) [OF assms(1)] this(1) assms(4) this(2,3)]
    ring_insert [OF assms(1,2) refl refl] show ?thesis by auto
qed

lemma Unlink_ring:
  assumes "ring (nx (heap l)) (pv (heap l)) (as1 @ node # as2)" "set (sentinel # as1 @ node # as2) \<subseteq> dom (heap l)"
  shows "\<exists>h. Unlink node l = Some (l\<lparr>heap := h\<rparr>)
    \<and> ring (nx h) (pv h) (as1 @ as2) \<and> dat h = dat (heap l)"
proof -
  have d: "distinct (sentinel # as1 @ as2)" "node \<notin> set (sentinel # as1 @ as2)"
    using assms(1) by (auto simp: ring_def)
  have m: "before as1 \<in> set (sentinel # as1 @ as2)" "behind as2 \<in> set (sentinel # as1 @ as2)"
    using ring_ends(1,4) [OF d(1)] by (auto simp del: last.simps)
  then have "before as1 \<in> dom (heap l)" "behind as2 \<in> dom (heap l)" "node \<noteq> behind as2" "node \<noteq> before as1"
    using d(2) assms(2) by fastforce+
  moreover have "pv (heap l) node = Some (before as1)" "nx (heap l) node = Some (behind as2)"
    using ring_gap(4) [OF assms(1)] ring_gap(3) [of _ _ "as1 @ [node]" as2] assms(1) by simp_all
  ultimately show ?thesis
    using Unlink_effect [of l node "behind as2" "before as1"] ring_remove [OF assms(1) refl refl] by auto
qed

text \<open>The list object represents the nodes at the addresses \<open>as\<close>, front to back.\<close>

definition index_of :: "(addr \<Rightarrow> Node option) \<Rightarrow> addr \<Rightarrow> u32 \<times> addr" where
  "index_of h a = (fst (the (dat h a)), a)"

definition rep :: "LinkedList \<Rightarrow> addr list \<Rightarrow> bool" where
  "rep l as \<longleftrightarrow> ring (nx (heap l)) (pv (heap l)) as \<and> dom (heap l) = set (sentinel # as)
     \<and> (\<forall>a \<in> set (sentinel # as). a < brk l)
     \<and> mset (nodes l) = mset (map (index_of (heap l)) as)
     \<and> id_supply (next_id l) (map fst (nodes l) @ free_ids l)"

text \<open>What is in the list: walk from the sentinel, for at most as many nodes as the index has.\<close>

primrec walk :: "nat \<Rightarrow> (addr \<Rightarrow> Node option) \<Rightarrow> addr \<Rightarrow> (u32 \<times> i32) list" where
  "walk 0 h a = []"
| "walk (Suc k) h a = (if a = sentinel then [] else case h a of
     None \<Rightarrow> []
   | Some n \<Rightarrow> (node_id n, node_value n) # walk k h (node_next n))"

definition contents :: "LinkedList \<Rightarrow> (u32 \<times> i32) list" where
  "contents l = (case heap l sentinel of
     None \<Rightarrow> []
   | Some s \<Rightarrow> walk (length (nodes l)) (heap l) (node_next s))"

definition list_ok :: "LinkedList \<Rightarrow> bool" where
  "list_ok l \<longleftrightarrow> (\<exists>as. rep l as)"

text \<open>An id is left for one more node.\<close>

definition has_room :: "LinkedList \<Rightarrow> bool" where
  "has_room l \<longleftrightarrow> free_ids l \<noteq> [] \<or> length (nodes l) < id_count"

abbreviation vals :: "LinkedList \<Rightarrow> addr list \<Rightarrow> (u32 \<times> i32) list" where
  "vals l as \<equiv> map (\<lambda>a. the (dat (heap l) a)) as"

lemma walk_vals:
  assumes "links (nx h) (pv h) (as @ [sentinel])" "sentinel \<notin> set as" "set as \<subseteq> dom h"
  shows "walk (length as) h (behind as) = map (\<lambda>a. the (dat h a)) as"
  using assms
proof (induction as)
  case (Cons a as)
  obtain n where n: "h a = Some n" using Cons.prems(3) by auto
  have l: "nx h a = Some (behind as)" "links (nx h) (pv h) (as @ [sentinel])"
    using Cons.prems(1) by (cases as; simp)+
  from l(1) n have "node_next n = behind as" "the (dat h a) = (node_id n, node_value n)"
    by (simp_all add: nx_def dat_def)
  with n Cons.IH [OF l(2)] Cons.prems(2,3) show ?case by simp
qed simp

lemma rep_contents:
  assumes "rep l as"
  shows "contents l = vals l as" "length (nodes l) = length as"
proof -
  have r: "ring (nx (heap l)) (pv (heap l)) ([] @ as)" and d: "dom (heap l) = set (sentinel # as)"
    using assms by (simp_all add: rep_def)
  show len: "length (nodes l) = length as"
    using assms unfolding rep_def by (metis length_map mset_eq_length)
  obtain s where s: "heap l sentinel = Some s" using d by auto
  with ring_gap(3) [OF r] have "node_next s = behind as" by (simp add: nx_def)
  with s len walk_vals [OF ring_gap(2) [OF r]] r d show "contents l = vals l as"
    by (auto simp: contents_def ring_def)
qed

section \<open>Insertion and removal\<close>

lemma NextId_supply:
  assumes "id_supply (next_id l) (ks @ free_ids l)" "has_room l" "length ks = length (nodes l)"
  obtains i l' where "NextId l = (i, l')" "i \<notin> set ks" "i \<noteq> 0"
    "id_supply (next_id l') (i # ks @ free_ids l')"
    "l' = l\<lparr>next_id := next_id l', free_ids := free_ids l'\<rparr>"
proof (cases "free_ids l")
  case (Cons i rest)
  have "id_supply (next_id l) (i # ks @ rest)"
    by (rule id_supply_cong [OF assms(1)]) (simp add: Cons)
  moreover have "distinct (ks @ i # rest)" using assms(1) Cons by (simp add: id_supply_def)
  moreover have "i \<noteq> 0" using id_supply_nonzero [OF assms(1)] Cons by simp
  ultimately show thesis
    using that [of i "l\<lparr>free_ids := rest\<rparr>"] Cons by (simp add: NextId_def)
next
  case Nil
  with assms have "id_supply (next_id l) ks" "length ks < id_count" by (simp_all add: has_room_def)
  note s = id_supply_next [OF this]
  show thesis
    using that [of "first_id (next_id l)" "l\<lparr>next_id := first_id (next_id l) + 1\<rparr>"] s Nil
    by (auto simp: NextId_def first_id_def Let_def)
qed

lemma push_rep:
  assumes "rep l (as1 @ as2)" "has_room l"
  obtains node i l1 l2 where "new_node v l = (node, i, l1)" "InsertBefore (behind as2) node l1 = Some l2"
    "heap l1 sentinel = heap l sentinel"
    "rep (l2\<lparr>nodes := AList.update i node (nodes l2)\<rparr>) (as1 @ node # as2)"
    "dat (heap l2) = (dat (heap l))(node \<mapsto> (i, v))" "i \<notin> set (map fst (nodes l))" "i \<noteq> 0"
    "node \<notin> set (as1 @ as2)"
proof -
  let ?n = "\<lambda>i. \<lparr>node_value = v, node_prev = 0, node_next = 0, node_id = i\<rparr>"
  let ?l = "l\<lparr>heap := (heap l)(brk l \<mapsto> ?n 0), brk := brk l + 1\<rparr>"
  have r: "ring (nx (heap l)) (pv (heap l)) (as1 @ as2)" "dom (heap l) = set (sentinel # as1 @ as2)"
    "\<forall>a \<in> set (sentinel # as1 @ as2). a < brk l" "mset (nodes l) = mset (map (index_of (heap l)) (as1 @ as2))"
    "id_supply (next_id l) (map fst (nodes l) @ free_ids l)"
    using assms(1) by (simp_all add: rep_def)
  have fresh: "brk l \<notin> set (sentinel # as1 @ as2)" using r(3) by blast
  obtain i l0 where i: "NextId ?l = (i, l0)" "i \<notin> set (map fst (nodes l))" "i \<noteq> 0"
    "id_supply (next_id l0) (i # map fst (nodes l) @ free_ids l0)"
    "l0 = ?l\<lparr>next_id := next_id l0, free_ids := free_ids l0\<rparr>"
    by (rule NextId_supply [of ?l "map fst (nodes l)"]) (use r(5) assms(2) in \<open>auto simp: has_room_def\<close>)
  let ?l1 = "l0\<lparr>heap := (heap l)(brk l \<mapsto> ?n i)\<rparr>"
  have h0: "heap l0 = (heap l)(brk l \<mapsto> ?n 0)" "nodes l0 = nodes l" "brk l0 = brk l + 1"
    using arg_cong [OF i(5), of heap] arg_cong [OF i(5), of nodes] arg_cong [OF i(5), of brk] by simp_all
  have new: "new_node v l = (brk l, i, ?l1)"
    using i(1) h0(1) by (simp add: new_node_def Let_def)
  have "ring (nx (heap ?l1)) (pv (heap ?l1)) (as1 @ as2)"
    by (rule ring_cong [OF r(1)]) (use fresh in \<open>auto simp: nx_def pv_def\<close>)
  from InsertBefore_ring [OF this fresh] r(2) obtain h where
    h: "InsertBefore (behind as2) (brk l) ?l1 = Some (?l1\<lparr>heap := h\<rparr>)"
    "ring (nx h) (pv h) (as1 @ brk l # as2)" "dat h = dat (heap ?l1)" by auto
  have dat: "dat h = (dat (heap l))(brk l \<mapsto> (i, v))" using h(3) by (auto simp: dat_def fun_eq_iff)
  have dom: "dom h = set (sentinel # as1 @ brk l # as2)"
    using dom_dat(1) [of h] dom_dat(1) [of "heap l"] r(2) by (auto simp: dat)
  have eq: "map (index_of h) (as1 @ as2) = map (index_of (heap l)) (as1 @ as2)"
    using fresh by (auto simp: index_of_def dat)
  have "mset (map (index_of h) (as1 @ brk l # as2)) = add_mset (i, brk l) (mset (map (index_of h) (as1 @ as2)))"
    by (simp add: index_of_def dat)
  also have "\<dots> = mset (nodes l @ [(i, brk l)])" unfolding eq using r(4) by simp
  finally have idx: "mset (AList.update i (brk l) (nodes l)) = mset (map (index_of h) (as1 @ brk l # as2))"
    by (simp only: update_fresh [OF i(2)])
  have "id_supply (next_id l0) (map fst (AList.update i (brk l) (nodes l)) @ free_ids l0)"
    by (rule id_supply_cong [OF i(4)]) (use i(2) in \<open>simp add: update_fresh\<close>)
  moreover have "\<forall>a \<in> set (sentinel # as1 @ brk l # as2). a < brk l + 1"
    using r(3) by (auto intro: less_SucI)
  ultimately have "rep (?l1\<lparr>heap := h, nodes := AList.update i (brk l) (nodes l)\<rparr>) (as1 @ brk l # as2)"
    using h dom idx h0 by (simp add: rep_def)
  with that [OF new h(1)] dat fresh i(2,3) h0 show thesis by simp
qed

lemma drop_rep:
  assumes "rep l (as1 @ node # as2)" "dat (heap l) node = Some (i, v)"
  shows "\<exists>l'. drop_node node i l = Some l' \<and> rep l' (as1 @ as2) \<and> dat (heap l') = (dat (heap l))(node := None)
    \<and> heap l' sentinel \<noteq> None"
proof -
  have r: "ring (nx (heap l)) (pv (heap l)) (as1 @ node # as2)" "dom (heap l) = set (sentinel # as1 @ node # as2)"
    "\<forall>a \<in> set (sentinel # as1 @ node # as2). a < brk l"
    "mset (nodes l) = mset (map (index_of (heap l)) (as1 @ node # as2))"
    "id_supply (next_id l) (map fst (nodes l) @ free_ids l)"
    using assms(1) by (simp_all add: rep_def)
  have nin: "node \<notin> set (sentinel # as1 @ as2)" using r(1) by (auto simp: ring_def)
  from Unlink_ring [OF r(1)] r(2) obtain h where h: "Unlink node l = Some (l\<lparr>heap := h\<rparr>)"
    "ring (nx h) (pv h) (as1 @ as2)" "dat h = dat (heap l)" by auto
  let ?h = "h(node := None)"
  let ?l = "l\<lparr>heap := ?h, nodes := AList.delete i (nodes l), free_ids := free_ids l @ [i]\<rparr>"
  have drop: "drop_node node i l = Some ?l" by (simp add: drop_node_def h RecycleId_def)
  have dat: "dat ?h = (dat (heap l))(node := None)" using h(3) by (auto simp: dat_def fun_eq_iff)
  have ring: "ring (nx ?h) (pv ?h) (as1 @ as2)"
    by (rule ring_cong [OF h(2)]) (use nin in \<open>auto simp: nx_def pv_def\<close>)
  have "dom ?h = dom (heap l) - {node}"
    by (metis dat dom_dat(1) dom_fun_upd)
  then have dom: "dom ?h = set (sentinel # as1 @ as2)"
    unfolding r(2) using nin by auto
  have d: "distinct (map fst (nodes l))" using r(5) by (simp add: id_supply_def)
  have "index_of (heap l) node = (i, node)" by (simp add: index_of_def assms(2))
  then have m: "mset (nodes l) = add_mset (i, node) (mset (map (index_of (heap l)) (as1 @ as2)))"
    using r(4) by simp
  have "map (index_of ?h) (as1 @ as2) = map (index_of (heap l)) (as1 @ as2)"
    using nin by (auto simp: index_of_def dat)
  with delete_key [OF d m] have idx: "mset (AList.delete i (nodes l)) = mset (map (index_of ?h) (as1 @ as2))"
    by (simp only:)
  have "mset (map fst (nodes l)) = add_mset i (mset (map fst (AList.delete i (nodes l))))"
    using m delete_key [OF d m] by (metis fst_conv image_mset_add_mset mset_map)
  then have "id_supply (next_id l) (map fst (AList.delete i (nodes l)) @ free_ids l @ [i])"
    by (intro id_supply_cong [OF r(5)]) simp
  with ring dom idx r(3) have "rep ?l (as1 @ as2)" by (auto simp: rep_def)
  moreover have "sentinel \<in> dom ?h" by (simp only: dom) simp
  ultimately show ?thesis using drop dat by auto
qed

lemma rep_ids:
  assumes "rep l as"
  shows "mset (map fst (nodes l)) = mset (map fst (contents l))" "distinct (map fst (contents l))"
    "0 \<notin> fst ` set (contents l)"
proof -
  have "map fst (contents l) = map fst (map (index_of (heap l)) as)"
    using rep_contents(1) [OF assms] by (simp add: index_of_def comp_def)
  moreover have "mset (nodes l) = mset (map (index_of (heap l)) as)" using assms by (simp add: rep_def)
  ultimately show m: "mset (map fst (nodes l)) = mset (map fst (contents l))" by (metis mset_map)
  have s: "id_supply (next_id l) (map fst (nodes l) @ free_ids l)" using assms by (simp add: rep_def)
  then have "distinct (map fst (nodes l))" by (simp add: id_supply_def)
  with m show "distinct (map fst (contents l))" using mset_eq_imp_distinct_iff by blast
  show "0 \<notin> fst ` set (contents l)"
    using id_supply_nonzero [OF s] mset_eq_setD [OF m] by (metis UnCI list.set_map set_append)
qed

lemma rep_find:
  assumes "rep l as"
  shows "FindNode i l = None \<longleftrightarrow> i \<notin> fst ` set (contents l)"
    and "FindNode i l = Some node \<Longrightarrow> \<exists>as1 as2 v. as = as1 @ node # as2 \<and> dat (heap l) node = Some (i, v)"
proof -
  show "FindNode i l = None \<longleftrightarrow> i \<notin> fst ` set (contents l)"
    using mset_eq_setD [OF rep_ids(1) [OF assms]] by (simp add: FindNode_def map_of_eq_None_iff)
  assume "FindNode i l = Some node"
  then have "(i, node) \<in> set (nodes l)" by (simp add: FindNode_def map_of_SomeD)
  then have "(i, node) \<in> index_of (heap l) ` set as"
    using assms by (metis rep_def list.set_map mset_eq_setD)
  then have n: "node \<in> set as" "i = fst (the (dat (heap l) node))" by (auto simp: index_of_def)
  with assms have "node \<in> dom (heap l)" by (simp add: rep_def)
  then obtain v where "dat (heap l) node = Some (i, v)" using n(2) by (auto simp: dat_def)
  with n(1) show "\<exists>as1 as2 v. as = as1 @ node # as2 \<and> dat (heap l) node = Some (i, v)"
    by (auto dest: split_list)
qed

lemma rep_sentinel:
  assumes "rep l as"
  obtains s where "heap l sentinel = Some s" "node_next s = behind as" "node_prev s = before as"
proof -
  have r: "ring (nx (heap l)) (pv (heap l)) ([] @ as)" "ring (nx (heap l)) (pv (heap l)) (as @ [])"
    "sentinel \<in> dom (heap l)" using assms by (simp_all add: rep_def)
  then obtain s where "heap l sentinel = Some s" by auto
  with ring_gap(3) [OF r(1)] ring_gap(4) [OF r(2)] that show thesis by (simp add: nx_def pv_def)
qed

lemma vals_cong:
  "dat (heap l') = (dat (heap l))(node := x) \<Longrightarrow> node \<notin> set as \<Longrightarrow> vals l' as = vals l as"
  by auto

section \<open>What the operations do\<close>

lemma PushFront_spec:
  assumes "list_ok l" "has_room l"
  shows "\<exists>i l'. PushFront v l = Some (i, l') \<and> list_ok l' \<and> contents l' = (i, v) # contents l
    \<and> i \<noteq> 0 \<and> i \<notin> fst ` set (contents l)"
proof -
  obtain as where rep: "rep l ([] @ as)" using assms(1) by (auto simp: list_ok_def)
  obtain s where s: "heap l sentinel = Some s" "node_next s = behind as"
    using rep_sentinel [OF rep] by auto
  show ?thesis
  proof (rule push_rep [OF rep assms(2), of v])
    fix node i l1 l2
    assume *: "new_node v l = (node, i, l1)" "InsertBefore (behind as) node l1 = Some l2"
      "heap l1 sentinel = heap l sentinel" "rep (l2\<lparr>nodes := AList.update i node (nodes l2)\<rparr>) ([] @ node # as)"
      "dat (heap l2) = (dat (heap l))(node \<mapsto> (i, v))" "i \<notin> set (map fst (nodes l))" "i \<noteq> 0"
      "node \<notin> set ([] @ as)"
    let ?l = "l2\<lparr>nodes := AList.update i node (nodes l2)\<rparr>"
    have "PushFront v l = Some (i, ?l)" using * s by (simp add: PushFront_def)
    moreover have "contents ?l = (i, v) # contents l"
      using rep_contents(1) [OF *(4)] rep_contents(1) [OF rep] *(5,8) by simp
    moreover have "i \<notin> fst ` set (contents l)"
      using *(6) mset_eq_setD [OF rep_ids(1) [OF rep]] by simp
    ultimately show ?thesis using *(4,7) unfolding list_ok_def by blast
  qed
qed

lemma PushBack_spec:
  assumes "list_ok l" "has_room l"
  shows "\<exists>i l'. PushBack v l = Some (i, l') \<and> list_ok l' \<and> contents l' = contents l @ [(i, v)]
    \<and> i \<noteq> 0 \<and> i \<notin> fst ` set (contents l)"
proof -
  obtain as where rep: "rep l (as @ [])" using assms(1) by (auto simp: list_ok_def)
  show ?thesis
  proof (rule push_rep [OF rep assms(2), of v])
    fix node i l1 l2
    assume *: "new_node v l = (node, i, l1)" "InsertBefore (behind []) node l1 = Some l2"
      "heap l1 sentinel = heap l sentinel" "rep (l2\<lparr>nodes := AList.update i node (nodes l2)\<rparr>) (as @ [node])"
      "dat (heap l2) = (dat (heap l))(node \<mapsto> (i, v))" "i \<notin> set (map fst (nodes l))" "i \<noteq> 0"
      "node \<notin> set (as @ [])"
    let ?l = "l2\<lparr>nodes := AList.update i node (nodes l2)\<rparr>"
    have "PushBack v l = Some (i, ?l)" using * by (simp add: PushBack_def)
    moreover have "contents ?l = contents l @ [(i, v)]"
      using rep_contents(1) [OF *(4)] rep_contents(1) [OF rep] *(5,8) by simp
    moreover have "i \<notin> fst ` set (contents l)"
      using *(6) mset_eq_setD [OF rep_ids(1) [OF rep]] by simp
    ultimately show ?thesis using *(4,7) unfolding list_ok_def by blast
  qed
qed

lemma drop_contents:
  assumes "rep l (as1 @ node # as2)" "dat (heap l) node = Some (i, v)"
  shows "\<exists>l'. drop_node node i l = Some l' \<and> list_ok l' \<and> contents l' = vals l as1 @ vals l as2"
    and "contents l = vals l as1 @ (i, v) # vals l as2"
proof -
  obtain l' where l': "drop_node node i l = Some l'" "rep l' (as1 @ as2)"
    "dat (heap l') = (dat (heap l))(node := None)" using drop_rep [OF assms] by blast
  have "node \<notin> set (as1 @ as2)" using assms(1) by (auto simp: rep_def ring_def)
  then have "contents l' = vals l as1 @ vals l as2"
    using rep_contents(1) [OF l'(2)] vals_cong [OF l'(3)] by simp
  with l' show "\<exists>l'. drop_node node i l = Some l' \<and> list_ok l' \<and> contents l' = vals l as1 @ vals l as2"
    by (auto simp: list_ok_def)
  show "contents l = vals l as1 @ (i, v) # vals l as2" using rep_contents(1) [OF assms(1)] assms(2) by simp
qed

lemma rep_entry:
  assumes "rep l as" "node \<in> set as"
  obtains n where "heap l node = Some n" "dat (heap l) node = Some (node_id n, node_value n)"
  using assms by (auto simp: rep_def dat_def)

lemma PopFront_spec:
  assumes "list_ok l"
  shows "contents l = [] \<Longrightarrow> PopFront l = Some (0, l)"
    and "contents l = (i, v) # xs \<Longrightarrow> \<exists>l'. PopFront l = Some (v, l') \<and> list_ok l' \<and> contents l' = xs"
proof -
  obtain as where rep: "rep l as" using assms by (auto simp: list_ok_def)
  note c = rep_contents [OF rep]
  show "contents l = [] \<Longrightarrow> PopFront l = Some (0, l)" using c by (simp add: PopFront_def)
  assume xs: "contents l = (i, v) # xs"
  then obtain node as2 where as: "as = [] @ node # as2" using c(1) by (cases as) auto
  obtain n where n: "heap l node = Some n" "dat (heap l) node = Some (node_id n, node_value n)"
    by (rule rep_entry [OF rep, of node]) (use as in simp)
  note d = drop_contents [OF rep [unfolded as] n(2)]
  obtain s where s: "heap l sentinel = Some s" "node_next s = node"
    by (rule rep_sentinel [OF rep]) (use as in auto)
  have "nodes l \<noteq> []" using c(2) as by auto
  with s n xs d show "\<exists>l'. PopFront l = Some (v, l') \<and> list_ok l' \<and> contents l' = xs"
    by (auto simp: PopFront_def)
qed

lemma PopBack_spec:
  assumes "list_ok l"
  shows "contents l = [] \<Longrightarrow> PopBack l = Some (0, l)"
    and "contents l = xs @ [(i, v)] \<Longrightarrow> \<exists>l'. PopBack l = Some (v, l') \<and> list_ok l' \<and> contents l' = xs"
proof -
  obtain as where rep: "rep l as" using assms by (auto simp: list_ok_def)
  note c = rep_contents [OF rep]
  show "contents l = [] \<Longrightarrow> PopBack l = Some (0, l)" using c by (simp add: PopBack_def)
  assume xs: "contents l = xs @ [(i, v)]"
  then obtain node as1 where as: "as = as1 @ node # []" using c(1) by (cases as rule: rev_cases) auto
  obtain n where n: "heap l node = Some n" "dat (heap l) node = Some (node_id n, node_value n)"
    by (rule rep_entry [OF rep, of node]) (use as in simp)
  note d = drop_contents [OF rep [unfolded as] n(2)]
  obtain s where s: "heap l sentinel = Some s" "node_prev s = node"
    by (rule rep_sentinel [OF rep]) (use as in auto)
  have "nodes l \<noteq> []" using c(2) as by auto
  with s n xs d show "\<exists>l'. PopBack l = Some (v, l') \<and> list_ok l' \<and> contents l' = xs"
    by (auto simp: PopBack_def)
qed

lemma ids_split:
  assumes "distinct (map fst c)" "c = xs @ (i, v) # ys"
  shows "filter (\<lambda>p. fst p \<noteq> i) c = xs @ ys" "filter (\<lambda>p. fst p = i) c = [(i, v)]" "map_of c i = Some v"
proof -
  have "i \<notin> fst ` set xs" "i \<notin> fst ` set ys" using assms by auto
  then have f: "filter (\<lambda>p. fst p \<noteq> i) xs = xs" "filter (\<lambda>p. fst p \<noteq> i) ys = ys"
    "filter (\<lambda>p. fst p = i) xs = []" "filter (\<lambda>p. fst p = i) ys = []"
    by (auto simp: filter_id_conv filter_empty_conv)
  then show "filter (\<lambda>p. fst p \<noteq> i) c = xs @ ys" "filter (\<lambda>p. fst p = i) c = [(i, v)]"
    by (simp_all add: assms(2))
  have "(i, v) \<in> set c" by (simp add: assms(2))
  with assms(1) show "map_of c i = Some v" by (rule map_of_is_SomeI)
qed

lemma ids_prefix:
  assumes "distinct (map fst c)" "c = xs @ (i, v) # ys"
  shows "xs = takeWhile (\<lambda>p. fst p \<noteq> i) c" "ys = tl (dropWhile (\<lambda>p. fst p \<noteq> i) c)"
proof -
  have "\<And>p. p \<in> set xs \<Longrightarrow> fst p \<noteq> i" using assms by force
  then show "xs = takeWhile (\<lambda>p. fst p \<noteq> i) c" "ys = tl (dropWhile (\<lambda>p. fst p \<noteq> i) c)"
    by (simp_all add: assms(2))
qed

lemma Remove_spec:
  assumes "list_ok l"
  shows "\<exists>l'. Remove i l = Some (case map_of (contents l) i of None \<Rightarrow> 0 | Some v \<Rightarrow> v, l')
    \<and> list_ok l' \<and> contents l' = filter (\<lambda>p. fst p \<noteq> i) (contents l)"
proof -
  obtain as where rep: "rep l as" using assms by (auto simp: list_ok_def)
  note f = rep_find [OF rep, of i]
  show ?thesis
  proof (cases "FindNode i l")
    case None
    then have "i \<notin> fst ` set (contents l)" using f(1) by simp
    then have "filter (\<lambda>p. fst p \<noteq> i) (contents l) = contents l" "map_of (contents l) i = None"
      by (auto simp: filter_id_conv map_of_eq_None_iff)
    with None assms show ?thesis by (simp add: Remove_def)
  next
    case (Some node)
    then obtain as1 as2 v where as: "as = as1 @ node # as2" "dat (heap l) node = Some (i, v)"
      using f(2) by blast
    note d = drop_contents [OF rep [unfolded as(1)] as(2)]
    obtain n where "heap l node = Some n" "node_value n = v" using as(2) by (auto simp: dat_def)
    with Some d ids_split [OF rep_ids(2) [OF rep] d(2)] show ?thesis by (auto simp: Remove_def)
  qed
qed

text \<open>Taking a node out of the ring and putting it back at another gap.\<close>

lemma relink_rep:
  assumes "rep l (as1 @ node # as2)" "as1 @ as2 = bs1 @ bs2"
  obtains l1 l2 where "Unlink node l = Some l1" "InsertBefore (behind bs2) node l1 = Some l2"
    "heap l1 sentinel \<noteq> None" "nx (heap l1) sentinel = Some (behind (as1 @ as2))"
    "rep l2 (bs1 @ node # bs2)" "dat (heap l2) = dat (heap l)"
proof -
  have r: "ring (nx (heap l)) (pv (heap l)) (as1 @ node # as2)" "dom (heap l) = set (sentinel # as1 @ node # as2)"
    "mset (nodes l) = mset (map (index_of (heap l)) (as1 @ node # as2))"
    using assms(1) by (simp_all add: rep_def)
  obtain h1 where h1: "Unlink node l = Some (l\<lparr>heap := h1\<rparr>)" "ring (nx h1) (pv h1) (as1 @ as2)"
    "dat h1 = dat (heap l)" using Unlink_ring [OF r(1)] r(2) by auto
  have d1: "dom h1 = set (sentinel # as1 @ node # as2)" using h1(3) r(2) by (metis dom_dat(1))
  have b: "set (sentinel # bs1 @ bs2) = set (sentinel # as1 @ as2)" using arg_cong [OF assms(2), of set] by simp
  have nin: "node \<notin> set (sentinel # as1 @ as2)" using r(1) by (auto simp: ring_def)
  have "set (sentinel # as1 @ as2) \<subseteq> dom h1" "node \<in> dom h1" unfolding d1 by auto
  then have p: "node \<notin> set (sentinel # bs1 @ bs2)" "set (sentinel # bs1 @ bs2) \<subseteq> dom (heap (l\<lparr>heap := h1\<rparr>))"
    "node \<in> dom (heap (l\<lparr>heap := h1\<rparr>))" using nin unfolding b by simp_all
  have "ring (nx (heap (l\<lparr>heap := h1\<rparr>))) (pv (heap (l\<lparr>heap := h1\<rparr>))) (bs1 @ bs2)"
    using h1(2) assms(2) by simp
  from InsertBefore_ring [OF this p] obtain h2 where
    h2: "InsertBefore (behind bs2) node (l\<lparr>heap := h1\<rparr>) = Some (l\<lparr>heap := h2\<rparr>)"
    "ring (nx h2) (pv h2) (bs1 @ node # bs2)" "dat h2 = dat h1" by auto
  have dat: "dat h2 = dat (heap l)" using h1(3) h2(3) by simp
  then have idx: "index_of h2 = index_of (heap l)" by (simp add: index_of_def fun_eq_iff)
  have ms: "mset (bs1 @ node # bs2) = mset (as1 @ node # as2)"
    using arg_cong [OF assms(2), of mset] by simp
  then have sets: "set (sentinel # bs1 @ node # bs2) = set (sentinel # as1 @ node # as2)"
    by (metis list.simps(15) set_mset_mset)
  have "dom h2 = set (sentinel # as1 @ node # as2)" using dat r(2) by (metis dom_dat(1))
  then have "rep (l\<lparr>heap := h2\<rparr>) (bs1 @ node # bs2)"
    using assms(1) h2(2) unfolding rep_def sets mset_map ms by (simp add: idx)
  moreover have "sentinel \<in> dom h1" by (simp only: d1) simp
  moreover have "nx h1 sentinel = Some (behind (as1 @ as2))"
    using ring_gap(3) [of "nx h1" "pv h1" "[]" "as1 @ as2"] h1(2) by simp
  ultimately show thesis using that [OF h1(1) h2(1)] dat by auto
qed

lemma find_cases:
  assumes "rep l as"
  obtains (absent) "FindNode i l = None" "filter (\<lambda>p. fst p \<noteq> i) (contents l) = contents l"
      "filter (\<lambda>p. fst p = i) (contents l) = []" "map_of (contents l) i = None"
    | (found) node as1 as2 v where "FindNode i l = Some node" "as = as1 @ node # as2"
      "dat (heap l) node = Some (i, v)" "contents l = vals l as1 @ (i, v) # vals l as2"
      "filter (\<lambda>p. fst p \<noteq> i) (contents l) = vals l as1 @ vals l as2"
      "filter (\<lambda>p. fst p = i) (contents l) = [(i, v)]" "map_of (contents l) i = Some v"
proof (cases "FindNode i l")
  case None
  then have "i \<notin> fst ` set (contents l)" using rep_find(1) [OF assms] by simp
  with None absent show thesis by (auto simp: filter_id_conv filter_empty_conv map_of_eq_None_iff)
next
  case (Some node)
  then obtain as1 as2 v where as: "as = as1 @ node # as2" "dat (heap l) node = Some (i, v)"
    using rep_find(2) [OF assms] by blast
  have c: "contents l = vals l as1 @ (i, v) # vals l as2" using rep_contents(1) [OF assms] as by simp
  from found [OF Some as c ids_split [OF rep_ids(2) [OF assms] c]] show thesis .
qed

lemma MoveToFront_spec:
  assumes "list_ok l"
  shows "\<exists>l'. MoveToFront i l = Some l' \<and> list_ok l'
    \<and> contents l' = filter (\<lambda>p. fst p = i) (contents l) @ filter (\<lambda>p. fst p \<noteq> i) (contents l)"
proof -
  obtain as where rep: "rep l as" using assms by (auto simp: list_ok_def)
  obtain s where s: "heap l sentinel = Some s" "node_next s = behind as" using rep_sentinel [OF rep] by auto
  from rep show ?thesis
  proof (cases rule: find_cases [where i = i])
    case absent
    with s assms show ?thesis by (simp add: MoveToFront_def)
  next
    case (found node as1 as2 v)
    show ?thesis
    proof (cases as1)
      case Nil
      with found s assms show ?thesis by (simp add: MoveToFront_def)
    next
      case (Cons a as1')
      have "node \<noteq> a" using rep found(2) Cons by (auto simp: rep_def ring_def)
      obtain l1 l2 where l: "Unlink node l = Some l1" "InsertBefore (behind (as1 @ as2)) node l1 = Some l2"
        "heap l1 sentinel \<noteq> None" "nx (heap l1) sentinel = Some (behind (as1 @ as2))"
        "rep l2 ([] @ node # as1 @ as2)" "dat (heap l2) = dat (heap l)"
        by (rule relink_rep [OF rep [unfolded found(2)], of "[]" "as1 @ as2"]) auto
      then obtain s1 where "heap l1 sentinel = Some s1" "node_next s1 = behind (as1 @ as2)"
        by (auto simp: nx_def)
      then have "MoveToFront i l = Some l2"
        using s found(1,2) l(1,2) Cons \<open>node \<noteq> a\<close> by (simp add: MoveToFront_def)
      moreover have "contents l2 = (i, v) # vals l as1 @ vals l as2"
        using rep_contents(1) [OF l(5)] l(6) found(3) by simp
      ultimately show ?thesis using found l(5) unfolding list_ok_def by auto
    qed
  qed
qed

lemma MoveToBack_spec:
  assumes "list_ok l"
  shows "\<exists>l'. MoveToBack i l = Some l' \<and> list_ok l'
    \<and> contents l' = filter (\<lambda>p. fst p \<noteq> i) (contents l) @ filter (\<lambda>p. fst p = i) (contents l)"
proof -
  obtain as where rep: "rep l as" using assms by (auto simp: list_ok_def)
  obtain s where s: "heap l sentinel = Some s" "node_prev s = before as" using rep_sentinel [OF rep] by auto
  from rep show ?thesis
  proof (cases rule: find_cases [where i = i])
    case absent
    with s assms show ?thesis by (simp add: MoveToBack_def)
  next
    case (found node as1 as2 v)
    show ?thesis
    proof (cases as2 rule: rev_cases)
      case Nil
      with found s assms show ?thesis by (simp add: MoveToBack_def)
    next
      case (snoc as2' a)
      have "node \<noteq> a" using rep found(2) snoc by (auto simp: rep_def ring_def)
      obtain l1 l2 where l: "Unlink node l = Some l1" "InsertBefore (behind []) node l1 = Some l2"
        "rep l2 ((as1 @ as2) @ node # [])" "dat (heap l2) = dat (heap l)"
        by (rule relink_rep [OF rep [unfolded found(2)], of "as1 @ as2" "[]"]) auto
      then have "MoveToBack i l = Some l2"
        using s found(1,2) snoc \<open>node \<noteq> a\<close> by (simp add: MoveToBack_def)
      moreover have "contents l2 = vals l as1 @ vals l as2 @ [(i, v)]"
        using rep_contents(1) [OF l(3)] l(4) found(3) by simp
      ultimately show ?thesis using found l(3) unfolding list_ok_def by auto
    qed
  qed
qed

lemma GetValue_spec:
  assumes "list_ok l"
  shows "GetValue i l = Some (case map_of (contents l) i of None \<Rightarrow> 0 | Some v \<Rightarrow> v)"
proof -
  obtain as where rep: "rep l as" using assms by (auto simp: list_ok_def)
  then show ?thesis
    by (cases rule: find_cases [where i = i]) (auto simp: GetValue_def dat_def)
qed

lemma SetValue_spec:
  assumes "list_ok l"
  shows "\<exists>l'. SetValue i v l = Some l' \<and> list_ok l'
    \<and> contents l' = map (\<lambda>p. if fst p = i then (i, v) else p) (contents l)"
proof -
  obtain as where rep: "rep l as" using assms by (auto simp: list_ok_def)
  then show ?thesis
  proof (cases rule: find_cases [where i = i])
    case absent
    then have "map (\<lambda>p. if fst p = i then (i, v) else p) (contents l) = contents l"
      by (intro map_idI) (auto simp: filter_empty_conv)
    with absent assms show ?thesis by (simp add: SetValue_def)
  next
    case (found node as1 as2 w)
    then obtain n where n: "heap l node = Some n" "node_id n = i" by (auto simp: dat_def)
    let ?h = "(heap l)(node \<mapsto> n\<lparr>node_value := v\<rparr>)"
    have same: "nx ?h = nx (heap l)" "pv ?h = pv (heap l)" "index_of ?h = index_of (heap l)"
      "dom ?h = dom (heap l)" using n by (auto simp: nx_def pv_def index_of_def dat_def fun_eq_iff)
    then have rep': "rep (l\<lparr>heap := ?h\<rparr>) as" using rep by (simp add: rep_def)
    have "dat ?h = (dat (heap l))(node \<mapsto> (i, v))" using n by (auto simp: dat_def fun_eq_iff)
    moreover have "node \<notin> set as1" "node \<notin> set as2" using rep found(2) by (auto simp: rep_def ring_def)
    ultimately have c: "contents (l\<lparr>heap := ?h\<rparr>) = vals l as1 @ (i, v) # vals l as2"
      using rep_contents(1) [OF rep'] found(2) by simp
    have "i \<notin> fst ` set (vals l as1 @ vals l as2)"
      using found(4) rep_ids(2) [OF rep] by auto
    then have "map (\<lambda>p. if fst p = i then (i, v) else p) (vals l as1 @ vals l as2) = vals l as1 @ vals l as2"
      by (intro map_idI) auto
    then have "map (\<lambda>p. if fst p = i then (i, v) else p) (contents l) = vals l as1 @ (i, v) # vals l as2"
      by (simp add: found(4))
    with c rep' n found(1) show ?thesis by (auto simp: SetValue_def upd_def list_ok_def)
  qed
qed

lemma ends_spec:
  assumes "list_ok l"
  shows "First l = Some (case contents l of [] \<Rightarrow> 0 | p # ps \<Rightarrow> fst p)"
    and "Last l = Some (if contents l = [] then 0 else fst (last (contents l)))"
    and "Size l = of_nat (length (contents l))"
proof -
  obtain as where rep: "rep l as" using assms by (auto simp: list_ok_def)
  note c = rep_contents [OF rep]
  obtain s where s: "heap l sentinel = Some s" "node_next s = behind as" "node_prev s = before as"
    by (rule rep_sentinel [OF rep])
  have at: "a \<noteq> sentinel \<and> map_option node_id (heap l a) = Some (fst (the (dat (heap l) a)))" if "a \<in> set as" for a
    using rep that by (auto simp: rep_def ring_def dat_def)
  show "First l = Some (case contents l of [] \<Rightarrow> 0 | p # ps \<Rightarrow> fst p)"
    using s c(1) at by (cases as) (simp_all add: First_def)
  show "Last l = Some (if contents l = [] then 0 else fst (last (contents l)))"
    using s c(1) at by (cases as rule: rev_cases) (simp_all add: Last_def)
  show "Size l = of_nat (length (contents l))" using c by (simp add: Size_def)
qed

lemma neighbours_spec:
  assumes "list_ok l" "contents l = xs @ (i, v) # ys"
  shows "Next i l = Some (case ys of [] \<Rightarrow> 0 | p # ps \<Rightarrow> fst p)"
    and "Prev i l = Some (if xs = [] then 0 else fst (last xs))"
proof -
  obtain as where rep: "rep l as" using assms by (auto simp: list_ok_def)
  have "map_of (contents l) i = Some v" by (rule ids_split(3) [OF rep_ids(2) [OF rep] assms(2)])
  with rep obtain node as1 as2 where n: "FindNode i l = Some node" "as = as1 @ node # as2"
    "contents l = vals l as1 @ (i, v) # vals l as2"
    by (cases rule: find_cases [where i = i]) auto
  have xs: "xs = vals l as1" "ys = vals l as2"
    using ids_prefix [OF rep_ids(2) [OF rep] assms(2)] ids_prefix [OF rep_ids(2) [OF rep] n(3)] by simp_all
  have r: "ring (nx (heap l)) (pv (heap l)) (as1 @ node # as2)"
    "ring (nx (heap l)) (pv (heap l)) ((as1 @ [node]) @ as2)" using rep n(2) by (simp_all add: rep_def)
  have l: "nx (heap l) node = Some (behind as2)" "pv (heap l) node = Some (before as1)"
    using ring_gap(3) [OF r(2)] ring_gap(4) [OF r(1)] by simp_all
  then obtain m where m: "heap l node = Some m" "node_next m = behind as2" "node_prev m = before as1"
    by (auto simp: nx_def pv_def simp del: last.simps)
  have at: "a \<noteq> sentinel \<and> map_option node_id (heap l a) = Some (fst (the (dat (heap l) a)))" if "a \<in> set as" for a
    using rep that by (auto simp: rep_def ring_def dat_def)
  show "Next i l = Some (case ys of [] \<Rightarrow> 0 | p # ps \<Rightarrow> fst p)"
    using n(1,2) m(1,2) xs(2) at [of "behind as2"] by (cases as2) (simp_all add: Next_def)
  show "Prev i l = Some (if xs = [] then 0 else fst (last xs))"
    using n(1,2) m(1,3) xs(1) at [of "before as1"] by (cases as1 rule: rev_cases) (simp_all add: Prev_def)
qed

lemma init_ok: "list_ok LinkedList_init" "contents LinkedList_init = []"
proof -
  have "rep LinkedList_init []"
    by (auto simp: rep_def LinkedList_init_def ring_def nx_def pv_def id_supply_def first_id_def wid_def
        intro!: exI [of _ 0])
  then show "list_ok LinkedList_init" "contents LinkedList_init = []"
    using rep_contents(1) by (auto simp: list_ok_def)
qed

lemma clear_loop_ring:
  assumes "links (nx h) (pv h) (as @ [sentinel])" "distinct (sentinel # as)" "set (sentinel # as) \<subseteq> dom h"
  shows "\<exists>h'. clear_loop (behind as) (l\<lparr>heap := h\<rparr>) = Some (l\<lparr>heap := h'\<rparr>)
    \<and> dom h' = dom h - set as \<and> h' sentinel = h sentinel"
  using assms
proof (induction as arbitrary: h)
  case Nil
  then show ?case by (intro exI [of _ h]) (simp add: clear_loop.simps)
next
  case (Cons a as)
  obtain n where n: "h a = Some n" using Cons.prems(3) by auto
  let ?h = "h(a := None)"
  have l: "nx h a = Some (behind as)" "links (nx h) (pv h) (as @ [sentinel])"
    using Cons.prems(1) by (cases as; simp)+
  then have nn: "node_next n = behind as" using n by (simp add: nx_def)
  have "links (nx ?h) (pv ?h) (as @ [sentinel]) = links (nx h) (pv h) (as @ [sentinel])"
    by (rule links_cong) (use Cons.prems(2) in \<open>cases as; auto simp: nx_def pv_def\<close>)+
  then have "links (nx ?h) (pv ?h) (as @ [sentinel])" using l(2) by simp
  moreover have "distinct (sentinel # as)" "set (sentinel # as) \<subseteq> dom ?h"
    using Cons.prems(2,3) by auto
  ultimately obtain h' where
    "clear_loop (behind as) (l\<lparr>heap := ?h\<rparr>) = Some (l\<lparr>heap := h'\<rparr>)"
    "dom h' = dom ?h - set as" "h' sentinel = ?h sentinel" using Cons.IH [of ?h] by blast
  with n nn Cons.prems(2) show ?case by (intro exI [of _ h']) (auto simp: clear_loop.simps [of a])
qed

lemma Clear_spec:
  assumes "list_ok l"
  shows "\<exists>l'. Clear l = Some l' \<and> list_ok l' \<and> contents l' = [] \<and> next_id l' = next_id l"
proof -
  obtain as where rep: "rep l as" using assms by (auto simp: list_ok_def)
  obtain s where s: "heap l sentinel = Some s" "node_next s = behind as" using rep_sentinel [OF rep] by auto
  have r: "ring (nx (heap l)) (pv (heap l)) ([] @ as)" "dom (heap l) = set (sentinel # as)"
    "\<forall>a \<in> set (sentinel # as). a < brk l" using rep by (simp_all add: rep_def)
  have "\<exists>h'. clear_loop (behind as) (l\<lparr>heap := heap l\<rparr>) = Some (l\<lparr>heap := h'\<rparr>)
    \<and> dom h' = dom (heap l) - set as \<and> h' sentinel = heap l sentinel"
    by (rule clear_loop_ring [OF ring_gap(2) [OF r(1)]]) (use r in \<open>auto simp: ring_def\<close>)
  then obtain h' where h': "clear_loop (behind as) l = Some (l\<lparr>heap := h'\<rparr>)"
    "dom h' = dom (heap l) - set as" "h' sentinel = Some s" using s by auto
  let ?h = "h'(sentinel \<mapsto> s\<lparr>node_next := sentinel, node_prev := sentinel\<rparr>)"
  let ?l = "l\<lparr>heap := ?h, nodes := [], free_ids := []\<rparr>"
  have "Clear l = Some ?l" using s h' by (simp add: Clear_def upd_def)
  moreover have "rep ?l []"
  proof -
    have "sentinel \<notin> set as" using r(1) by (simp add: ring_def)
    then have "dom ?h = {sentinel}" using h'(2) r(2) by auto
    moreover obtain base where "first_id (next_id l) = wid base"
      using rep by (auto simp: rep_def id_supply_def)
    ultimately show ?thesis
      using r(3) by (auto simp: rep_def ring_def nx_def pv_def id_supply_def)
  qed
  ultimately show ?thesis using rep_contents(1) [of ?l "[]"] by (auto simp: list_ok_def)
qed

lemma contents_bound:
  assumes "list_ok l"
  shows "length (contents l) \<le> id_count" "length (nodes l) = length (contents l)"
proof -
  obtain as where rep: "rep l as" using assms by (auto simp: list_ok_def)
  show len: "length (nodes l) = length (contents l)" using rep_contents [OF rep] by simp
  have s: "id_supply (next_id l) (map fst (nodes l) @ free_ids l)" using rep by (simp add: rep_def)
  have w: "wid k \<in> wid ` {..<id_count}" for k
    by (rule image_eqI [of _ _ "k mod id_count"]) (simp_all add: wid_eq_iff id_count_def)
  obtain base n where "set (map fst (nodes l) @ free_ids l) = (\<lambda>i. wid (base + i)) ` {..<n}"
    using s unfolding id_supply_def by blast
  then have "set (map fst (nodes l) @ free_ids l) \<subseteq> wid ` {..<id_count}"
    using w by (simp only: image_subset_iff) blast
  then have "set (map fst (nodes l)) \<subseteq> wid ` {..<id_count}" by simp
  then have "card (set (map fst (nodes l))) \<le> card (wid ` {..<id_count})" by (intro card_mono) auto
  also have "\<dots> \<le> id_count" using card_image_le [of "{..<id_count}" wid] by simp
  finally show "length (contents l) \<le> id_count"
    using s len by (simp add: id_supply_def distinct_card flip: set_map)
qed

lemma copy_loop_spec:
  assumes "links (nx (heap l)) (pv (heap l)) (as @ [sentinel])" "sentinel \<notin> set as" "set as \<subseteq> dom (heap l)"
    and "list_ok c" "length (contents c) + length as \<le> id_count"
  shows "\<exists>c'. copy_loop l (behind as) c = Some c' \<and> list_ok c'
    \<and> map snd (contents c') = map snd (contents c) @ map snd (vals l as)"
  using assms
proof (induction as arbitrary: c)
  case Nil
  then show ?case by (simp add: copy_loop.simps)
next
  case (Cons a as)
  obtain n where n: "heap l a = Some n" using Cons.prems(3) by auto
  have k: "nx (heap l) a = Some (behind as)" "links (nx (heap l)) (pv (heap l)) (as @ [sentinel])"
    using Cons.prems(1) by (cases as; simp)+
  have "has_room c"
    using Cons.prems(5) contents_bound(2) [OF Cons.prems(4)] by (simp add: has_room_def)
  then obtain i c1 where c1: "PushBack (node_value n) c = Some (i, c1)" "list_ok c1"
    "contents c1 = contents c @ [(i, node_value n)]" using PushBack_spec [OF Cons.prems(4)] by blast
  have "node_next n = behind as" "snd (the (dat (heap l) a)) = node_value n"
    using n k(1) by (simp_all add: nx_def dat_def)
  moreover obtain c' where "copy_loop l (behind as) c1 = Some c'" "list_ok c'"
    "map snd (contents c') = map snd (contents c1) @ map snd (vals l as)"
    using Cons.IH [OF k(2) _ _ c1(2)] Cons.prems(2,3,5) c1(3) by auto
  ultimately show ?case using n c1 Cons.prems(2) by (simp add: copy_loop.simps [of l a])
qed

lemma DeepCopy_spec:
  assumes "list_ok l"
  shows "\<exists>c. LinkedList_DeepCopy l = Some c \<and> list_ok c \<and> map snd (contents c) = map snd (contents l)"
proof -
  obtain as where rep: "rep l as" using assms by (auto simp: list_ok_def)
  obtain s where s: "heap l sentinel = Some s" "node_next s = behind as" using rep_sentinel [OF rep] by auto
  have r: "ring (nx (heap l)) (pv (heap l)) ([] @ as)" "dom (heap l) = set (sentinel # as)"
    using rep by (simp_all add: rep_def)
  have "length as \<le> id_count" using contents_bound(1) [OF assms] rep_contents(1) [OF rep] by simp
  then have "\<exists>c. copy_loop l (behind as) LinkedList_init = Some c \<and> list_ok c
    \<and> map snd (contents c) = map snd (contents LinkedList_init) @ map snd (vals l as)"
    by (intro copy_loop_spec [OF ring_gap(2) [OF r(1)]])
       (use r init_ok in \<open>auto simp: ring_def\<close>)
  with s rep_contents(1) [OF rep] init_ok(2) show ?thesis by (simp add: LinkedList_DeepCopy_def)
qed

section \<open>Sequences of operations\<close>

text \<open>The calls a script can make on one list, with what they return.\<close>

datatype list_op =
    OpPushFront i32 | OpPushBack i32 | OpPopFront | OpPopBack | OpRemove u32
  | OpMoveToFront u32 | OpMoveToBack u32 | OpSetValue u32 i32 | OpClear
  | OpGetValue u32 | OpFirst | OpLast | OpNext u32 | OpPrev u32 | OpSize

fun run_op :: "list_op \<Rightarrow> LinkedList \<Rightarrow> (u32 \<times> LinkedList) option" where
  "run_op (OpPushFront v) l = PushFront v l"
| "run_op (OpPushBack v) l = PushBack v l"
| "run_op OpPopFront l = PopFront l"
| "run_op OpPopBack l = PopBack l"
| "run_op (OpRemove i) l = Remove i l"
| "run_op (OpMoveToFront i) l = map_option (Pair 0) (MoveToFront i l)"
| "run_op (OpMoveToBack i) l = map_option (Pair 0) (MoveToBack i l)"
| "run_op (OpSetValue i v) l = map_option (Pair 0) (SetValue i v l)"
| "run_op OpClear l = map_option (Pair 0) (Clear l)"
| "run_op (OpGetValue i) l = map_option (\<lambda>v. (v, l)) (GetValue i l)"
| "run_op OpFirst l = map_option (\<lambda>i. (i, l)) (First l)"
| "run_op OpLast l = map_option (\<lambda>i. (i, l)) (Last l)"
| "run_op (OpNext i) l = map_option (\<lambda>j. (j, l)) (Next i l)"
| "run_op (OpPrev i) l = map_option (\<lambda>j. (j, l)) (Prev i l)"
| "run_op OpSize l = Some (Size l, l)"

text \<open>The same calls on a list of pairs: the abstract list.\<close>

fun spec_op :: "list_op \<Rightarrow> (u32 \<times> i32) list \<Rightarrow> u32 \<Rightarrow> (u32 \<times> i32) list \<Rightarrow> bool" where
  "spec_op (OpPushFront v) xs r ys \<longleftrightarrow> r \<noteq> 0 \<and> r \<notin> fst ` set xs \<and> ys = (r, v) # xs"
| "spec_op (OpPushBack v) xs r ys \<longleftrightarrow> r \<noteq> 0 \<and> r \<notin> fst ` set xs \<and> ys = xs @ [(r, v)]"
| "spec_op OpPopFront xs r ys \<longleftrightarrow> (if xs = [] then r = 0 \<and> ys = [] else r = snd (hd xs) \<and> ys = tl xs)"
| "spec_op OpPopBack xs r ys \<longleftrightarrow> (if xs = [] then r = 0 \<and> ys = [] else r = snd (last xs) \<and> ys = butlast xs)"
| "spec_op (OpRemove i) xs r ys \<longleftrightarrow>
     r = (case map_of xs i of None \<Rightarrow> 0 | Some v \<Rightarrow> v) \<and> ys = filter (\<lambda>p. fst p \<noteq> i) xs"
| "spec_op (OpMoveToFront i) xs r ys \<longleftrightarrow>
     r = 0 \<and> ys = filter (\<lambda>p. fst p = i) xs @ filter (\<lambda>p. fst p \<noteq> i) xs"
| "spec_op (OpMoveToBack i) xs r ys \<longleftrightarrow>
     r = 0 \<and> ys = filter (\<lambda>p. fst p \<noteq> i) xs @ filter (\<lambda>p. fst p = i) xs"
| "spec_op (OpSetValue i v) xs r ys \<longleftrightarrow> r = 0 \<and> ys = map (\<lambda>p. if fst p = i then (i, v) else p) xs"
| "spec_op OpClear xs r ys \<longleftrightarrow> r = 0 \<and> ys = []"
| "spec_op (OpGetValue i) xs r ys \<longleftrightarrow> r = (case map_of xs i of None \<Rightarrow> 0 | Some v \<Rightarrow> v) \<and> ys = xs"
| "spec_op OpFirst xs r ys \<longleftrightarrow> r = (case xs of [] \<Rightarrow> 0 | p # ps \<Rightarrow> fst p) \<and> ys = xs"
| "spec_op OpLast xs r ys \<longleftrightarrow> r = (if xs = [] then 0 else fst (last xs)) \<and> ys = xs"
| "spec_op (OpNext i) xs r ys \<longleftrightarrow>
     r = (case tl (dropWhile (\<lambda>p. fst p \<noteq> i) xs) of [] \<Rightarrow> 0 | p # ps \<Rightarrow> fst p) \<and> ys = xs"
| "spec_op (OpPrev i) xs r ys \<longleftrightarrow>
     r = (let us = takeWhile (\<lambda>p. fst p \<noteq> i) xs in if us = xs \<or> us = [] then 0 else fst (last us)) \<and> ys = xs"
| "spec_op OpSize xs r ys \<longleftrightarrow> r = of_nat (length xs) \<and> ys = xs"

lemma Next_Prev_spec:
  assumes "list_ok l"
  shows "Next i l = Some (case tl (dropWhile (\<lambda>p. fst p \<noteq> i) (contents l)) of [] \<Rightarrow> 0 | p # ps \<Rightarrow> fst p)"
    and "Prev i l = Some (let us = takeWhile (\<lambda>p. fst p \<noteq> i) (contents l)
           in if us = contents l \<or> us = [] then 0 else fst (last us))"
proof -
  obtain as where rep: "rep l as" using assms by (auto simp: list_ok_def)
  let ?N = "Next i l = Some (case tl (dropWhile (\<lambda>p. fst p \<noteq> i) (contents l)) of [] \<Rightarrow> 0 | p # ps \<Rightarrow> fst p)"
  let ?P = "Prev i l = Some (let us = takeWhile (\<lambda>p. fst p \<noteq> i) (contents l)
           in if us = contents l \<or> us = [] then 0 else fst (last us))"
  from rep have "?N \<and> ?P"
  proof (cases rule: find_cases [where i = i])
    case absent
    then have "\<forall>p \<in> set (contents l). fst p \<noteq> i" by (auto simp: filter_empty_conv)
    then have d: "dropWhile (\<lambda>p. fst p \<noteq> i) (contents l) = []" "takeWhile (\<lambda>p. fst p \<noteq> i) (contents l) = contents l"
      by simp_all
    show ?thesis unfolding d using absent(1) by (simp add: Next_def Prev_def)
  next
    case (found node as1 as2 v)
    note p = ids_prefix [OF rep_ids(2) [OF rep] found(4)]
    have "length (vals l as1) \<noteq> length (contents l)" using arg_cong [OF found(4), of length] by simp
    then have "vals l as1 \<noteq> contents l" by metis
    with neighbours_spec [OF assms found(4)] show ?thesis
      unfolding p [symmetric] by (simp add: Let_def)
  qed
  then show ?N ?P by blast+
qed

lemma run_op_refines:
  assumes "list_ok l" "has_room l"
  shows "\<exists>r l'. run_op op l = Some (r, l') \<and> list_ok l' \<and> spec_op op (contents l) r (contents l')"
proof (cases op)
  case OpPopFront
  show ?thesis
  proof (cases "contents l")
    case Nil
    with OpPopFront PopFront_spec(1) [OF assms(1)] assms(1) show ?thesis by simp
  next
    case (Cons p xs)
    with OpPopFront PopFront_spec(2) [OF assms(1), of "fst p" "snd p" xs] show ?thesis by auto
  qed
next
  case OpPopBack
  show ?thesis
  proof (cases "contents l" rule: rev_cases)
    case Nil
    with OpPopBack PopBack_spec(1) [OF assms(1)] assms(1) show ?thesis by simp
  next
    case (snoc xs p)
    with OpPopBack PopBack_spec(2) [OF assms(1), of xs "fst p" "snd p"] show ?thesis by auto
  qed
next
  case (OpPushFront v)
  with PushFront_spec [OF assms, of v] show ?thesis by auto
next
  case (OpPushBack v)
  with PushBack_spec [OF assms, of v] show ?thesis by auto
next
  case (OpRemove i)
  with Remove_spec [OF assms(1), of i] show ?thesis by auto
next
  case (OpMoveToFront i)
  with MoveToFront_spec [OF assms(1), of i] show ?thesis by auto
next
  case (OpMoveToBack i)
  with MoveToBack_spec [OF assms(1), of i] show ?thesis by auto
next
  case (OpSetValue i v)
  with SetValue_spec [OF assms(1), of i v] show ?thesis by auto
next
  case OpClear
  with Clear_spec [OF assms(1)] show ?thesis by auto
qed (simp_all add: assms(1) GetValue_spec ends_spec Next_Prev_spec)

lemma spec_op_length: "spec_op op xs r ys \<Longrightarrow> length ys \<le> Suc (length xs)"
  by (cases op)
     (auto split: if_splits simp: sum_length_filter_compl add.commute intro: le_SucI)

definition room_for :: "nat \<Rightarrow> LinkedList \<Rightarrow> bool" where
  "room_for k l \<longleftrightarrow> length (contents l) + k \<le> id_count"

interpretation ll: refinement run_op spec_op contents list_ok room_for
proof
  fix s k op
  assume ok: "list_ok s" and room: "room_for (Suc k) s"
  have "has_room s"
    using room contents_bound(2) [OF ok] by (simp add: has_room_def room_for_def)
  from run_op_refines [OF ok this, of op] obtain r s' where
    "run_op op s = Some (r, s')" "list_ok s'" "spec_op op (contents s) r (contents s')" by blast
  moreover from spec_op_length [OF this(3)] room have "room_for k s'" by (simp add: room_for_def)
  ultimately show "\<exists>r s'. run_op op s = Some (r, s') \<and> list_ok s' \<and> room_for k s'
      \<and> spec_op op (contents s) r (contents s')" by blast
qed

text \<open>C21: every sequence of fewer than 2 to the 32 calls on a new list runs without following a
  pointer to a deleted node, and each call returns and does what the abstract list of (id, value)
  pairs prescribes; in particular the id of a new node is never 0 and never one in use.\<close>

theorem LinkedList_refines:
  assumes "length ops < 2 ^ 32"
  shows "\<exists>rs l. run_all run_op ops LinkedList_init = Some (rs, l)
    \<and> spec_all spec_op ops [] rs (contents l)"
  using ll.runs [OF init_ok(1), of ops] assms init_ok(2) by (auto simp: room_for_def id_count_def)

theorem LinkedList_refines_witness:
  "\<exists>rs l. run_all run_op [OpPushBack 7, OpPushFront 8, OpPopBack] LinkedList_init = Some (rs, l)
    \<and> spec_all spec_op [OpPushBack 7, OpPushFront 8, OpPopBack] [] rs (contents l)"
  by (rule LinkedList_refines) simp

text \<open>C25: a deep copy returns, holds the values of the original in their order, and is a sound
  list of its own.\<close>

theorem LinkedList_DeepCopy_values:
  assumes "length ops < 2 ^ 32" "run_all run_op ops LinkedList_init = Some (rs, l)"
  shows "\<exists>c. LinkedList_DeepCopy l = Some c \<and> list_ok c \<and> map snd (contents c) = map snd (contents l)"
proof -
  have "list_ok l"
    using ll.runs [OF init_ok(1), of ops] assms init_ok(2) by (auto simp: room_for_def id_count_def)
  then show ?thesis by (rule DeepCopy_spec)
qed

theorem LinkedList_DeepCopy_values_witness:
  "\<exists>rs l c. run_all run_op [OpPushBack 7, OpPushFront 8] LinkedList_init = Some (rs, l)
    \<and> LinkedList_DeepCopy l = Some c \<and> map snd (contents c) = map snd (contents l)"
proof -
  have "room_for (length [OpPushBack 7, OpPushFront 8]) LinkedList_init"
    using init_ok(2) by (simp add: room_for_def id_count_def)
  from ll.runs [OF init_ok(1) this] obtain rs l where
    r: "run_all run_op [OpPushBack 7, OpPushFront 8] LinkedList_init = Some (rs, l)" by blast
  have "length [OpPushBack 7, OpPushFront 8] < 2 ^ 32" by simp
  from LinkedList_DeepCopy_values [OF this r] r show ?thesis by blast
qed

end
