(* ===== verification/Handle_Manager.thy ===== *)
theory Handle_Manager
  imports Async2_Prelude
begin

text \<open>
  The table of script handles (\<^verbatim>\<open>src/handle_manager.h\<close>, \<^verbatim>\<open>handle_manager.cpp\<close>): a map from
  32-bit handle numbers to the objects behind them, and a second map from plugins to the handles
  they own.  The theory shows that the second map is an exact index of the first, that a handle
  number is never 0 and never given out while it is in use, that the search for a number ends, and
  that an object is deleted at most once.
\<close>

section \<open>Model\<close>

datatype HandleType =
    HANDLE_HTTP_REQUEST | HANDLE_JSON_VALUE | HANDLE_TCP_SOCKET | HANDLE_UDP_SOCKET
  | HANDLE_WS_SOCKET | HANDLE_LINKED_LIST | HANDLE_ITERATOR | HANDLE_NONE

text \<open>Objects and plugin contexts are addresses; a null owner is None.\<close>

type_synonym obj = nat
type_synonym ctx = nat

record Handle =
  htype :: HandleType
  pointer :: obj
  owner :: "ctx option"
  closed :: bool

text \<open>The maps of the standard library are association lists in iteration order.  \<open>deleted\<close> records
  the \<^verbatim>\<open>delete\<close> of each object.\<close>

record HandleManager =
  next_handle :: i32
  used_handles :: "(i32 \<times> Handle) list"
  plugin_handles :: "(ctx \<times> i32 list) list"
  deleted :: "(HandleType \<times> obj) list"

definition HandleManager_init :: HandleManager where
  "HandleManager_init = \<lparr>next_handle = 1, used_handles = [], plugin_handles = [], deleted = []\<rparr>"

definition DeleteHandlePointer :: "Handle \<Rightarrow> HandleManager \<Rightarrow> HandleManager" where
  "DeleteHandlePointer h m =
     (if htype h = HANDLE_NONE then m else m\<lparr>deleted := deleted m @ [(htype h, pointer h)]\<rparr>)"

definition CleanHandles :: "HandleManager \<Rightarrow> HandleManager" where
  "CleanHandles m =
     (fold (\<lambda>(i, h). DeleteHandlePointer h) (used_handles m) m)
       \<lparr>used_handles := [], plugin_handles := []\<rparr>"

text \<open>The seven typed getters differ in the type they ask for.\<close>

definition GetHandle :: "HandleType \<Rightarrow> i32 \<Rightarrow> HandleManager \<Rightarrow> obj option" where
  "GetHandle t i m = (case map_of (used_handles m) i of
     None \<Rightarrow> None
   | Some h \<Rightarrow> if htype h \<noteq> t \<or> closed h then None else Some (pointer h))"

definition GetHttpRequest :: "i32 \<Rightarrow> HandleManager \<Rightarrow> obj option" where
  "GetHttpRequest = GetHandle HANDLE_HTTP_REQUEST"

definition GetDataHandle :: "i32 \<Rightarrow> HandleManager \<Rightarrow> obj option" where
  "GetDataHandle = GetHandle HANDLE_JSON_VALUE"

definition GetTcpSocket :: "i32 \<Rightarrow> HandleManager \<Rightarrow> obj option" where
  "GetTcpSocket = GetHandle HANDLE_TCP_SOCKET"

definition GetUdpSocket :: "i32 \<Rightarrow> HandleManager \<Rightarrow> obj option" where
  "GetUdpSocket = GetHandle HANDLE_UDP_SOCKET"

definition GetWsSocket :: "i32 \<Rightarrow> HandleManager \<Rightarrow> obj option" where
  "GetWsSocket = GetHandle HANDLE_WS_SOCKET"

definition GetLinkedList :: "i32 \<Rightarrow> HandleManager \<Rightarrow> obj option" where
  "GetLinkedList = GetHandle HANDLE_LINKED_LIST"

definition GetDataIterator :: "i32 \<Rightarrow> HandleManager \<Rightarrow> obj option" where
  "GetDataIterator = GetHandle HANDLE_ITERATOR"

text \<open>The search loop of \<^verbatim>\<open>CreateHandle\<close>; the value 0 is the early return.  It is not obvious that
  it ends, and on some tables it would not: a diverging search is None.\<close>

partial_function (option) scan :: "(i32 \<times> Handle) list \<Rightarrow> i32 \<Rightarrow> i32 \<Rightarrow> i32 option" where
  "scan used start candidate =
     (let candidate = (if candidate = 0 then 1 else candidate) in
      if candidate \<notin> fst ` set used then Some candidate
      else let candidate = candidate + 1 in
        if candidate = start then Some 0 else scan used start candidate)"

declare scan.simps [code]

text \<open>\<^verbatim>\<open>plugin_handles_[owner].insert(handle)\<close>\<close>

definition AddToPluginSet :: "ctx \<Rightarrow> i32 \<Rightarrow> HandleManager \<Rightarrow> HandleManager" where
  "AddToPluginSet c i m =
     (let ids = (case map_of (plugin_handles m) c of None \<Rightarrow> [] | Some ids \<Rightarrow> ids)
      in m\<lparr>plugin_handles := AList.update c (List.insert i ids) (plugin_handles m)\<rparr>)"

definition RemoveFromPluginSet :: "ctx \<Rightarrow> i32 \<Rightarrow> HandleManager \<Rightarrow> HandleManager" where
  "RemoveFromPluginSet c i m = (case map_of (plugin_handles m) c of
     None \<Rightarrow> m
   | Some ids \<Rightarrow>
       let ids = removeAll i ids
       in if ids = [] then m\<lparr>plugin_handles := AList.delete c (plugin_handles m)\<rparr>
          else m\<lparr>plugin_handles := AList.update c ids (plugin_handles m)\<rparr>)"

definition CreateHandle :: "obj \<Rightarrow> HandleType \<Rightarrow> ctx option \<Rightarrow> HandleManager \<Rightarrow> (i32 \<times> HandleManager) option" where
  "CreateHandle p t own m =
     (case scan (used_handles m) (next_handle m) (next_handle m) of
        None \<Rightarrow> None
      | Some candidate \<Rightarrow>
          if candidate = 0 then Some (0, m)
          else
            let h = \<lparr>htype = t, pointer = p, owner = own, closed = False\<rparr>;
                m = m\<lparr>next_handle := candidate + 1\<rparr>;
                m = m\<lparr>used_handles := AList.update candidate h (used_handles m)\<rparr>
            in Some (candidate, case own of None \<Rightarrow> m | Some c \<Rightarrow> AddToPluginSet c candidate m))"

definition FreeHandle :: "i32 \<Rightarrow> HandleManager \<Rightarrow> HandleManager" where
  "FreeHandle i m = (case map_of (used_handles m) i of
     None \<Rightarrow> m
   | Some h \<Rightarrow>
       let m = (case owner h of None \<Rightarrow> m | Some c \<Rightarrow> RemoveFromPluginSet c i m);
           m = DeleteHandlePointer h m
       in m\<lparr>used_handles := AList.delete i (used_handles m)\<rparr>)"

definition MarkHandleClosed :: "i32 \<Rightarrow> HandleManager \<Rightarrow> HandleManager" where
  "MarkHandleClosed i m = (case map_of (used_handles m) i of
     None \<Rightarrow> m
   | Some h \<Rightarrow> m\<lparr>used_handles := AList.update i (h\<lparr>closed := True\<rparr>) (used_handles m)\<rparr>)"

definition TransferHandle :: "i32 \<Rightarrow> ctx option \<Rightarrow> HandleManager \<Rightarrow> bool \<times> HandleManager" where
  "TransferHandle i new_owner m = (case map_of (used_handles m) i of
     None \<Rightarrow> (False, m)
   | Some h \<Rightarrow>
       if closed h then (False, m)
       else if owner h = new_owner then (True, m)
       else
         let m = (case owner h of None \<Rightarrow> m | Some c \<Rightarrow> RemoveFromPluginSet c i m);
             m = m\<lparr>used_handles := AList.update i (h\<lparr>owner := new_owner\<rparr>) (used_handles m)\<rparr>
         in (True, case new_owner of None \<Rightarrow> m | Some c \<Rightarrow> AddToPluginSet c i m))"

text \<open>One round of the loop of \<^verbatim>\<open>TakePluginHandles\<close>: detach the handle and add it to the result.\<close>

definition take_handle :: "i32 \<Rightarrow> (i32 \<times> Handle) list \<times> HandleManager \<Rightarrow> (i32 \<times> Handle) list \<times> HandleManager" where
  "take_handle i = (\<lambda>(result, m). case map_of (used_handles m) i of
     None \<Rightarrow> (result, m)
   | Some h \<Rightarrow> (result @ [(i, h\<lparr>owner := None\<rparr>)],
                 m\<lparr>used_handles := AList.update i (h\<lparr>owner := None\<rparr>) (used_handles m)\<rparr>))"

definition TakePluginHandles :: "ctx \<Rightarrow> HandleManager \<Rightarrow> (i32 \<times> Handle) list \<times> HandleManager" where
  "TakePluginHandles c m = (case map_of (plugin_handles m) c of
     None \<Rightarrow> ([], m)
   | Some ids \<Rightarrow> fold take_handle ids ([], m\<lparr>plugin_handles := AList.delete c (plugin_handles m)\<rparr>))"

section \<open>The search for a free number\<close>

lemma scan_finds:
  fixes start :: i32
  assumes "k \<le> t" "t < 2 ^ 32" "start + of_nat t \<noteq> 0" "start + of_nat t \<notin> fst ` set used"
  shows "\<exists>c. scan used start (start + of_nat k) = Some c \<and> c \<noteq> 0 \<and> c \<notin> fst ` set used"
  using assms(1)
proof (induction "t - k" arbitrary: k rule: less_induct)
  case less
  let ?w = "\<lambda>k. start + of_nat k :: i32"
  have apart: "?w j \<noteq> start" if "0 < j" "j \<le> t" for j
  proof
    assume "?w j = start"
    then have "(of_nat j :: i32) = 0" by simp
    then have "unat (of_nat j :: i32) = 0" by simp
    with that assms(2) show False by (simp add: unat_of_nat)
  qed
  define c where "c = (if ?w k = 0 then 1 else ?w k)"
  define k' where "k' = (if ?w k = 0 then Suc k else k)"
  have wS: "?w (Suc j) = ?w j + 1" for j by (simp add: ac_simps)
  have c: "c = ?w k'" "c \<noteq> 0"
    by (simp_all add: c_def k'_def wS del: of_nat_Suc)
  have "k' \<le> t" using less.prems assms(3) by (cases "k = t") (auto simp: k'_def)
  show ?case
  proof (cases "c \<in> fst ` set used")
    case False
    with c(2) show ?thesis by (subst scan.simps) (simp add: c_def [symmetric] Let_def)
  next
    case True
    with assms(4) c(1) have "k' \<noteq> t" by auto
    with \<open>k' \<le> t\<close> have k': "Suc k' \<le> t" by simp
    have "scan used start (?w k) = scan used start (?w (Suc k'))"
      using True c(1) apart [of "Suc k'"] k'
      by (subst scan.simps) (simp add: c_def [symmetric] Let_def wS del: of_nat_Suc)
    moreover have "t - Suc k' < t - k" using k' by (simp add: k'_def split: if_splits)
    ultimately show ?thesis using less.hyps [of "Suc k'"] k' by simp
  qed
qed

lemma scan_full:
  fixes start :: i32
  assumes "k < 2 ^ 32" "start \<noteq> 1" "\<And>i. i \<noteq> 0 \<Longrightarrow> i \<in> fst ` set used"
  shows "scan used start (start + of_nat k) = Some 0"
  using assms(1)
proof (induction "2 ^ 32 - k" arbitrary: k rule: less_induct)
  case less
  let ?w = "\<lambda>k. start + of_nat k :: i32"
  define c where "c = (if ?w k = 0 then 1 else ?w k)"
  define k' where "k' = (if ?w k = 0 then Suc k else k)"
  have wS: "?w (Suc j) = ?w j + 1" for j by (simp add: ac_simps)
  have c: "c = ?w k'" "c \<noteq> 0"
    by (simp_all add: c_def k'_def wS del: of_nat_Suc)
  have full: "?w (2 ^ 32) = start" by simp
  have "k' \<noteq> 2 ^ 32"
  proof
    assume "k' = 2 ^ 32"
    then have "c = start" using c(1) full by simp
    moreover have "c = 1" using less.prems \<open>k' = 2 ^ 32\<close> by (auto simp: k'_def c_def split: if_splits)
    ultimately show False using assms(2) by simp
  qed
  with less.prems have k': "k' < 2 ^ 32" "k \<le> k'" by (auto simp: k'_def split: if_splits)
  have step: "scan used start (?w k)
      = (if ?w (Suc k') = start then Some 0 else scan used start (?w (Suc k')))"
    using assms(3) [OF c(2)] c(1)
    by (subst scan.simps) (simp add: c_def [symmetric] Let_def wS del: of_nat_Suc)
  show ?case
  proof (cases "Suc k' = 2 ^ 32")
    case True
    with step full show ?thesis by metis
  next
    case False
    with k' less.hyps [of "Suc k'"] step show ?thesis by simp
  qed
qed

text \<open>From the cursor, a search finds a free number when there is one, and gives 0 when there is none
  and the cursor is not at its initial place.\<close>

lemma scan_total:
  fixes start :: i32
  assumes "start = 1 \<Longrightarrow> used = []"
  shows "(\<exists>c. scan used start start = Some c \<and> c \<noteq> 0 \<and> c \<notin> fst ` set used)
    \<or> (scan used start start = Some 0 \<and> (\<forall>i. i \<noteq> 0 \<longrightarrow> i \<in> fst ` set used))"
proof (cases "\<exists>i. i \<noteq> 0 \<and> i \<notin> fst ` set used")
  case True
  then obtain i where i: "i \<noteq> 0" "i \<notin> fst ` set used" by blast
  let ?t = "unat (i - start)"
  have "start + of_nat ?t = i" "?t < 2 ^ 32"
    using unsigned_less [of "i - start", where ?'a = nat] by simp_all
  with i scan_finds [of 0 ?t start used] show ?thesis by auto
next
  case False
  then have all: "\<And>i. i \<noteq> 0 \<Longrightarrow> i \<in> fst ` set used" by blast
  have "(1 :: i32) \<in> fst ` set used" by (rule all) simp
  then have "start \<noteq> 1" using assms by auto
  from scan_full [of 0, OF _ this all] all show ?thesis by auto
qed

section \<open>The index of owners\<close>

abbreviation used :: "HandleManager \<Rightarrow> i32 \<Rightarrow> Handle option" where
  "used m \<equiv> map_of (used_handles m)"

definition owned :: "HandleManager \<Rightarrow> ctx \<Rightarrow> i32 set" where
  "owned m c = (case map_of (plugin_handles m) c of None \<Rightarrow> {} | Some ids \<Rightarrow> set ids)"

definition plugin_sets_ok :: "HandleManager \<Rightarrow> bool" where
  "plugin_sets_ok m \<longleftrightarrow> distinct (map fst (plugin_handles m))
     \<and> (\<forall>c ids. map_of (plugin_handles m) c = Some ids \<longrightarrow> ids \<noteq> [] \<and> distinct ids)"

definition index_ok :: "HandleManager \<Rightarrow> bool" where
  "index_ok m \<longleftrightarrow> (\<forall>c. owned m c = {i. \<exists>h. used m i = Some h \<and> owner h = Some c})"

definition hm_ok :: "HandleManager \<Rightarrow> bool" where
  "hm_ok m \<longleftrightarrow> distinct (map fst (used_handles m)) \<and> 0 \<notin> fst ` set (used_handles m)
     \<and> plugin_sets_ok m \<and> index_ok m \<and> (next_handle m = 1 \<longrightarrow> used_handles m = [])"

declare map_of_eq_Some_iff [simp del]

lemma index_okD: "hm_ok m \<Longrightarrow> owned m c = {i. \<exists>h. used m i = Some h \<and> owner h = Some c}"
  by (simp add: hm_ok_def index_ok_def)

lemma map_of_update: "map_of (AList.update k v m) = (map_of m)(k \<mapsto> v)"
  by (rule update_conv')

lemma map_of_delete: "map_of (AList.delete k m) = (map_of m)(k := None)"
  by (rule delete_conv')

lemma AddToPluginSet_simps [simp]:
  "used_handles (AddToPluginSet c i m) = used_handles m" "next_handle (AddToPluginSet c i m) = next_handle m"
  "deleted (AddToPluginSet c i m) = deleted m"
  by (simp_all add: AddToPluginSet_def Let_def)

lemma RemoveFromPluginSet_simps [simp]:
  "used_handles (RemoveFromPluginSet c i m) = used_handles m"
  "next_handle (RemoveFromPluginSet c i m) = next_handle m" "deleted (RemoveFromPluginSet c i m) = deleted m"
  by (simp_all add: RemoveFromPluginSet_def Let_def split: option.splits)

lemma DeleteHandlePointer_simps [simp]:
  "used_handles (DeleteHandlePointer h m) = used_handles m"
  "next_handle (DeleteHandlePointer h m) = next_handle m"
  "plugin_handles (DeleteHandlePointer h m) = plugin_handles m"
  by (simp_all add: DeleteHandlePointer_def)

lemma AddToPluginSet_ok:
  assumes "plugin_sets_ok m"
  shows "plugin_sets_ok (AddToPluginSet c i m)"
    and "owned (AddToPluginSet c i m) = (owned m)(c := insert i (owned m c))"
proof -
  show "plugin_sets_ok (AddToPluginSet c i m)"
    using assms
    by (auto simp: plugin_sets_ok_def AddToPluginSet_def Let_def map_of_update distinct_update
        List.insert_def split: option.splits if_splits)
  show "owned (AddToPluginSet c i m) = (owned m)(c := insert i (owned m c))"
    by (auto simp: owned_def AddToPluginSet_def Let_def map_of_update fun_eq_iff split: option.splits)
qed

lemma RemoveFromPluginSet_ok:
  assumes "plugin_sets_ok m"
  shows "plugin_sets_ok (RemoveFromPluginSet c i m)"
    and "owned (RemoveFromPluginSet c i m) = (owned m)(c := owned m c - {i})"
proof -
  show "plugin_sets_ok (RemoveFromPluginSet c i m)"
    using assms
    by (auto simp: plugin_sets_ok_def RemoveFromPluginSet_def Let_def map_of_update map_of_delete
        distinct_update distinct_delete distinct_removeAll split: option.splits if_splits)
  show "owned (RemoveFromPluginSet c i m) = (owned m)(c := owned m c - {i})"
    by (auto simp: owned_def RemoveFromPluginSet_def Let_def map_of_update map_of_delete fun_eq_iff
        removeAll_filter_not_eq filter_empty_conv split: option.splits)
qed

section \<open>What the operations do\<close>

datatype handle_op =
    OpCreate obj HandleType "ctx option" | OpFree i32 | OpMarkClosed i32
  | OpTransfer i32 "ctx option" | OpTake ctx | OpClean

datatype handle_result = RHandle i32 | RBool bool | RTaken "(i32 \<times> Handle) list" | RVoid

fun run_handle_op :: "handle_op \<Rightarrow> HandleManager \<Rightarrow> (handle_result \<times> HandleManager) option" where
  "run_handle_op (OpCreate p t own) m = map_option (map_prod RHandle id) (CreateHandle p t own m)"
| "run_handle_op (OpFree i) m = Some (RVoid, FreeHandle i m)"
| "run_handle_op (OpMarkClosed i) m = Some (RVoid, MarkHandleClosed i m)"
| "run_handle_op (OpTransfer i own) m = Some (map_prod RBool id (TransferHandle i own m))"
| "run_handle_op (OpTake c) m = Some (map_prod RTaken id (TakePluginHandles c m))"
| "run_handle_op OpClean m = Some (RVoid, CleanHandles m)"

text \<open>The abstract table: handles to objects, with no second map to keep in step.\<close>

fun spec_handle_op ::
  "handle_op \<Rightarrow> (i32 \<Rightarrow> Handle option) \<Rightarrow> handle_result \<Rightarrow> (i32 \<Rightarrow> Handle option) \<Rightarrow> bool" where
  "spec_handle_op (OpCreate p t own) M r M' \<longleftrightarrow>
     (\<exists>i. r = RHandle i \<and> i \<noteq> 0 \<and> M i = None
        \<and> M' = M(i \<mapsto> \<lparr>htype = t, pointer = p, owner = own, closed = False\<rparr>))
     \<or> (r = RHandle 0 \<and> M' = M \<and> (\<forall>i. i \<noteq> 0 \<longrightarrow> M i \<noteq> None))"
| "spec_handle_op (OpFree i) M r M' \<longleftrightarrow> r = RVoid \<and> M' = M(i := None)"
| "spec_handle_op (OpMarkClosed i) M r M' \<longleftrightarrow>
     r = RVoid \<and> M' = M(i := map_option (\<lambda>h. h\<lparr>closed := True\<rparr>) (M i))"
| "spec_handle_op (OpTransfer i own) M r M' \<longleftrightarrow>
     (case M i of
        Some h \<Rightarrow> if closed h then r = RBool False \<and> M' = M
                  else r = RBool True \<and> M' = M(i \<mapsto> h\<lparr>owner := own\<rparr>)
      | None \<Rightarrow> r = RBool False \<and> M' = M)"
| "spec_handle_op (OpTake c) M r M' \<longleftrightarrow>
     (\<exists>hs. r = RTaken hs \<and> distinct (map fst hs)
        \<and> set hs = {(i, h\<lparr>owner := None\<rparr>) | i h. M i = Some h \<and> owner h = Some c})
     \<and> M' = (\<lambda>i. map_option (\<lambda>h. if owner h = Some c then h\<lparr>owner := None\<rparr> else h) (M i))"
| "spec_handle_op OpClean M r M' \<longleftrightarrow> r = RVoid \<and> M' = Map.empty"

lemma CreateHandle_refines:
  assumes "hm_ok m"
  shows "\<exists>r m'. run_handle_op (OpCreate p t own) m = Some (r, m') \<and> hm_ok m'
    \<and> spec_handle_op (OpCreate p t own) (used m) r (used m')"
proof -
  have "(\<exists>c. scan (used_handles m) (next_handle m) (next_handle m) = Some c \<and> c \<noteq> 0
        \<and> c \<notin> fst ` set (used_handles m))
    \<or> (scan (used_handles m) (next_handle m) (next_handle m) = Some 0
        \<and> (\<forall>i. i \<noteq> 0 \<longrightarrow> i \<in> fst ` set (used_handles m)))"
    by (rule scan_total) (use assms in \<open>simp add: hm_ok_def\<close>)
  then show ?thesis
  proof (elim disjE exE conjE)
    fix c
    assume c: "scan (used_handles m) (next_handle m) (next_handle m) = Some c" "c \<noteq> 0"
      "c \<notin> fst ` set (used_handles m)"
    let ?h = "\<lparr>htype = t, pointer = p, owner = own, closed = False\<rparr>"
    let ?m = "m\<lparr>next_handle := c + 1, used_handles := AList.update c ?h (used_handles m)\<rparr>"
    let ?m' = "case own of None \<Rightarrow> ?m | Some x \<Rightarrow> AddToPluginSet x c ?m"
    have run: "CreateHandle p t own m = Some (c, ?m')" using c by (simp add: CreateHandle_def Let_def split: option.split)
    have u: "used_handles ?m' = AList.update c ?h (used_handles m)" "next_handle ?m' = c + 1"
      by (simp_all split: option.splits)
    have none: "used m c = None" using c(3) by (simp add: map_of_eq_None_iff)
    have p: "plugin_sets_ok ?m" using assms by (simp add: hm_ok_def plugin_sets_ok_def)
    have "owned ?m = owned m" by (simp add: owned_def fun_eq_iff)
    then have ow: "owned ?m' = (case own of None \<Rightarrow> owned m | Some x \<Rightarrow> (owned m)(x := insert c (owned m x)))"
      using AddToPluginSet_ok(2) [OF p] by (cases own) simp_all
    have "index_ok ?m'"
      unfolding index_ok_def ow u(1) map_of_update using none index_okD [OF assms]
      by (auto split: option.splits if_splits)
    moreover have "plugin_sets_ok ?m'" using p AddToPluginSet_ok(1) [OF p] by (cases own) simp_all
    moreover have "c + 1 \<noteq> 1" using c(2) by simp
    moreover have "0 \<notin> fst ` set (AList.update c ?h (used_handles m))"
      using assms c(2,3) by (auto simp: hm_ok_def dom_update)
    ultimately have "hm_ok ?m'" using assms by (simp add: hm_ok_def u distinct_update)
    then show ?thesis using run none c(2) by (auto simp: u map_of_update)
  next
    assume "scan (used_handles m) (next_handle m) (next_handle m) = Some 0"
      "\<forall>i. i \<noteq> 0 \<longrightarrow> i \<in> fst ` set (used_handles m)"
    with assms show ?thesis by (auto simp: CreateHandle_def map_of_eq_None_iff)
  qed
qed

lemma create_cases:
  assumes "hm_ok m"
  obtains i m' where "CreateHandle p t own m = Some (i, m')" "i \<noteq> 0" "hm_ok m'" "used m i = None"
      "used m' = (used m)(i \<mapsto> \<lparr>htype = t, pointer = p, owner = own, closed = False\<rparr>)"
    | m' where "CreateHandle p t own m = Some (0, m')" "hm_ok m'" "used m' = used m"
proof -
  from CreateHandle_refines [OF assms, of p t own] obtain r m' where
    r: "run_handle_op (OpCreate p t own) m = Some (r, m')" "hm_ok m'"
      "spec_handle_op (OpCreate p t own) (used m) r (used m')" by blast
  then obtain i where i: "CreateHandle p t own m = Some (i, m')" "r = RHandle i" by auto
  with r that show ?thesis by auto
qed

lemma FreeHandle_deleted:
  "used m i = Some h \<Longrightarrow> htype h \<noteq> HANDLE_NONE \<Longrightarrow>
    drop (length (deleted m)) (deleted (FreeHandle i m)) = [(htype h, pointer h)]"
  by (auto simp: FreeHandle_def Let_def DeleteHandlePointer_def split: option.splits)

lemma GetHandle_Some: "GetHandle t i m = Some p \<Longrightarrow> \<exists>h. used m i = Some h \<and> htype h = t \<and> pointer h = p"
  by (auto simp: GetHandle_def split: option.splits if_splits)

lemma hm_ok_update:
  assumes "hm_ok m" "used m i = Some h" "used_handles m' = AList.update i h' (used_handles m)"
    and "next_handle m' = next_handle m" "plugin_sets_ok m'"
    and "\<And>c. owned m' c = {j. \<exists>g. ((used m)(i \<mapsto> h')) j = Some g \<and> owner g = Some c}"
  shows "hm_ok m'"
proof -
  have i: "i \<in> fst ` set (used_handles m)" using assms(2) by (force dest: map_of_SomeD)
  then have "fst ` set (used_handles m') = fst ` set (used_handles m)"
    using assms(3) by (auto simp: dom_update)
  moreover have "next_handle m \<noteq> 1" using assms(1) i by (auto simp: hm_ok_def)
  moreover have "index_ok m'" using assms(6) by (simp add: index_ok_def assms(3) map_of_update)
  ultimately show ?thesis using assms by (simp add: hm_ok_def distinct_update)
qed

lemma FreeHandle_refines:
  assumes "hm_ok m"
  shows "hm_ok (FreeHandle i m) \<and> used (FreeHandle i m) = (used m)(i := None)"
proof (cases "used m i")
  case None
  then show ?thesis using assms by (auto simp: FreeHandle_def)
next
  case (Some h)
  let ?m = "case owner h of None \<Rightarrow> m | Some c \<Rightarrow> RemoveFromPluginSet c i m"
  let ?m' = "FreeHandle i m"
  have u: "used_handles ?m' = AList.delete i (used_handles m)" "next_handle ?m' = next_handle m"
    "plugin_handles ?m' = plugin_handles ?m"
    using Some by (simp_all add: FreeHandle_def Let_def split: option.split)
  have p: "plugin_sets_ok m" using assms by (simp add: hm_ok_def)
  have "plugin_sets_ok ?m'"
    unfolding plugin_sets_ok_def u(3)
    using p RemoveFromPluginSet_ok(1) [OF p] by (cases "owner h") (simp_all add: plugin_sets_ok_def)
  moreover have "index_ok ?m'"
  proof -
    have "owned ?m' = owned ?m" by (simp add: owned_def u(3) fun_eq_iff)
    also have "\<dots> = (case owner h of None \<Rightarrow> owned m | Some c \<Rightarrow> (owned m)(c := owned m c - {i}))"
      using RemoveFromPluginSet_ok(2) [OF p] by (cases "owner h") simp_all
    finally show ?thesis
      unfolding index_ok_def u(1) map_of_delete using Some index_okD [OF assms]
      by (auto split: option.splits if_splits)
  qed
  moreover have "0 \<notin> set (map fst (AList.delete i (used_handles m)))"
    using assms by (simp add: delete_keys hm_ok_def)
  ultimately have "hm_ok ?m'"
    using assms by (auto simp: hm_ok_def u distinct_delete)
  then show ?thesis by (simp add: u map_of_delete)
qed

lemma MarkHandleClosed_refines:
  assumes "hm_ok m"
  shows "hm_ok (MarkHandleClosed i m)
    \<and> used (MarkHandleClosed i m) = (used m)(i := map_option (\<lambda>h. h\<lparr>closed := True\<rparr>) (used m i))"
proof (cases "used m i")
  case None
  then show ?thesis using assms by (auto simp: MarkHandleClosed_def)
next
  case (Some h)
  let ?m' = "MarkHandleClosed i m"
  have m': "?m' = m\<lparr>used_handles := AList.update i (h\<lparr>closed := True\<rparr>) (used_handles m)\<rparr>"
    using Some by (simp add: MarkHandleClosed_def)
  have "hm_ok ?m'"
  proof (rule hm_ok_update [OF assms Some, where h' = "h\<lparr>closed := True\<rparr>"])
    show "plugin_sets_ok ?m'" using assms by (simp add: m' hm_ok_def plugin_sets_ok_def)
    have "owned ?m' c = owned m c" for c by (simp add: m' owned_def)
    then show "owned ?m' c = {j. \<exists>g. ((used m)(i \<mapsto> h\<lparr>closed := True\<rparr>)) j = Some g \<and> owner g = Some c}" for c
      using Some index_okD [OF assms] by auto
  qed (simp_all add: m')
  then show ?thesis using Some by (simp add: m' map_of_update)
qed

lemma TransferHandle_refines:
  assumes "hm_ok m"
  shows "\<exists>b m'. TransferHandle i own m = (b, m') \<and> hm_ok m'
    \<and> spec_handle_op (OpTransfer i own) (used m) (RBool b) (used m')"
proof (cases "used m i")
  case None
  then show ?thesis using assms by (auto simp: TransferHandle_def)
next
  case (Some h)
  consider "closed h" | "\<not> closed h" "owner h = own" | "\<not> closed h" "owner h \<noteq> own" by blast
  then show ?thesis
  proof cases
    case 1
    then show ?thesis using Some assms by (auto simp: TransferHandle_def)
  next
    case 2
    then have "(used m)(i \<mapsto> h\<lparr>owner := own\<rparr>) = used m" using Some by (auto simp: fun_eq_iff)
    then show ?thesis using 2 Some assms by (auto simp: TransferHandle_def)
  next
    case 3
    let ?m1 = "case owner h of None \<Rightarrow> m | Some c \<Rightarrow> RemoveFromPluginSet c i m"
    let ?m2 = "?m1\<lparr>used_handles := AList.update i (h\<lparr>owner := own\<rparr>) (used_handles ?m1)\<rparr>"
    let ?m' = "case own of None \<Rightarrow> ?m2 | Some c \<Rightarrow> AddToPluginSet c i ?m2"
    have run: "TransferHandle i own m = (True, ?m')" using 3 Some by (simp add: TransferHandle_def Let_def)
    have u: "used_handles ?m' = AList.update i (h\<lparr>owner := own\<rparr>) (used_handles m)" "next_handle ?m' = next_handle m"
      by (cases own; cases "owner h"; simp)+
    have p: "plugin_sets_ok m" using assms by (simp add: hm_ok_def)
    then have p1: "plugin_sets_ok ?m1" by (cases "owner h") (simp_all add: RemoveFromPluginSet_ok)
    then have p2: "plugin_sets_ok ?m2" by (simp add: plugin_sets_ok_def)
    have "owned ?m2 = owned ?m1" by (simp add: owned_def fun_eq_iff)
    also have "\<dots> = (case owner h of None \<Rightarrow> owned m | Some c \<Rightarrow> (owned m)(c := owned m c - {i}))"
      by (cases "owner h") (simp_all add: RemoveFromPluginSet_ok [OF p])
    finally have o2: "owned ?m2 = (case owner h of None \<Rightarrow> owned m | Some c \<Rightarrow> (owned m)(c := owned m c - {i}))" .
    have o: "owned ?m' = (case own of None \<Rightarrow> owned ?m2 | Some c \<Rightarrow> (owned ?m2)(c := insert i (owned ?m2 c)))"
      using AddToPluginSet_ok(2) [OF p2] by (cases own) simp_all
    have "hm_ok ?m'"
    proof (rule hm_ok_update [OF assms Some u])
      show "plugin_sets_ok ?m'" using p2 AddToPluginSet_ok(1) [OF p2] by (cases own) simp_all
      show "owned ?m' c = {j. \<exists>g. ((used m)(i \<mapsto> h\<lparr>owner := own\<rparr>)) j = Some g \<and> owner g = Some c}" for c
        unfolding o o2 using Some 3(2) index_okD [OF assms]
        by (auto split: option.splits if_splits)
    qed
    then show ?thesis using run 3 Some by (intro exI [of _ True] exI [of _ ?m']) (simp add: u map_of_update)
  qed
qed

lemma take_fold:
  assumes "distinct ids" "set ids \<subseteq> dom (used m)" "distinct (map fst (used_handles m))"
  shows "\<exists>u. fold take_handle ids (res, m)
      = (res @ map (\<lambda>i. (i, (the (used m i))\<lparr>owner := None\<rparr>)) ids, m\<lparr>used_handles := u\<rparr>)
    \<and> map fst u = map fst (used_handles m)
    \<and> map_of u = (\<lambda>j. if j \<in> set ids then map_option (\<lambda>h. h\<lparr>owner := None\<rparr>) (used m j) else used m j)"
  using assms
proof (induction ids arbitrary: res m)
  case Nil
  show ?case by (intro exI [of _ "used_handles m"]) (simp add: fun_eq_iff)
next
  case (Cons i ids)
  obtain h where h: "used m i = Some h" using Cons.prems(2) by auto
  let ?u = "AList.update i (h\<lparr>owner := None\<rparr>) (used_handles m)"
  let ?m = "m\<lparr>used_handles := ?u\<rparr>"
  have "i \<in> set (map fst (used_handles m))" using map_of_SomeD [OF h] by force
  then have k: "map fst ?u = map fst (used_handles m)" by (simp add: update_keys)
  have used: "used ?m = (used m)(i \<mapsto> h\<lparr>owner := None\<rparr>)" by (simp add: map_of_update)
  have pr: "distinct ids" "set ids \<subseteq> dom (used ?m)" "distinct (map fst (used_handles ?m))"
    using Cons.prems k unfolding used by auto
  obtain u where u: "fold take_handle ids (res @ [(i, h\<lparr>owner := None\<rparr>)], ?m)
      = ((res @ [(i, h\<lparr>owner := None\<rparr>)]) @ map (\<lambda>i. (i, (the (used ?m i))\<lparr>owner := None\<rparr>)) ids, ?m\<lparr>used_handles := u\<rparr>)"
    "map fst u = map fst (used_handles ?m)"
    "map_of u = (\<lambda>j. if j \<in> set ids then map_option (\<lambda>h. h\<lparr>owner := None\<rparr>) (used ?m j) else used ?m j)"
    using Cons.IH [OF pr, of "res @ [(i, h\<lparr>owner := None\<rparr>)]"] by blast
  have "map (\<lambda>i. (i, (the (used ?m i))\<lparr>owner := None\<rparr>)) ids = map (\<lambda>i. (i, (the (used m i))\<lparr>owner := None\<rparr>)) ids"
    using Cons.prems(1) by (auto simp: map_of_update)
  moreover have "take_handle i (res, m) = (res @ [(i, h\<lparr>owner := None\<rparr>)], ?m)"
    using h by (simp add: take_handle_def)
  ultimately show ?case
    using u k h Cons.prems(1) by (intro exI [of _ u]) (auto simp: map_of_update fun_eq_iff)
qed

lemma TakePluginHandles_refines:
  assumes "hm_ok m"
  shows "\<exists>hs m'. TakePluginHandles c m = (hs, m') \<and> hm_ok m'
    \<and> spec_handle_op (OpTake c) (used m) (RTaken hs) (used m')"
proof (cases "map_of (plugin_handles m) c")
  case None
  then have none: "owner h \<noteq> Some c" if "used m i = Some h" for i h
    using index_okD [OF assms, of c] that by (auto simp: owned_def)
  have same: "(\<lambda>i. map_option (\<lambda>h. if owner h = Some c then h\<lparr>owner := None\<rparr> else h) (used m i)) = used m"
  proof
    fix i
    show "map_option (\<lambda>h. if owner h = Some c then h\<lparr>owner := None\<rparr> else h) (used m i) = used m i"
      by (cases "used m i") (simp_all add: none)
  qed
  show ?thesis
    by (intro exI [of _ "[]"] exI [of _ m])
       (use None none assms in \<open>simp add: TakePluginHandles_def same\<close>)
next
  case (Some ids)
  let ?m = "m\<lparr>plugin_handles := AList.delete c (plugin_handles m)\<rparr>"
  have ids: "set ids = {i. \<exists>h. used m i = Some h \<and> owner h = Some c}" "distinct ids"
    using index_okD [OF assms, of c] Some assms by (simp_all add: owned_def hm_ok_def plugin_sets_ok_def)
  have pr: "set ids \<subseteq> dom (used ?m)" "distinct (map fst (used_handles ?m))"
    using ids assms by (auto simp: hm_ok_def)
  obtain u where u: "fold take_handle ids ([], ?m)
      = ([] @ map (\<lambda>i. (i, (the (used ?m i))\<lparr>owner := None\<rparr>)) ids, ?m\<lparr>used_handles := u\<rparr>)"
    "map fst u = map fst (used_handles ?m)"
    "map_of u = (\<lambda>j. if j \<in> set ids then map_option (\<lambda>h. h\<lparr>owner := None\<rparr>) (used ?m j) else used ?m j)"
    using take_fold [OF ids(2) pr, of "[]"] by blast
  let ?m' = "?m\<lparr>used_handles := u\<rparr>"
  let ?hs = "map (\<lambda>i. (i, (the (used m i))\<lparr>owner := None\<rparr>)) ids"
  have run: "TakePluginHandles c m = (?hs, ?m')" using Some u(1) by (simp add: TakePluginHandles_def)
  have us: "map_of u = (\<lambda>i. map_option (\<lambda>h. if owner h = Some c then h\<lparr>owner := None\<rparr> else h) (used m i))"
  proof
    fix i
    show "map_of u i = map_option (\<lambda>h. if owner h = Some c then h\<lparr>owner := None\<rparr> else h) (used m i)"
      using fun_cong [OF u(3), of i] ids(1) by (cases "used m i") simp_all
  qed
  have ow: "owned ?m' = (owned m)(c := {})" by (auto simp: owned_def map_of_delete fun_eq_iff)
  have "index_ok ?m'"
    using index_okD [OF assms] by (fastforce simp: index_ok_def ow us split: if_splits)
  moreover have "plugin_sets_ok ?m'"
    using assms by (simp add: hm_ok_def plugin_sets_ok_def distinct_delete map_of_delete)
  moreover have "u = [] \<longleftrightarrow> used_handles m = []" using arg_cong [OF u(2), of length] by auto
  moreover have "0 \<notin> fst ` set u" using arg_cong [OF u(2), of set] assms by (simp add: hm_ok_def)
  ultimately have "hm_ok ?m'" using assms u(2) by (simp add: hm_ok_def)
  moreover have "set ?hs = {(i, h\<lparr>owner := None\<rparr>) | i h. used m i = Some h \<and> owner h = Some c}"
    using ids(1) by force
  moreover have "distinct (map fst ?hs)" using ids(2) by (simp add: comp_def)
  ultimately show ?thesis using run us by simp
qed

lemma CleanHandles_refines:
  assumes "hm_ok m"
  shows "hm_ok (CleanHandles m) \<and> used_handles (CleanHandles m) = []"
proof -
  have "next_handle (fold (\<lambda>(i, h). DeleteHandlePointer h) hs n) = next_handle n" for hs n
    by (induction hs arbitrary: n) (auto simp: case_prod_unfold)
  then show ?thesis
    using assms
    by (simp add: CleanHandles_def hm_ok_def plugin_sets_ok_def index_ok_def owned_def)
qed

lemma run_handle_op_refines:
  assumes "hm_ok m"
  shows "\<exists>r m'. run_handle_op op m = Some (r, m') \<and> hm_ok m' \<and> spec_handle_op op (used m) r (used m')"
proof (cases op)
  case (OpCreate p t own)
  with CreateHandle_refines [OF assms] show ?thesis by blast
next
  case (OpTransfer i own)
  obtain b m' where "TransferHandle i own m = (b, m')" "hm_ok m'"
    "spec_handle_op (OpTransfer i own) (used m) (RBool b) (used m')"
    using TransferHandle_refines [OF assms] by blast
  with OpTransfer show ?thesis by (simp del: spec_handle_op.simps)
next
  case (OpTake c)
  obtain hs m' where "TakePluginHandles c m = (hs, m')" "hm_ok m'"
    "spec_handle_op (OpTake c) (used m) (RTaken hs) (used m')"
    using TakePluginHandles_refines [OF assms] by blast
  with OpTake show ?thesis by (simp del: spec_handle_op.simps)
qed (use assms in \<open>simp_all add: FreeHandle_refines MarkHandleClosed_refines CleanHandles_refines\<close>)

interpretation hm: refinement run_handle_op spec_handle_op used hm_ok "\<lambda>k m. True"
  by unfold_locales (use run_handle_op_refines in auto)

lemma hm_init_ok: "hm_ok HandleManager_init" "used HandleManager_init = Map.empty"
  by (simp_all add: HandleManager_init_def hm_ok_def plugin_sets_ok_def index_ok_def owned_def)

text \<open>C22: every sequence of calls on a new handle table ends, and each call does on the pair of maps
  what the abstract table prescribes: a new handle is nonzero and not in use, or 0 when all numbers
  are in use; taking a plugin's handles gives exactly the handles it owns.\<close>

theorem HandleManager_refines:
  "\<exists>rs m. run_all run_handle_op ops HandleManager_init = Some (rs, m) \<and> hm_ok m
    \<and> spec_all spec_handle_op ops Map.empty rs (used m)"
  using hm.runs [OF hm_init_ok(1), of ops] by (simp add: hm_init_ok(2))

section \<open>Deleting the objects\<close>

definition obj_of :: "i32 \<times> Handle \<Rightarrow> HandleType \<times> obj" where
  "obj_of p = (htype (snd p), pointer (snd p))"

text \<open>The objects that are deleted or still behind a handle.\<close>

definition objects :: "HandleManager \<Rightarrow> (HandleType \<times> obj) multiset" where
  "objects m = mset (deleted m) + mset (map obj_of (used_handles m))"

definition typed :: "HandleManager \<Rightarrow> bool" where
  "typed m \<longleftrightarrow> (\<forall>h \<in> ran (used m). htype h \<noteq> HANDLE_NONE)"

lemma update_same_obj:
  assumes "map_of al i = Some h" "htype h' = htype h" "pointer h' = pointer h"
  shows "map obj_of (AList.update i h' al) = map obj_of al"
  using assms by (induction al) (auto simp: obj_of_def split: if_splits)

lemma delete_obj:
  assumes "distinct (map fst al)" "map_of al i = Some h"
  shows "mset (map obj_of al) = add_mset (htype h, pointer h) (mset (map obj_of (AList.delete i al)))"
proof -
  have "(i, h) \<in># mset al" using map_of_SomeD [OF assms(2)] by simp
  then obtain M where M: "mset al = add_mset (i, h) M" by (metis mset_add)
  then show ?thesis using delete_key [OF assms(1) M] by (simp add: obj_of_def)
qed

lemma objects_same:
  assumes "deleted m' = deleted m" "map obj_of (used_handles m') = map obj_of (used_handles m)"
  shows "objects m' = objects m"
  using assms by (simp add: objects_def)

lemma take_handle_objects:
  "map obj_of (used_handles (snd (fold take_handle ids (res, m)))) = map obj_of (used_handles m)
   \<and> deleted (snd (fold take_handle ids (res, m))) = deleted m"
proof (induction ids arbitrary: res m)
  case (Cons i ids)
  obtain res1 m1 where 1: "take_handle i (res, m) = (res1, m1)" by force
  then have "map obj_of (used_handles m1) = map obj_of (used_handles m) \<and> deleted m1 = deleted m"
    by (auto simp: take_handle_def update_same_obj split: option.splits)
  with Cons.IH [of res1 m1] 1 show ?case by simp
qed simp

text \<open>The object a call adds to the table.\<close>

fun created :: "handle_op \<Rightarrow> handle_result \<Rightarrow> (HandleType \<times> obj) list" where
  "created (OpCreate p t own) (RHandle i) = (if i = 0 then [] else [(t, p)])"
| "created op r = []"

fun typed_op :: "handle_op \<Rightarrow> bool" where
  "typed_op (OpCreate p t own) \<longleftrightarrow> t \<noteq> HANDLE_NONE"
| "typed_op op \<longleftrightarrow> True"

lemma CleanHandles_deleted:
  assumes "\<forall>p \<in> set (used_handles m). htype (snd p) \<noteq> HANDLE_NONE"
  shows "deleted (CleanHandles m) = deleted m @ map obj_of (used_handles m)"
proof -
  have "deleted (fold (\<lambda>(i, h). DeleteHandlePointer h) hs n) = deleted n @ map obj_of hs"
    if "\<forall>p \<in> set hs. htype (snd p) \<noteq> HANDLE_NONE" for hs n
    using that by (induction hs arbitrary: n) (auto simp: DeleteHandlePointer_def obj_of_def case_prod_unfold)
  with assms show ?thesis by (simp add: CleanHandles_def)
qed

lemma run_handle_op_objects:
  assumes "hm_ok m" "typed m" "typed_op op" "run_handle_op op m = Some (r, m')"
  shows "objects m' = objects m + mset (created op r)"
proof (cases op)
  case (OpCreate p t own)
  then obtain i where run: "CreateHandle p t own m = Some (i, m')" "r = RHandle i" using assms(4) by auto
  show ?thesis
  proof (cases "i = 0")
    case True
    with run OpCreate show ?thesis
      by (auto simp: CreateHandle_def Let_def split: option.splits if_splits)
  next
    case False
    have "used m i = None" using CreateHandle_refines [OF assms(1), of p t own] run False by auto
    with run False OpCreate show ?thesis
      by (auto simp: CreateHandle_def Let_def objects_def obj_of_def update_fresh map_of_eq_None_iff
          split: option.splits if_splits)
  qed
next
  case (OpFree i)
  then have m': "m' = FreeHandle i m" "r = RVoid" using assms(4) by auto
  show ?thesis
  proof (cases "used m i")
    case (Some h)
    have "htype h \<noteq> HANDLE_NONE" using assms(2) Some by (auto simp: typed_def ran_def)
    moreover have "distinct (map fst (used_handles m))" using assms(1) by (simp add: hm_ok_def)
    ultimately show ?thesis using Some OpFree delete_obj [OF _ Some]
      by (auto simp: m' FreeHandle_def Let_def objects_def DeleteHandlePointer_def split: option.splits)
  qed (simp add: OpFree m' FreeHandle_def)
next
  case OpClean
  have "\<forall>p \<in> set (used_handles m). htype (snd p) \<noteq> HANDLE_NONE"
    using assms(1,2) by (force simp: typed_def ran_def hm_ok_def map_of_eq_Some_iff)
  from CleanHandles_deleted [OF this] CleanHandles_refines [OF assms(1)] OpClean assms(4) show ?thesis
    by (auto simp: objects_def)
next
  case (OpTake c)
  then have "m' = snd (TakePluginHandles c m)" using assms(4) by (auto simp: map_prod_def split: prod.splits)
  moreover have "objects (snd (TakePluginHandles c m)) = objects m"
    by (cases "map_of (plugin_handles m) c")
       (auto simp: TakePluginHandles_def take_handle_objects intro!: objects_same)
  ultimately show ?thesis using OpTake by simp
qed (use assms(4) in \<open>auto simp: MarkHandleClosed_def TransferHandle_def Let_def update_same_obj
      intro!: objects_same split: option.splits if_splits\<close>)

lemma spec_typed:
  assumes "spec_handle_op op M r M'" "typed_op op" "\<forall>h \<in> ran M. htype h \<noteq> HANDLE_NONE"
  shows "\<forall>h \<in> ran M'. htype h \<noteq> HANDLE_NONE"
  using assms
  by (cases op) (fastforce simp: ran_def split: option.splits if_splits)+

primrec all_created :: "handle_op list \<Rightarrow> handle_result list \<Rightarrow> (HandleType \<times> obj) list" where
  "all_created [] rs = []"
| "all_created (op # ops) rs = (case rs of [] \<Rightarrow> [] | r # rs' \<Rightarrow> created op r @ all_created ops rs')"

lemma run_all_objects:
  assumes "hm_ok m" "typed m" "\<forall>op \<in> set ops. typed_op op" "run_all run_handle_op ops m = Some (rs, m')"
  shows "objects m' = objects m + mset (all_created ops rs) \<and> hm_ok m' \<and> typed m'"
  using assms
proof (induction ops arbitrary: m rs)
  case (Cons op ops)
  obtain r m1 rs' where 1: "run_handle_op op m = Some (r, m1)" "run_all run_handle_op ops m1 = Some (rs', m')"
    "rs = r # rs'" using Cons.prems(4) by (auto split: option.splits prod.splits)
  have ok: "hm_ok m1" "spec_handle_op op (used m) r (used m1)"
    using run_handle_op_refines [OF Cons.prems(1), of op] 1(1) by auto
  have "typed m1" using spec_typed [OF ok(2)] Cons.prems(2,3) by (simp add: typed_def)
  with Cons.IH [OF ok(1) _ _ 1(2)] Cons.prems(3) run_handle_op_objects [OF Cons.prems(1,2) _ 1(1)] 1(3)
  show ?case by simp
qed simp

text \<open>C26: after any sequence of calls, cleaning up deletes what is left, and in the whole run every
  object that got a handle is deleted exactly once: none twice, none never.\<close>

theorem objects_deleted_once:
  assumes "run_all run_handle_op ops HandleManager_init = Some (rs, m)" "\<forall>op \<in> set ops. typed_op op"
  shows "mset (deleted (CleanHandles m)) = mset (all_created ops rs)"
proof -
  have "typed HandleManager_init" by (simp add: typed_def HandleManager_init_def)
  from run_all_objects [OF hm_init_ok(1) this assms(2,1)]
  have m: "objects m = mset (all_created ops rs)" "hm_ok m" "typed m"
    by (simp_all add: objects_def HandleManager_init_def)
  then have "\<forall>p \<in> set (used_handles m). htype (snd p) \<noteq> HANDLE_NONE"
    by (force simp: typed_def ran_def hm_ok_def map_of_eq_Some_iff)
  from CleanHandles_deleted [OF this] m(1) show ?thesis by (simp add: objects_def)
qed

theorem objects_deleted_once_witness:
  "\<exists>rs m. run_all run_handle_op [OpCreate 7 HANDLE_LINKED_LIST (Some 1), OpCreate 8 HANDLE_ITERATOR None, OpFree 1]
      HandleManager_init = Some (rs, m)
    \<and> mset (deleted (CleanHandles m))
      = mset (all_created [OpCreate 7 HANDLE_LINKED_LIST (Some 1), OpCreate 8 HANDLE_ITERATOR None, OpFree 1] rs)"
proof -
  let ?ops = "[OpCreate 7 HANDLE_LINKED_LIST (Some 1), OpCreate 8 HANDLE_ITERATOR None, OpFree 1]"
  obtain rs m where r: "run_all run_handle_op ?ops HandleManager_init = Some (rs, m)"
    using hm.runs [OF hm_init_ok(1) TrueI, of ?ops] by blast
  have "\<forall>op \<in> set ?ops. typed_op op" by simp
  from objects_deleted_once [OF r this] r show ?thesis by blast
qed

end
