(* ===== verification/Hjson_Scan.thy ===== *)
theory Hjson_Scan
  imports Async2_Prelude
begin

text \<open>
  The character table and the scanners of the Hjson parser
  (\<^verbatim>\<open>src/hjson/hjson_parse.cpp\<close>): the scalar loops, the AVX2 loops over blocks of 32
  bytes, the table of function pointers that is filled at start-up, and the contract the parser
  relies on.  Both fillings of the table meet the contract wherever 32 bytes behind the text may
  be read.
\<close>

section \<open>Character table\<close>

definition CC_WS :: byte where "CC_WS = 1"
definition CC_NL :: byte where "CC_NL = 2"
definition CC_STRUCT :: byte where "CC_STRUCT = 4"
definition CC_QUOTE :: byte where "CC_QUOTE = 8"
definition CC_BSLASH :: byte where "CC_BSLASH = 16"
definition CC_HASH :: byte where "CC_HASH = 32"
definition CC_SLASH :: byte where "CC_SLASH = 64"
definition CC_SQUOTE :: byte where "CC_SQUOTE = 128"

lemmas cc_masks = CC_WS_def CC_NL_def CC_STRUCT_def CC_QUOTE_def CC_BSLASH_def CC_HASH_def
  CC_SLASH_def CC_SQUOTE_def

abbreviation LF :: char where "LF \<equiv> CHR 0x0A"
abbreviation CR :: char where "CR \<equiv> CHR 0x0D"
abbreviation TAB :: char where "TAB \<equiv> CHR 0x09"
abbreviation NUL :: char where "NUL \<equiv> CHR 0x00"
abbreviation SQUOTE :: char where "SQUOTE \<equiv> CHR 0x27"
abbreviation DQUOTE :: char where "DQUOTE \<equiv> CHR 0x22"
abbreviation BACKSLASH :: char where "BACKSLASH \<equiv> CHR 0x5C"

definition init_char_table :: "byte list" where
  "init_char_table = fold (\<lambda>(c, b) t. t[code c := b])
     [(CHR '' '', CC_WS), (TAB, CC_WS), (CR, CC_WS OR CC_NL), (LF, CC_WS OR CC_NL),
      (CHR ''{'', CC_STRUCT), (CHR ''}'', CC_STRUCT), (CHR ''['', CC_STRUCT), (CHR '']'', CC_STRUCT),
      (CHR '','', CC_STRUCT), (CHR '':'', CC_STRUCT), (DQUOTE, CC_QUOTE), (SQUOTE, CC_QUOTE OR CC_SQUOTE),
      (BACKSLASH, CC_BSLASH), (CHR ''#'', CC_HASH), (CHR ''/'', CC_SLASH)]
     (replicate 256 0)"

definition cc :: "char \<Rightarrow> byte" where
  "cc c = init_char_table ! code c"

text \<open>\<open>has_class m c\<close> is the test \<^verbatim>\<open>cc(c) & m\<close> of the code.\<close>

definition has_class :: "byte \<Rightarrow> char \<Rightarrow> bool" where
  "has_class m c \<longleftrightarrow> cc c AND m \<noteq> 0"

section \<open>Scalar scanners\<close>

text \<open>The four loops.  The text starts at the head of \<open>buf\<close>; \<open>len\<close> of its characters count.\<close>

function skip_loop :: "(char \<Rightarrow> bool) \<Rightarrow> string \<Rightarrow> nat \<Rightarrow> nat \<Rightarrow> nat" where
  "skip_loop P buf len i = (if i < len \<and> P (buf ! i) then skip_loop P buf len (i + 1) else i)"
  by auto
termination by (relation "measure (\<lambda>(P, buf, len, i). len - i)") auto

function find_loop :: "(char \<Rightarrow> bool) \<Rightarrow> string \<Rightarrow> nat \<Rightarrow> nat \<Rightarrow> nat" where
  "find_loop P buf len i =
     (if i < len then if P (buf ! i) then i else find_loop P buf len (i + 1) else len)"
  by auto
termination by (relation "measure (\<lambda>(P, buf, len, i). len - i)") auto

declare skip_loop.simps [simp del] find_loop.simps [simp del]

definition skip_ws_scalar :: "string \<Rightarrow> nat \<Rightarrow> nat outcome" where
  "skip_ws_scalar buf len = Value (skip_loop (has_class CC_WS) buf len 0)"

definition find_quote_or_special_scalar :: "string \<Rightarrow> nat \<Rightarrow> char \<Rightarrow> nat outcome" where
  "find_quote_or_special_scalar buf len quote =
     Value (find_loop (\<lambda>c. c = quote \<or> c = BACKSLASH \<or> c = LF \<or> c = CR) buf len 0)"

definition find_newline_scalar :: "string \<Rightarrow> nat \<Rightarrow> nat outcome" where
  "find_newline_scalar buf len = Value (find_loop (\<lambda>c. c = LF \<or> c = CR) buf len 0)"

definition find_char_scalar :: "string \<Rightarrow> nat \<Rightarrow> char \<Rightarrow> nat outcome" where
  "find_char_scalar buf len target = Value (find_loop (\<lambda>c. c = target) buf len 0)"

section \<open>AVX2 scanners\<close>

text \<open>A 256-bit register is the list of its 32 bytes.  A load that leaves the buffer is a fault.\<close>

type_synonym m256i = "byte list"

definition mm256_set1_epi8 :: "char \<Rightarrow> m256i" where
  "mm256_set1_epi8 c = replicate 32 (byte_of c)"

definition mm256_loadu_si256 :: "string \<Rightarrow> nat \<Rightarrow> m256i outcome" where
  "mm256_loadu_si256 buf i =
     (if i + 32 \<le> length buf then Value (map byte_of (take 32 (drop i buf))) else Fault)"

definition mm256_cmpeq_epi8 :: "m256i \<Rightarrow> m256i \<Rightarrow> m256i" where
  "mm256_cmpeq_epi8 v w = map2 (\<lambda>a b. if a = b then 0xFF else 0) v w"

definition mm256_or_si256 :: "m256i \<Rightarrow> m256i \<Rightarrow> m256i" where
  "mm256_or_si256 v w = map2 (OR) v w"

definition mm256_movemask_epi8 :: "m256i \<Rightarrow> u32" where
  "mm256_movemask_epi8 v = horner_sum of_bool 2 (map (\<lambda>b. bit b 7) v)"

text \<open>The number of zero bits below the lowest one bit.\<close>

definition hjson_ctz :: "u32 \<Rightarrow> nat" where
  "hjson_ctz x = length (takeWhile (\<lambda>i. \<not> bit x i) [0..<32])"

function skip_ws_avx2_loop :: "string \<Rightarrow> nat \<Rightarrow> nat \<Rightarrow> nat outcome" where
  "skip_ws_avx2_loop buf len i =
     (if i < len then
        and_then (mm256_loadu_si256 buf i) (\<lambda>v.
          let m = mm256_or_si256
                (mm256_or_si256 (mm256_cmpeq_epi8 v (mm256_set1_epi8 CHR '' ''))
                                (mm256_cmpeq_epi8 v (mm256_set1_epi8 TAB)))
                (mm256_or_si256 (mm256_cmpeq_epi8 v (mm256_set1_epi8 CR))
                                (mm256_cmpeq_epi8 v (mm256_set1_epi8 LF)));
              mask = mm256_movemask_epi8 m
          in if mask \<noteq> 0xFFFFFFFF then
               let pos = i + hjson_ctz (NOT mask) in Value (if pos < len then pos else len)
             else skip_ws_avx2_loop buf len (i + 32))
      else Value len)"
  by auto
termination by (relation "measure (\<lambda>(buf, len, i). len - i)") auto

definition skip_ws_avx2 :: "string \<Rightarrow> nat \<Rightarrow> nat outcome" where
  "skip_ws_avx2 buf len = skip_ws_avx2_loop buf len 0"

text \<open>The loop the three searches share; \<open>match\<close> computes the register of matching bytes.\<close>

function find_avx2_loop :: "(m256i \<Rightarrow> m256i) \<Rightarrow> string \<Rightarrow> nat \<Rightarrow> nat \<Rightarrow> nat outcome" where
  "find_avx2_loop match buf len i =
     (if i < len then
        and_then (mm256_loadu_si256 buf i) (\<lambda>v.
          let mask = mm256_movemask_epi8 (match v)
          in if mask \<noteq> 0 then
               let pos = i + hjson_ctz mask in Value (if pos < len then pos else len)
             else find_avx2_loop match buf len (i + 32))
      else Value len)"
  by auto
termination by (relation "measure (\<lambda>(match, buf, len, i). len - i)") auto

declare skip_ws_avx2_loop.simps [simp del] find_avx2_loop.simps [simp del]

definition find_quote_or_special_avx2 :: "string \<Rightarrow> nat \<Rightarrow> char \<Rightarrow> nat outcome" where
  "find_quote_or_special_avx2 buf len quote =
     find_avx2_loop (\<lambda>v. mm256_or_si256
       (mm256_or_si256 (mm256_cmpeq_epi8 v (mm256_set1_epi8 quote)) (mm256_cmpeq_epi8 v (mm256_set1_epi8 BACKSLASH)))
       (mm256_or_si256 (mm256_cmpeq_epi8 v (mm256_set1_epi8 LF)) (mm256_cmpeq_epi8 v (mm256_set1_epi8 CR))))
     buf len 0"

definition find_newline_avx2 :: "string \<Rightarrow> nat \<Rightarrow> nat outcome" where
  "find_newline_avx2 buf len =
     find_avx2_loop (\<lambda>v. mm256_or_si256 (mm256_cmpeq_epi8 v (mm256_set1_epi8 LF))
       (mm256_cmpeq_epi8 v (mm256_set1_epi8 CR))) buf len 0"

definition find_char_avx2 :: "string \<Rightarrow> nat \<Rightarrow> char \<Rightarrow> nat outcome" where
  "find_char_avx2 buf len target =
     find_avx2_loop (\<lambda>v. mm256_cmpeq_epi8 v (mm256_set1_epi8 target)) buf len 0"

section \<open>The table of scanners\<close>

record Scanner =
  scan_skip_ws :: "string \<Rightarrow> nat \<Rightarrow> nat outcome"
  find_quote_special :: "string \<Rightarrow> nat \<Rightarrow> char \<Rightarrow> nat outcome"
  find_newline :: "string \<Rightarrow> nat \<Rightarrow> nat outcome"
  find_char :: "string \<Rightarrow> nat \<Rightarrow> char \<Rightarrow> nat outcome"

text \<open>\<open>no_simd\<close>: the environment variable \<^verbatim>\<open>HJSON_NO_SIMD\<close> is set; \<open>avx2\<close>: what
  \<^verbatim>\<open>detect_avx2\<close> finds out about the processor.\<close>

definition init_scanner :: "bool \<Rightarrow> bool \<Rightarrow> Scanner" where
  "init_scanner no_simd avx2 =
     (if \<not> no_simd \<and> avx2 then
        \<lparr>scan_skip_ws = skip_ws_avx2, find_quote_special = find_quote_or_special_avx2,
         find_newline = find_newline_avx2, find_char = find_char_avx2\<rparr>
      else
        \<lparr>scan_skip_ws = skip_ws_scalar, find_quote_special = find_quote_or_special_scalar,
         find_newline = find_newline_scalar, find_char = find_char_scalar\<rparr>)"

section \<open>The classes\<close>

lemma code_less_256: "code c < 256"
  using of_char_mod_256 [of c, where ?'a = nat] by (metis mod_less_divisor zero_less_numeral)

lemma cc_alt:
  "cc c = (if c = CHR ''/'' then CC_SLASH else if c = CHR ''#'' then CC_HASH
     else if c = BACKSLASH then CC_BSLASH else if c = SQUOTE then CC_QUOTE OR CC_SQUOTE
     else if c = DQUOTE then CC_QUOTE
     else if c = CHR '':'' \<or> c = CHR '','' \<or> c = CHR '']'' \<or> c = CHR ''['' \<or> c = CHR ''}'' \<or> c = CHR ''{''
       then CC_STRUCT
     else if c = LF \<or> c = CR then CC_WS OR CC_NL
     else if c = TAB \<or> c = CHR '' '' then CC_WS else 0)"
proof -
  have put: "length t = 256 \<Longrightarrow> t[code d := b] ! code c = (if c = d then b else t ! code c)"
    for t :: "byte list" and d b using code_less_256 [of c] by (simp add: nth_list_update eq_commute)
  have len: "length t = 256 \<Longrightarrow> length (t[i := b]) = 256" for t :: "byte list" and i b by simp
  show ?thesis
    unfolding cc_def init_char_table_def
    by (simp only: fold.simps case_prod_conv o_apply id_apply put len length_replicate
        nth_replicate [OF code_less_256]) simp
qed

lemma has_class_iff:
  "has_class CC_WS c \<longleftrightarrow> c = CHR '' '' \<or> c = TAB \<or> c = CR \<or> c = LF"
  "has_class CC_NL c \<longleftrightarrow> c = CR \<or> c = LF"
  "has_class CC_STRUCT c \<longleftrightarrow> c \<in> {CHR '':'', CHR '','', CHR '']'', CHR ''['', CHR ''}'', CHR ''{''}"
  "has_class CC_QUOTE c \<longleftrightarrow> c = DQUOTE \<or> c = SQUOTE"
  "has_class CC_HASH c \<longleftrightarrow> c = CHR ''#''"
  "has_class CC_SLASH c \<longleftrightarrow> c = CHR ''/''"
  "has_class CC_SQUOTE c \<longleftrightarrow> c = SQUOTE"
  unfolding has_class_def cc_alt cc_masks by auto

section \<open>What the loops find\<close>

text \<open>\<open>prefix_len P xs\<close>: how many characters in front satisfy a predicate.\<close>

definition prefix_len :: "('a \<Rightarrow> bool) \<Rightarrow> 'a list \<Rightarrow> nat" where
  "prefix_len P xs = length (takeWhile P xs)"

lemma prefix_len_Nil [simp]: "prefix_len P [] = 0"
  by (simp add: prefix_len_def)

lemma prefix_len_Cons [simp]: "prefix_len P (x # xs) = (if P x then Suc (prefix_len P xs) else 0)"
  by (simp add: prefix_len_def)

lemma prefix_len_le: "prefix_len P xs \<le> length xs"
  by (simp add: prefix_len_def length_takeWhile_le)

lemma prefix_len_append:
  "prefix_len P (xs @ ys) = (if \<forall>x \<in> set xs. P x then length xs + prefix_len P ys else prefix_len P xs)"
  by (induction xs) auto

lemma prefix_len_map: "prefix_len P (map f xs) = prefix_len (\<lambda>x. P (f x)) xs"
  by (simp add: prefix_len_def takeWhile_map comp_def)

lemma prefix_len_cong: "(\<And>x. x \<in> set xs \<Longrightarrow> P x = Q x) \<Longrightarrow> prefix_len P xs = prefix_len Q xs"
  unfolding prefix_len_def by (simp cong: takeWhile_cong)

lemma take_drop_Suc: "i < length xs \<Longrightarrow> take (Suc k) (drop i xs) = xs ! i # take k (drop (Suc i) xs)"
  by (simp add: Cons_nth_drop_Suc [symmetric])

lemma skip_loop_prefix:
  "len \<le> length buf \<Longrightarrow> i \<le> len \<Longrightarrow>
   skip_loop P buf len i = i + prefix_len P (take (len - i) (drop i buf))"
proof (induction P buf len i rule: skip_loop.induct)
  case (1 P buf len i)
  show ?case
  proof (cases "i < len")
    case True
    then have "take (len - i) (drop i buf) = buf ! i # take (len - Suc i) (drop (Suc i) buf)"
      using 1(2) by (simp add: Suc_diff_Suc [symmetric] take_drop_Suc)
    with True 1 show ?thesis by (subst skip_loop.simps) simp
  next
    case False
    with 1(3) show ?thesis by (subst skip_loop.simps) simp
  qed
qed

lemma find_loop_prefix:
  "len \<le> length buf \<Longrightarrow> i \<le> len \<Longrightarrow>
   find_loop P buf len i = i + prefix_len (\<lambda>c. \<not> P c) (take (len - i) (drop i buf))"
proof (induction P buf len i rule: find_loop.induct)
  case (1 P buf len i)
  show ?case
  proof (cases "i < len")
    case True
    then have "take (len - i) (drop i buf) = buf ! i # take (len - Suc i) (drop (Suc i) buf)"
      using 1(2) by (simp add: Suc_diff_Suc [symmetric] take_drop_Suc)
    with True 1 show ?thesis by (subst find_loop.simps) simp
  next
    case False
    with 1(3) show ?thesis by (subst find_loop.simps) simp
  qed
qed

section \<open>Blocks of 32 bytes\<close>

text \<open>A register in which byte \<open>i\<close> is 0xFF where a predicate holds of character \<open>i\<close>.\<close>

definition matches :: "(char \<Rightarrow> bool) \<Rightarrow> string \<Rightarrow> m256i" where
  "matches P cs = map (\<lambda>c. if P c then 0xFF else 0) cs"

lemma byte_of_eq_iff [simp]: "byte_of c = byte_of d \<longleftrightarrow> c = d"
  by (metis char_of_byte_inverse)

lemma cmpeq_matches:
  assumes "length cs = 32"
  shows "mm256_cmpeq_epi8 (map byte_of cs) (mm256_set1_epi8 d) = matches (\<lambda>c. c = d) cs"
  using assms unfolding mm256_cmpeq_epi8_def mm256_set1_epi8_def matches_def
  by (intro nth_equalityI) simp_all

lemma or_matches:
  "mm256_or_si256 (matches P cs) (matches Q cs) = matches (\<lambda>c. P c \<or> Q c) cs"
  unfolding mm256_or_si256_def matches_def by (intro nth_equalityI) auto

lemma bit_movemask:
  "length cs = 32 \<Longrightarrow> i < 32 \<Longrightarrow> bit (mm256_movemask_epi8 (matches P cs)) i \<longleftrightarrow> P (cs ! i)"
  by (simp add: mm256_movemask_epi8_def matches_def bit_horner_sum_bit_word_iff comp_def)

lemma ctz_prefix:
  assumes "length cs = 32" "\<And>i. i < 32 \<Longrightarrow> bit x i \<longleftrightarrow> \<not> P (cs ! i)"
  shows "hjson_ctz x = prefix_len P cs"
proof -
  have "cs = map ((!) cs) [0..<32]" using assms(1) by (metis map_nth)
  then have "prefix_len P cs = prefix_len (\<lambda>i. P (cs ! i)) [0..<32]"
    by (metis prefix_len_map)
  also have "\<dots> = prefix_len (\<lambda>i. \<not> bit x i) [0..<32]"
    by (rule prefix_len_cong) (simp add: assms(2))
  finally show ?thesis by (simp add: hjson_ctz_def prefix_len_def)
qed

lemma block_all:
  assumes "length cs = 32"
  shows "mm256_movemask_epi8 (matches P cs) = 0xFFFFFFFF \<longleftrightarrow> (\<forall>c \<in> set cs. P c)"
    and "mm256_movemask_epi8 (matches P cs) = 0 \<longleftrightarrow> (\<forall>c \<in> set cs. \<not> P c)"
proof -
  have eq: "x = y \<longleftrightarrow> (\<forall>i < 32. bit x i = bit y i)" for x y :: u32
    by (auto intro!: bit_word_eqI)
  have "(0xFFFFFFFF :: u32) = - 1" by simp
  then have "bit (0xFFFFFFFF :: u32) i" if "i < 32" for i using that by (simp only: bit_simps) simp
  then show "mm256_movemask_epi8 (matches P cs) = 0xFFFFFFFF \<longleftrightarrow> (\<forall>c \<in> set cs. P c)"
    using assms by (auto simp: eq bit_movemask all_set_conv_all_nth)
  show "mm256_movemask_epi8 (matches P cs) = 0 \<longleftrightarrow> (\<forall>c \<in> set cs. \<not> P c)"
    using assms by (auto simp: eq bit_movemask all_set_conv_all_nth)
qed

lemma prefix_len_take: "prefix_len P (take n xs) = min n (prefix_len P xs)"
proof (induction xs arbitrary: n)
  case (Cons x xs)
  then show ?case by (cases n) simp_all
qed simp

lemma block_split:
  assumes "i < len" "len + 32 \<le> length buf"
  obtains cs where "length cs = 32" "drop i buf = cs @ drop (i + 32) buf"
    "mm256_loadu_si256 buf i = Value (map byte_of cs)"
proof
  show "length (take 32 (drop i buf)) = 32" using assms by simp
  show "drop i buf = take 32 (drop i buf) @ drop (i + 32) buf"
    by (metis append_take_drop_id drop_drop add.commute)
  show "mm256_loadu_si256 buf i = Value (map byte_of (take 32 (drop i buf)))"
    using assms by (simp add: mm256_loadu_si256_def)
qed

lemma find_avx2_prefix:
  assumes match: "\<And>cs. length cs = 32 \<Longrightarrow> match (map byte_of cs) = matches P cs"
    and "len + 32 \<le> length buf"
  shows "find_avx2_loop match buf len i = Value (min len (i + prefix_len (\<lambda>c. \<not> P c) (drop i buf)))"
  using assms(2)
proof (induction "len - i" arbitrary: i rule: less_induct)
  case less
  show ?case
  proof (cases "i < len")
    case True
    obtain cs where cs: "length cs = 32" "drop i buf = cs @ drop (i + 32) buf"
      "mm256_loadu_si256 buf i = Value (map byte_of cs)" using block_split [OF True less.prems] .
    have "hjson_ctz (mm256_movemask_epi8 (matches P cs)) = prefix_len (\<lambda>c. \<not> P c) cs"
      using cs(1) by (intro ctz_prefix) (simp_all add: bit_movemask)
    with True less cs show ?thesis
      by (subst find_avx2_loop.simps) (auto simp: match block_all prefix_len_append min_def Let_def)
  qed (subst find_avx2_loop.simps, simp)
qed

lemma skip_ws_avx2_prefix:
  assumes "len + 32 \<le> length buf"
  shows "skip_ws_avx2_loop buf len i = Value (min len (i + prefix_len (has_class CC_WS) (drop i buf)))"
  using assms
proof (induction "len - i" arbitrary: i rule: less_induct)
  case less
  define P where "P = (\<lambda>c. (c = CHR '' '' \<or> c = TAB) \<or> (c = CR \<or> c = LF))"
  have ws: "has_class CC_WS = P" by (auto simp: has_class_iff P_def)
  show ?case
  proof (cases "i < len")
    case True
    obtain cs where cs: "length cs = 32" "drop i buf = cs @ drop (i + 32) buf"
      "mm256_loadu_si256 buf i = Value (map byte_of cs)" using block_split [OF True less.prems] .
    have "hjson_ctz (NOT (mm256_movemask_epi8 (matches P cs))) = prefix_len P cs"
      using cs(1) by (intro ctz_prefix) (simp_all add: bit_movemask bit_not_iff)
    moreover have "skip_ws_avx2_loop buf len (i + 32)
        = Value (min len (i + 32 + prefix_len P (drop (i + 32) buf)))"
      using less.hyps [of "i + 32"] True less.prems unfolding ws by simp
    moreover have "skip_ws_avx2_loop buf len i =
        (let mask = mm256_movemask_epi8 (matches P cs)
         in if mask \<noteq> 0xFFFFFFFF then
              let pos = i + hjson_ctz (NOT mask) in Value (if pos < len then pos else len)
            else skip_ws_avx2_loop buf len (i + 32))"
      using True unfolding P_def by (subst skip_ws_avx2_loop.simps)
        (simp only: cs(3) and_then.simps cmpeq_matches [OF cs(1)] or_matches Let_def if_True)
    ultimately show ?thesis unfolding ws cs(2)
      by (auto simp: Let_def block_all [OF cs(1)] prefix_len_append cs(1) min_def)
  qed (subst skip_ws_avx2_loop.simps, simp)
qed

section \<open>The contract of a scanner\<close>

locale scanner =
  fixes s :: Scanner
  assumes skip_ws_law: "len + 32 \<le> length buf \<Longrightarrow>
      scan_skip_ws s buf len = Value (prefix_len (has_class CC_WS) (take len buf))"
    and quote_law: "len + 32 \<le> length buf \<Longrightarrow> find_quote_special s buf len quote
      = Value (prefix_len (\<lambda>c. c \<noteq> quote \<and> c \<noteq> BACKSLASH \<and> c \<noteq> LF \<and> c \<noteq> CR) (take len buf))"
    and newline_law: "len + 32 \<le> length buf \<Longrightarrow>
      find_newline s buf len = Value (prefix_len (\<lambda>c. c \<noteq> LF \<and> c \<noteq> CR) (take len buf))"
    and char_law: "len + 32 \<le> length buf \<Longrightarrow>
      find_char s buf len target = Value (prefix_len (\<lambda>c. c \<noteq> target) (take len buf))"

lemma scanner_init: "scanner (init_scanner no_simd avx2)"
proof (cases "\<not> no_simd \<and> avx2")
  case True
  show ?thesis
  proof
    fix len :: nat and buf :: string assume b: "len + 32 \<le> length buf"
    show "scan_skip_ws (init_scanner no_simd avx2) buf len
        = Value (prefix_len (has_class CC_WS) (take len buf))"
      using True by (simp add: init_scanner_def skip_ws_avx2_def skip_ws_avx2_prefix [OF b] prefix_len_take)
    show "find_newline (init_scanner no_simd avx2) buf len
        = Value (prefix_len (\<lambda>c. c \<noteq> LF \<and> c \<noteq> CR) (take len buf))"
      using True by (simp add: init_scanner_def find_newline_avx2_def prefix_len_take
          find_avx2_prefix [OF _ b, where P = "\<lambda>c. c = LF \<or> c = CR"] cmpeq_matches or_matches)
    fix d
    show "find_quote_special (init_scanner no_simd avx2) buf len d
        = Value (prefix_len (\<lambda>c. c \<noteq> d \<and> c \<noteq> BACKSLASH \<and> c \<noteq> LF \<and> c \<noteq> CR) (take len buf))"
      using True by (simp add: init_scanner_def find_quote_or_special_avx2_def prefix_len_take
          find_avx2_prefix [OF _ b, where P = "\<lambda>c. (c = d \<or> c = BACKSLASH) \<or> (c = LF \<or> c = CR)"]
          cmpeq_matches or_matches)
    show "find_char (init_scanner no_simd avx2) buf len d = Value (prefix_len (\<lambda>c. c \<noteq> d) (take len buf))"
      using True by (simp add: init_scanner_def find_char_avx2_def prefix_len_take
          find_avx2_prefix [OF _ b, where P = "\<lambda>c. c = d"] cmpeq_matches)
  qed
next
  case False
  then have s: "init_scanner no_simd avx2 = init_scanner True avx2" by (auto simp: init_scanner_def)
  show ?thesis unfolding s
    by unfold_locales (auto simp: init_scanner_def skip_ws_scalar_def find_quote_or_special_scalar_def
        find_newline_scalar_def find_char_scalar_def skip_loop_prefix find_loop_prefix)
qed

interpretation scan: scanner "init_scanner no_simd avx2" for no_simd avx2
  by (rule scanner_init)

end
