(* ===== verification/C_Library.thy ===== *)
theory C_Library
  imports Async2_Prelude
begin

text \<open>
  The number conversions of the C library that the text formats use: \<^verbatim>\<open>strtoll\<close> and
  \<^verbatim>\<open>strtod\<close> on decimal text, and \<^verbatim>\<open>snprintf\<close> with \<^verbatim>\<open>%lld\<close>,
  \<^verbatim>\<open>%04x\<close> and \<^verbatim>\<open>%.*g\<close>.  Doubles are computed exactly: a decimal is a
  ratio of naturals and is rounded once, to nearest even, to 53 bits.  Hexadecimal floats,
  infinities and NaNs as text are left out: no caller passes them.
\<close>

section \<open>Decimal text\<close>

definition is_digit :: "char \<Rightarrow> bool" where
  "is_digit c \<longleftrightarrow> 48 \<le> code c \<and> code c \<le> 57"

definition digit_value :: "char \<Rightarrow> nat" where
  "digit_value c = code c - 48"

definition decimal :: "string \<Rightarrow> nat" where
  "decimal ds = foldl (\<lambda>n c. 10 * n + digit_value c) 0 ds"

definition digit :: "nat \<Rightarrow> char" where
  "digit d = char_of (48 + d)"

fun show_nat :: "nat \<Rightarrow> string" where
  "show_nat n = (if n < 10 then [digit n] else show_nat (n div 10) @ [digit (n mod 10)])"

declare show_nat.simps [simp del]

definition format_lld :: "i64 \<Rightarrow> string" where
  "format_lld v = (if sint v < 0 then CHR ''-'' # show_nat (nat (- sint v)) else show_nat (nat (sint v)))"

text \<open>\<open>minus_sign\<close> splits off a leading minus.\<close>

definition minus_sign :: "string \<Rightarrow> bool \<times> string" where
  "minus_sign t = (case t of [] \<Rightarrow> (False, []) | c # p \<Rightarrow> if c = CHR ''-'' then (True, p) else (False, t))"

text \<open>\<^verbatim>\<open>strtoll(t, &end, 10)\<close> on text that starts with a minus or a digit: the value, clamped
  to the range of \<^verbatim>\<open>long long\<close>, the number of characters read, and whether
  \<^verbatim>\<open>errno\<close> is set to \<^verbatim>\<open>ERANGE\<close>.\<close>

definition strtoll :: "string \<Rightarrow> int \<times> nat \<times> bool" where
  "strtoll t =
     (let (neg, p) = minus_sign t; ds = takeWhile is_digit p;
          v = (if neg then - int (decimal ds) else int (decimal ds));
          used = (if neg then 1 else 0) + length ds
      in if ds = [] then (0, 0, False)
         else if v < - (2 ^ 63) then (- (2 ^ 63), used, True)
         else if 2 ^ 63 \<le> v then (2 ^ 63 - 1, used, True)
         else (v, used, False))"

definition hex_digit :: "nat \<Rightarrow> char" where
  "hex_digit d = (if d < 10 then char_of (48 + d) else char_of (87 + d))"

text \<open>\<^verbatim>\<open>%04x\<close> of a byte.\<close>

definition format_04x :: "nat \<Rightarrow> string" where
  "format_04x n = [CHR ''0'', CHR ''0'', hex_digit (n div 16), hex_digit (n mod 16)]"

section \<open>Doubles\<close>

text \<open>The quotient rounded to nearest, ties to even.\<close>

definition div_round :: "nat \<Rightarrow> nat \<Rightarrow> nat" where
  "div_round a b = (let q = a div b; r = a mod b
     in if b < 2 * r \<or> 2 * r = b \<and> odd q then q + 1 else q)"

text \<open>The position of the leading bit of the ratio \<open>n / d\<close>.\<close>

definition ratio_log2 :: "nat \<Rightarrow> nat \<Rightarrow> int" where
  "ratio_log2 n d = (let k = int (floor_log2 n) - int (floor_log2 d)
     in if d * 2 ^ nat k \<le> n * 2 ^ nat (- k) then k else k - 1)"

text \<open>The double nearest to \<open>n / d\<close>: the exponent field and the 53 bits of the significand added
  up, so that a carry of the rounding goes into the exponent.\<close>

definition f64_of_ratio :: "nat \<Rightarrow> nat \<Rightarrow> f64" where
  "f64_of_ratio n d =
     (if n = 0 then 0
      else let k = max (- 1022) (ratio_log2 n d); s = k - 52;
               q = div_round (n * 2 ^ nat (- s)) (d * 2 ^ nat s);
               bits = nat (k + 1022) * 2 ^ 52 + q
           in if 0x7FF0000000000000 \<le> bits then 0x7FF0000000000000 else of_nat bits)"

definition f64_of_decimal :: "nat \<Rightarrow> int \<Rightarrow> f64" where
  "f64_of_decimal m e = f64_of_ratio (m * 10 ^ nat e) (10 ^ nat (- e))"

definition with_sign :: "bool \<Rightarrow> f64 \<Rightarrow> f64" where
  "with_sign neg d = (if neg then 0x8000000000000000 OR d else d)"

definition signbit :: "f64 \<Rightarrow> bool" where
  "signbit d \<longleftrightarrow> bit d 63"

text \<open>The exponent part of a decimal: its value and what is behind it; text that does not have a
  digit there is not an exponent.\<close>

definition exponent_part :: "string \<Rightarrow> int \<times> string" where
  "exponent_part p = (case p of
     [] \<Rightarrow> (0, [])
   | c # p1 \<Rightarrow>
     if c = CHR ''e'' \<or> c = CHR ''E'' then
       let (neg, p2) = (case p1 of [] \<Rightarrow> (False, [])
            | s # p2 \<Rightarrow> if s = CHR ''-'' then (True, p2) else if s = CHR ''+'' then (False, p2) else (False, p1));
           ds = takeWhile is_digit p2
       in if ds = [] then (0, p)
          else (if neg then - int (decimal ds) else int (decimal ds), dropWhile is_digit p2)
     else (0, p))"

text \<open>\<^verbatim>\<open>strtod(t, &end)\<close>: the double and the number of characters read.\<close>

definition strtod :: "string \<Rightarrow> f64 \<times> nat" where
  "strtod t =
     (let (neg, p) = minus_sign t;
          ip = takeWhile is_digit p; p1 = dropWhile is_digit p;
          (fp, p2) = (case p1 of [] \<Rightarrow> ([], [])
            | c # p1' \<Rightarrow> if c = CHR ''.'' then (takeWhile is_digit p1', dropWhile is_digit p1') else ([], p1))
      in if ip = [] \<and> fp = [] then (0, 0)
         else let (e, p3) = exponent_part p2
              in (with_sign neg (f64_of_decimal (decimal (ip @ fp)) (e - int (length fp))), length t - length p3))"

text \<open>The magnitude of a finite double as a ratio.\<close>

definition f64_ratio :: "f64 \<Rightarrow> nat \<times> nat" where
  "f64_ratio d =
     (let e = unat (drop_bit 52 d AND 0x7FF); f = unat (d AND 0x000FFFFFFFFFFFFF)
      in if e = 0 then (f, 2 ^ 1074)
         else ((f + 2 ^ 52) * 2 ^ (e - 1075), 2 ^ (1075 - e)))"

text \<open>The position of the leading decimal digit of the ratio \<open>n / d\<close>, \<open>n\<close> positive.\<close>

definition ratio_log10 :: "nat \<Rightarrow> nat \<Rightarrow> int" where
  "ratio_log10 n d =
     (if d \<le> n then int (length (show_nat (n div d))) - 1
      else - int (length (show_nat ((d - 1) div n))))"

text \<open>The significant digits of a conversion with \<open>prec\<close> digits, as a number, and the position of
  the first of them.\<close>

definition significant :: "nat \<Rightarrow> nat \<Rightarrow> nat \<Rightarrow> nat \<times> int" where
  "significant prec n d =
     (let x = ratio_log10 n d; s = x - int (prec - 1);
          q = div_round (n * 10 ^ nat (- s)) (d * 10 ^ nat s)
      in if q = 10 ^ prec then (10 ^ (prec - 1), x + 1) else (q, x))"

definition strip_zeros :: "string \<Rightarrow> string" where
  "strip_zeros s = rev (dropWhile (\<lambda>c. c = CHR ''0'') (rev s))"

definition with_fraction :: "string \<Rightarrow> string \<Rightarrow> string" where
  "with_fraction ip fp = (if strip_zeros fp = [] then ip else ip @ CHR ''.'' # strip_zeros fp)"

definition show_exponent :: "int \<Rightarrow> string" where
  "show_exponent x = CHR ''e'' # (if x < 0 then CHR ''-'' else CHR ''+'')
     # (let s = show_nat (nat \<bar>x\<bar>) in if length s = 1 then CHR ''0'' # s else s)"

text \<open>\<^verbatim>\<open>snprintf("%.*g", prec, d)\<close> for a positive precision and a finite double.\<close>

definition format_g :: "nat \<Rightarrow> f64 \<Rightarrow> string" where
  "format_g prec d =
     (let (n, m) = f64_ratio d; sgn = (if signbit d then ''-'' else '''')
      in if n = 0 then sgn @ ''0''
         else let (q, x) = significant prec n m; s = show_nat q
              in sgn @
                (if - 4 \<le> x \<and> x < int prec then
                   (if 0 \<le> x then with_fraction (take (nat x + 1) s) (drop (nat x + 1) s)
                    else with_fraction ''0'' (replicate (nat (- x) - 1) CHR ''0'' @ s))
                 else with_fraction (take 1 s) (drop 1 s) @ show_exponent x))"

text \<open>The conversions of a double to a signed integer type, which drop the fraction: None where the
  value does not fit, which is undefined behaviour.\<close>

definition int_of_f64 :: "nat \<Rightarrow> f64 \<Rightarrow> int option" where
  "int_of_f64 w d =
     (if f64_is_nan d \<or> f64_is_inf d then None
      else let (n, m) = f64_ratio d; q = int (n div m); q = (if signbit d then - q else q)
           in if - (2 ^ (w - 1)) \<le> q \<and> q < 2 ^ (w - 1) then Some q else None)"

definition i64_of_f64 :: "f64 \<Rightarrow> i64 option" where
  "i64_of_f64 d = map_option word_of_int (int_of_f64 64 d)"

definition i32_of_f64 :: "f64 \<Rightarrow> i32 option" where
  "i32_of_f64 d = map_option word_of_int (int_of_f64 32 d)"

definition f64_of_i64 :: "i64 \<Rightarrow> f64" where
  "f64_of_i64 v = with_sign (sint v < 0) (f64_of_ratio (nat \<bar>sint v\<bar>) 1)"

text \<open>The float nearest to a ratio, and the conversions to a float.\<close>

definition f32_of_ratio :: "nat \<Rightarrow> nat \<Rightarrow> u32" where
  "f32_of_ratio n d =
     (if n = 0 then 0
      else let k = max (- 126) (ratio_log2 n d); s = k - 23;
               q = div_round (n * 2 ^ nat (- s)) (d * 2 ^ nat s);
               bits = nat (k + 126) * 2 ^ 23 + q
           in if 0x7F800000 \<le> bits then 0x7F800000 else of_nat bits)"

definition f32_with_sign :: "bool \<Rightarrow> u32 \<Rightarrow> u32" where
  "f32_with_sign neg b = (if neg then 0x80000000 OR b else b)"

definition f32_of_f64 :: "f64 \<Rightarrow> u32" where
  "f32_of_f64 d = f32_with_sign (signbit d)
     (if f64_is_nan d then 0x7FC00000 OR ucast (drop_bit 29 d AND 0x7FFFFF)
      else if f64_is_inf d then 0x7F800000
      else let (n, m) = f64_ratio d in f32_of_ratio n m)"

definition f32_of_i64 :: "i64 \<Rightarrow> u32" where
  "f32_of_i64 v = f32_with_sign (sint v < 0) (f32_of_ratio (nat \<bar>sint v\<bar>) 1)"

section \<open>Integers\<close>

lemma code_digit [simp]: "d < 10 \<Longrightarrow> code (digit d) = 48 + d"
  by (simp add: digit_def)

lemma is_digit_digit [simp]: "d < 10 \<Longrightarrow> is_digit (digit d)"
  by (simp add: is_digit_def)

lemma digit_value_digit [simp]: "d < 10 \<Longrightarrow> digit_value (digit d) = d"
  by (simp add: digit_value_def)

lemma decimal_snoc: "decimal (ds @ [c]) = 10 * decimal ds + digit_value c"
  by (simp add: decimal_def)

lemma show_nat_digits: "\<forall>c \<in> set (show_nat n). is_digit c"
  by (induction n rule: show_nat.induct) (subst show_nat.simps, auto)

lemma show_nat_nonempty [simp]: "show_nat n \<noteq> []"
  by (subst show_nat.simps) simp

lemma decimal_show_nat: "decimal (show_nat n) = n"
proof (induction n rule: show_nat.induct)
  case (1 n)
  show ?case
  proof (cases "n < 10")
    case True
    then show ?thesis by (subst show_nat.simps) (simp add: decimal_def)
  next
    case False
    with 1 have "decimal (show_nat (n div 10)) = n div 10" by simp
    with False show ?thesis by (subst show_nat.simps) (simp add: decimal_snoc)
  qed
qed

text \<open>No superfluous zero in front.\<close>

lemma show_nat_leading: "hd (show_nat n) = CHR ''0'' \<Longrightarrow> show_nat n = ''0''"
proof (induction n rule: show_nat.induct)
  case (1 n)
  show ?case
  proof (cases "n < 10")
    case True
    then have "show_nat n = [digit n]" by (subst show_nat.simps) simp
    with 1(2) show ?thesis by simp
  next
    case False
    then have s: "show_nat n = show_nat (n div 10) @ [digit (n mod 10)]" by (subst show_nat.simps) simp
    with 1(2) have "hd (show_nat (n div 10)) = CHR ''0''" by (simp add: hd_append)
    with 1(1) False have "show_nat (n div 10) = ''0''" by blast
    then have "n div 10 = 0" using decimal_show_nat [of "n div 10"] by (simp add: decimal_def digit_value_def)
    with False show ?thesis by simp
  qed
qed

lemma takeWhile_digits_show:
  assumes "rest = [] \<or> \<not> is_digit (hd rest)"
  shows "takeWhile is_digit (show_nat n @ rest) = show_nat n"
    and "dropWhile is_digit (show_nat n @ rest) = rest"
  using assms show_nat_digits [of n]
  by (cases rest; simp add: takeWhile_append2 dropWhile_append2)+

lemma sint_i64_range: "- (2 ^ 63) \<le> sint (v :: i64)" "sint (v :: i64) < 2 ^ 63"
  using sint_range_size [of v] by (simp_all add: word_size)

lemma not_digit_minus [simp]: "\<not> is_digit CHR ''-''"
  by (simp add: is_digit_def)

lemma minus_sign_show: "minus_sign (show_nat n @ rest) = (False, show_nat n @ rest)"
proof -
  obtain c s where "show_nat n = c # s" by (cases "show_nat n") simp_all
  moreover from this have "is_digit c" using show_nat_digits [of n] by simp
  ultimately show ?thesis by (auto simp: minus_sign_def)
qed

lemma strtoll_format:
  assumes "rest = [] \<or> \<not> is_digit (hd rest)"
  shows "strtoll (format_lld v @ rest) = (sint v, length (format_lld v), False)"
  using sint_i64_range [of v]
  by (simp add: strtoll_def format_lld_def minus_sign_show takeWhile_digits_show [OF assms]
      decimal_show_nat Let_def)
     (simp add: minus_sign_def takeWhile_digits_show [OF assms] decimal_show_nat)

end
