(* ===== verification/Hjson.thy ===== *)
theory Hjson
  imports Hjson_Scan Data_Node C_Library
begin

text \<open>
  The Hjson parser (\<^verbatim>\<open>src/hjson/hjson_parse.cpp\<close>) over the scanners of
  \<^verbatim>\<open>Hjson_Scan\<close>: comments and white space, quoted, multi-line and unquoted strings,
  numbers, objects and arrays, and the entry point with its braceless root.  A reader's buffer
  and length never change, so they are an environment and only the position is passed on.  A
  routine that returns false or a null pointer ends in \<open>NullPtr\<close>; \<open>Fault\<close> is a read
  outside the padded buffer or an exception.  The loops over members and elements are partial
  functions: None is a loop that never ends.
\<close>

section \<open>Reader\<close>

definition kMaxDepth :: nat where "kMaxDepth = 256"
definition kPadding :: nat where "kPadding = 64"

text \<open>The buffer, the length of the text in it, the table of scanners, the layout of string maps
  and the width of \<^verbatim>\<open>size_t\<close>.\<close>

record Reader =
  hdata :: string
  hlen :: nat
  hscan :: Scanner
  hlayout :: "string list \<Rightarrow> string list"
  hbits :: nat

definition peek :: "Reader \<Rightarrow> nat \<Rightarrow> char" where
  "peek r pos = (if pos < hlen r then hdata r ! pos else NUL)"

definition peek_at :: "Reader \<Rightarrow> nat \<Rightarrow> nat \<Rightarrow> char" where
  "peek_at r pos off = (let p = pos + off in if p < hlen r then hdata r ! p else NUL)"

text \<open>The calls through the table at the current position.\<close>

definition ws_run :: "Reader \<Rightarrow> nat \<Rightarrow> nat outcome" where
  "ws_run r pos = scan_skip_ws (hscan r) (drop pos (hdata r)) (hlen r - pos)"

definition plain_run :: "Reader \<Rightarrow> char \<Rightarrow> nat \<Rightarrow> nat outcome" where
  "plain_run r quote pos = find_quote_special (hscan r) (drop pos (hdata r)) (hlen r - pos) quote"

definition line_run :: "Reader \<Rightarrow> nat \<Rightarrow> nat outcome" where
  "line_run r pos = find_newline (hscan r) (drop pos (hdata r)) (hlen r - pos)"

definition star_run :: "Reader \<Rightarrow> nat \<Rightarrow> nat outcome" where
  "star_run r pos = find_char (hscan r) (drop pos (hdata r)) (hlen r - pos) CHR ''*''"

text \<open>To behind the end of the line.\<close>

definition skip_line :: "Reader \<Rightarrow> nat \<Rightarrow> nat outcome" where
  "skip_line r pos = and_then (line_run r pos) (\<lambda>nl.
     let pos = pos + nl in Value (if pos < hlen r then pos + 1 else pos))"

text \<open>To behind the end of a block comment.\<close>

function skip_block :: "Reader \<Rightarrow> nat \<Rightarrow> nat outcome" where
  "skip_block r pos =
     (if pos + 1 < hlen r then
        and_then (star_run r pos) (\<lambda>star.
          let pos = pos + star
          in if pos + 1 < hlen r \<and> hdata r ! pos = CHR ''*'' \<and> hdata r ! (pos + 1) = CHR ''/'' then Value (pos + 2)
             else skip_block r (if pos < hlen r then pos + 1 else pos))
      else Value pos)"
  by auto
termination by (relation "measure (\<lambda>(r, pos). hlen r - pos)") auto

declare skip_block.simps [simp del]

lemma skip_line_mono: "skip_line r pos = Value q \<Longrightarrow> pos \<le> q"
  by (auto simp: skip_line_def Let_def split: if_splits)

lemma skip_block_mono: "skip_block r pos = Value q \<Longrightarrow> pos \<le> q"
proof (induction r pos rule: skip_block.induct)
  case (1 r pos)
  show ?case
  proof (cases "pos + 1 < hlen r")
    case True
    note eq = 1(2) [unfolded skip_block.simps [of r pos]]
    from eq True obtain star where star: "star_run r pos = Value star" by auto
    note IH = 1(1) [OF True star refl]
    show ?thesis
    proof (cases "pos + star + 1 < hlen r \<and> hdata r ! (pos + star) = CHR ''*'' \<and> hdata r ! (pos + star + 1) = CHR ''/''")
      case False
      with eq True star have "skip_block r (if pos + star < hlen r then pos + star + 1 else pos + star) = Value q"
        by (auto simp: Let_def split: if_splits)
      from IH [OF False this] show ?thesis by (simp split: if_splits)
    qed (use eq True star in simp)
  qed (use 1(2) in \<open>subst (asm) skip_block.simps, simp\<close>)
qed

function skip_ws :: "Reader \<Rightarrow> nat \<Rightarrow> nat outcome" where
  "skip_ws r pos =
     (if pos < hlen r then
        and_then (ws_run r pos) (\<lambda>adv.
          let pos = pos + adv
          in if hlen r \<le> pos then Value pos
             else let c = hdata r ! pos
             in if c = CHR ''#'' then and_then (skip_line r (pos + 1)) (\<lambda>pos. skip_ws r pos)
             else if c = CHR ''/'' \<and> pos + 1 < hlen r then
               (if hdata r ! (pos + 1) = CHR ''/'' then and_then (skip_line r (pos + 2)) (\<lambda>pos. skip_ws r pos)
                else if hdata r ! (pos + 1) = CHR ''*'' then and_then (skip_block r (pos + 2)) (\<lambda>pos. skip_ws r pos)
                else Value pos)
             else Value pos)
      else Value pos)"
  by auto
termination
  by (relation "measure (\<lambda>(r, pos). hlen r - pos)")
     (auto dest!: skip_line_mono skip_block_mono)

declare skip_ws.simps [simp del]

definition skip_separator :: "Reader \<Rightarrow> nat \<Rightarrow> nat outcome" where
  "skip_separator r pos = and_then (skip_ws r pos) (\<lambda>pos.
     if pos < hlen r \<and> hdata r ! pos = CHR '','' then skip_ws r (pos + 1) else Value pos)"

section \<open>Strings\<close>

text \<open>A \<^verbatim>\<open>char\<close> is signed on the platforms the extension is built for.\<close>

definition schar :: "char \<Rightarrow> int" where
  "schar c = (if code c < 128 then int (code c) else int (code c) - 256)"

definition is_punctuator :: "char \<Rightarrow> bool" where
  "is_punctuator c \<longleftrightarrow> has_class CC_STRUCT c"

definition utf8_encode :: "string \<Rightarrow> u32 \<Rightarrow> string" where
  "utf8_encode out cp =
     (let byte = (\<lambda>w :: u32. char_of_byte (ucast w)) in
      if cp < 0x80 then out @ [byte cp]
      else if cp < 0x800 then
        out @ [byte (0xC0 OR drop_bit 6 cp), byte (0x80 OR (cp AND 0x3F))]
      else if cp < 0x10000 then
        out @ [byte (0xE0 OR drop_bit 12 cp), byte (0x80 OR (drop_bit 6 cp AND 0x3F)),
               byte (0x80 OR (cp AND 0x3F))]
      else if cp < 0x110000 then
        out @ [byte (0xF0 OR drop_bit 18 cp), byte (0x80 OR (drop_bit 12 cp AND 0x3F)),
               byte (0x80 OR (drop_bit 6 cp AND 0x3F)), byte (0x80 OR (cp AND 0x3F))]
      else out)"

definition hex_value :: "char \<Rightarrow> u32 option" where
  "hex_value h =
     (if 48 \<le> code h \<and> code h \<le> 57 then Some (of_nat (code h - 48))
      else if 97 \<le> code h \<and> code h \<le> 102 then Some (of_nat (code h - 97 + 10))
      else if 65 \<le> code h \<and> code h \<le> 70 then Some (of_nat (code h - 65 + 10))
      else None)"

primrec hex_digits :: "string \<Rightarrow> u32 \<Rightarrow> u32 option" where
  "hex_digits [] cp = Some cp"
| "hex_digits (h # hs) cp = (case hex_value h of None \<Rightarrow> None | Some x \<Rightarrow> hex_digits hs (cp * 16 + x))"

definition parse_u_escape :: "Reader \<Rightarrow> nat \<Rightarrow> (u32 \<times> nat) outcome" where
  "parse_u_escape r pos =
     (if hlen r < pos + 4 then NullPtr
      else case hex_digits (take 4 (drop pos (hdata r))) 0 of
             None \<Rightarrow> NullPtr
           | Some cp \<Rightarrow> Value (cp, pos + 4))"

text \<open>Multi-line strings.  \<open>indent_of\<close> counts the characters between the start of the line and the
  opening quotes.\<close>

primrec indent_of :: "Reader \<Rightarrow> nat \<Rightarrow> nat" where
  "indent_of r 0 = 0"
| "indent_of r (Suc i) = (if hdata r ! i = LF \<or> hdata r ! i = NUL then 0 else Suc (indent_of r i))"

definition blank_at :: "Reader \<Rightarrow> nat \<Rightarrow> bool" where
  "blank_at r pos \<longleftrightarrow> pos < hlen r \<and> 0 < schar (hdata r ! pos) \<and> schar (hdata r ! pos) \<le> 32
     \<and> hdata r ! pos \<noteq> LF"

primrec skipIndent :: "Reader \<Rightarrow> nat \<Rightarrow> nat \<Rightarrow> nat" where
  "skipIndent r 0 pos = pos"
| "skipIndent r (Suc skip) pos = (if blank_at r pos then skipIndent r skip (pos + 1) else pos)"

function skip_blanks :: "Reader \<Rightarrow> nat \<Rightarrow> nat" where
  "skip_blanks r pos = (if blank_at r pos then skip_blanks r (pos + 1) else pos)"
  by auto
termination by (relation "measure (\<lambda>(r, pos). hlen r - pos)") (auto simp: blank_at_def)

declare skip_blanks.simps [simp del]

lemma skipIndent_mono: "pos \<le> skipIndent r skip pos"
  by (induction skip arbitrary: pos) (auto intro: Suc_leD)

definition drop_last_lf :: "bool \<Rightarrow> string \<Rightarrow> string" where
  "drop_last_lf lastLf out = (if lastLf \<and> out \<noteq> [] \<and> last out = LF then butlast out else out)"

function multiline_loop :: "Reader \<Rightarrow> nat \<Rightarrow> string \<Rightarrow> nat \<Rightarrow> bool \<Rightarrow> nat \<Rightarrow> (string \<times> nat) outcome" where
  "multiline_loop r indent out triple lastLf pos =
     (if pos < hlen r then
        let c = hdata r ! pos
        in if c = SQUOTE then
             (if triple + 1 = 3 then Value (drop_last_lf lastLf out, pos + 1)
              else multiline_loop r indent out (triple + 1) lastLf (pos + 1))
           else
             let out = out @ replicate triple SQUOTE; lastLf = (lastLf \<and> triple = 0)
             in if c = LF then multiline_loop r indent (out @ [LF]) 0 True (skipIndent r indent (pos + 1))
                else if c = CR then multiline_loop r indent out 0 lastLf (pos + 1)
                else multiline_loop r indent (out @ [c]) 0 False (pos + 1)
      else NullPtr)"
  by auto
termination
proof (relation "measure (\<lambda>(r, indent, out, triple, lastLf, pos). hlen r - pos)", goal_cases)
  case (3 r indent out triple lastLf pos)
  then show ?case using skipIndent_mono [of "pos + 1" r indent] by simp
qed auto

declare multiline_loop.simps [simp del]

definition read_multiline_string :: "Reader \<Rightarrow> nat \<Rightarrow> (string \<times> nat) outcome" where
  "read_multiline_string r pos =
     (let indent = indent_of r (pos - 3);
          pos = skip_blanks r pos;
          pos = (if pos < hlen r \<and> hdata r ! pos = LF then skipIndent r indent (pos + 1) else pos)
      in multiline_loop r indent [] 0 False pos)"

text \<open>The escapes of one character.\<close>

definition simple_escape :: "char \<Rightarrow> char option" where
  "simple_escape esc =
     (if esc = DQUOTE then Some DQUOTE
      else if esc = SQUOTE then Some SQUOTE
      else if esc = BACKSLASH then Some BACKSLASH
      else if esc = CHR ''/'' then Some CHR ''/''
      else if esc = CHR ''b'' then Some CHR 0x08
      else if esc = CHR ''f'' then Some CHR 0x0C
      else if esc = CHR ''n'' then Some LF
      else if esc = CHR ''r'' then Some CR
      else if esc = CHR ''t'' then Some TAB
      else None)"

function quoted_loop :: "Reader \<Rightarrow> char \<Rightarrow> string \<Rightarrow> nat \<Rightarrow> (string \<times> nat) outcome" where
  "quoted_loop r quote out pos =
     (if pos < hlen r then
        and_then (plain_run r quote pos) (\<lambda>run.
          let out = out @ take run (drop pos (hdata r)); pos = pos + run
          in if hlen r \<le> pos then NullPtr
             else let c = hdata r ! pos; pos = pos + 1
             in if c = quote then Value (out, pos)
             else if c = LF \<or> c = CR then NullPtr
             else if c \<noteq> BACKSLASH then quoted_loop r quote (out @ [c]) pos
             else if hlen r \<le> pos then NullPtr
             else let esc = hdata r ! pos; pos = pos + 1
             in if esc = CHR ''u'' then
                  and_then (parse_u_escape r pos) (\<lambda>(cp, pos). quoted_loop r quote (utf8_encode out cp) pos)
                else (case simple_escape esc of
                        None \<Rightarrow> NullPtr
                      | Some d \<Rightarrow> quoted_loop r quote (out @ [d]) pos))
      else NullPtr)"
  by auto
termination
  by (relation "measure (\<lambda>(r, quote, out, pos). hlen r - pos)")
     (auto simp: parse_u_escape_def split: if_splits option.splits)

declare quoted_loop.simps [simp del]

definition read_quoted_string :: "Reader \<Rightarrow> bool \<Rightarrow> nat \<Rightarrow> (string \<times> nat) outcome" where
  "read_quoted_string r allowML pos =
     (let quote = peek r pos
      in if \<not> has_class CC_QUOTE quote then NullPtr
         else let pos = pos + 1
         in if has_class CC_SQUOTE quote \<and> allowML \<and> peek r pos = SQUOTE \<and> peek_at r pos 1 = SQUOTE
            then read_multiline_string r (pos + 2)
            else if has_class CC_SQUOTE quote \<and> peek r pos = SQUOTE then Value ([], pos + 1)
            else quoted_loop r quote [] pos)"

section \<open>Keys\<close>

text \<open>\<^verbatim>\<open>static_cast<int>(r.pos)\<close>.\<close>

definition to_int :: "nat \<Rightarrow> int" where
  "to_int n = sint (of_nat n :: i32)"

function key_loop :: "Reader \<Rightarrow> nat \<Rightarrow> nat \<Rightarrow> int \<Rightarrow> nat \<Rightarrow> (string \<times> nat) outcome" where
  "key_loop r keyStart keyEnd firstSpace pos =
     (if pos < hlen r then
        let c = hdata r ! pos
        in if c = CHR '':'' then
             (if keyEnd \<le> keyStart then NullPtr
              else if 0 \<le> firstSpace \<and> nat firstSpace \<noteq> keyEnd then NullPtr
              else Value (take (keyEnd - keyStart) (drop keyStart (hdata r)), pos))
           else if schar c \<le> 32 then
             (if c = NUL then NullPtr
              else key_loop r keyStart keyEnd (if firstSpace < 0 then to_int pos else firstSpace) (pos + 1))
           else if is_punctuator c then NullPtr
           else key_loop r keyStart (pos + 1) firstSpace (pos + 1)
      else NullPtr)"
  by auto
termination by (relation "measure (\<lambda>(r, keyStart, keyEnd, firstSpace, pos). hlen r - pos)") auto

declare key_loop.simps [simp del]

definition read_unquoted_key :: "Reader \<Rightarrow> nat \<Rightarrow> (string \<times> nat) outcome" where
  "read_unquoted_key r pos = key_loop r pos pos (- 1) pos"

definition read_key :: "Reader \<Rightarrow> nat \<Rightarrow> (string \<times> nat) outcome" where
  "read_key r pos =
     (let c = peek r pos
      in if has_class CC_QUOTE c then
           (if has_class CC_SQUOTE c \<and> peek_at r pos 1 = SQUOTE \<and> peek_at r pos 2 = SQUOTE then NullPtr
            else read_quoted_string r False pos)
         else read_unquoted_key r pos)"

section \<open>Numbers and unquoted values\<close>

text \<open>The grammar of a number: the rest behind a fraction or an exponent with a flag that one was
  there, None where digits are missing.\<close>

definition number_fraction :: "string \<Rightarrow> (bool \<times> string) option" where
  "number_fraction p =
     (if p \<noteq> [] \<and> hd p = CHR ''.'' then
        (if tl p = [] \<or> \<not> is_digit (hd (tl p)) then None else Some (True, dropWhile is_digit (tl p)))
      else Some (False, p))"

definition number_exponent :: "string \<Rightarrow> (bool \<times> string) option" where
  "number_exponent p =
     (if p \<noteq> [] \<and> (hd p = CHR ''e'' \<or> hd p = CHR ''E'') then
        let p = tl p; p = (if p \<noteq> [] \<and> (hd p = CHR ''+'' \<or> hd p = CHR ''-'') then tl p else p)
        in if p = [] \<or> \<not> is_digit (hd p) then None else Some (True, dropWhile is_digit p)
      else Some (False, p))"

definition number_shape :: "string \<Rightarrow> bool option" where
  "number_shape t =
     (let p = (if hd t = CHR ''-'' then tl t else t)
      in if p = [] then None
         else if \<not> is_digit (hd p) then None
         else if hd p = CHR ''0'' \<and> tl p \<noteq> [] \<and> is_digit (hd (tl p)) then None
         else case number_fraction (dropWhile is_digit p) of
                None \<Rightarrow> None
              | Some (f, p) \<Rightarrow>
                (case number_exponent p of
                   None \<Rightarrow> None
                 | Some (e, p) \<Rightarrow> if p \<noteq> [] then None else Some (f \<or> e)))"

text \<open>The conversions read on from \<open>start\<close> and do not know where the token ends.\<close>

definition parse_double :: "string \<Rightarrow> nat \<Rightarrow> DataNode outcome" where
  "parse_double tail len =
     (let (dv, used) = strtod tail
      in if used \<noteq> len \<or> f64_is_inf dv \<or> f64_is_nan dv then NullPtr else Value (FloatN dv))"

definition try_parse_number :: "Reader \<Rightarrow> nat \<Rightarrow> nat \<Rightarrow> DataNode outcome" where
  "try_parse_number r start len =
     (if len = 0 then NullPtr
      else if length (hdata r) < start + len then Fault
      else let tail = drop start (hdata r)
      in case number_shape (take len tail) of
           None \<Rightarrow> NullPtr
         | Some True \<Rightarrow> parse_double tail len
         | Some False \<Rightarrow>
             (let (iv, used, erange) = strtoll tail
              in if used = len \<and> \<not> erange then Value (IntN (word_of_int iv)) else parse_double tail len))"

definition try_parse_keyword_or_number :: "Reader \<Rightarrow> nat \<Rightarrow> nat \<Rightarrow> DataNode outcome" where
  "try_parse_keyword_or_number r start len =
     (let tail = drop start (hdata r)
      in if len = 0 then NullPtr
         else if len = 4 \<and> take 4 tail = ''true'' then Value (BoolN True)
         else if len = 5 \<and> take 5 tail = ''false'' then Value (BoolN False)
         else if len = 4 \<and> take 4 tail = ''null'' then Value NullN
         else if tail = [] then Fault
         else if hd tail = CHR ''-'' \<or> is_digit (hd tail) then try_parse_number r start len
         else NullPtr)"

definition is_comment_start :: "Reader \<Rightarrow> nat \<Rightarrow> bool" where
  "is_comment_start r pos =
     (let c = hdata r ! pos
      in if has_class CC_HASH c then True
         else if has_class CC_SLASH c \<and> pos + 1 < hlen r then
           hdata r ! (pos + 1) = CHR ''/'' \<or> hdata r ! (pos + 1) = CHR ''*''
         else False)"

text \<open>The difference of two positions in \<^verbatim>\<open>size_t\<close>, and the string of that length, which is
  an exception or a read outside the buffer if the length leaves it.\<close>

definition size_diff :: "Reader \<Rightarrow> nat \<Rightarrow> nat \<Rightarrow> nat" where
  "size_diff r a b = (if b \<le> a then a - b else 2 ^ hbits r - (b - a))"

definition MakeString :: "Reader \<Rightarrow> nat \<Rightarrow> nat \<Rightarrow> DataNode outcome" where
  "MakeString r start len =
     (if length (hdata r) < start + len then Fault else Value (StringN (take len (drop start (hdata r)))))"

text \<open>Behind the loop of \<^verbatim>\<open>read_unquoted_value\<close>.\<close>

definition unquoted_end :: "Reader \<Rightarrow> nat \<Rightarrow> nat \<Rightarrow> nat \<Rightarrow> (DataNode \<times> nat) outcome" where
  "unquoted_end r valStart valEnd pos =
     (let valLen = size_diff r valEnd valStart
      in if valLen = 0 then NullPtr
         else case try_parse_keyword_or_number r valStart valLen of
                Fault \<Rightarrow> Fault
              | Value kw \<Rightarrow> Value (kw, pos)
              | NullPtr \<Rightarrow> and_then (MakeString r valStart valLen) (\<lambda>s. Value (s, pos)))"

function unquoted_loop :: "Reader \<Rightarrow> nat \<Rightarrow> nat \<Rightarrow> nat \<Rightarrow> (DataNode \<times> nat) outcome" where
  "unquoted_loop r valStart valEnd pos =
     (if hlen r \<le> pos then unquoted_end r valStart valEnd pos
      else let c = hdata r ! pos
      in if has_class CC_NL c then unquoted_end r valStart valEnd pos
      else let isBreak = (c = CHR '','' \<or> c = CHR ''}'' \<or> c = CHR '']'' \<or> is_comment_start r pos)
      in case (if isBreak then try_parse_keyword_or_number r valStart (size_diff r valEnd valStart) else NullPtr) of
           Fault \<Rightarrow> Fault
         | Value kw \<Rightarrow> Value (kw, pos)
         | NullPtr \<Rightarrow> unquoted_loop r valStart (if 32 < code c then pos + 1 else valEnd) (pos + 1))"
  by auto
termination by (relation "measure (\<lambda>(r, valStart, valEnd, pos). hlen r - pos)") auto

declare unquoted_loop.simps [simp del]

definition read_unquoted_value :: "Reader \<Rightarrow> nat \<Rightarrow> (DataNode \<times> nat) outcome" where
  "read_unquoted_value r pos =
     (let first = peek r pos
      in if is_punctuator first then NullPtr
         else unquoted_loop r (if schar first \<le> 32 \<and> 0 < schar first then pos + 1 else pos) pos pos)"

section \<open>Objects, arrays and values\<close>

text \<open>An outcome of a computation that may not return: None where a loop does not end.\<close>

definition and_run :: "'a outcome option \<Rightarrow> ('a \<Rightarrow> 'b outcome option) \<Rightarrow> 'b outcome option" where
  "and_run m f = Option.bind m (\<lambda>x. case x of Value y \<Rightarrow> f y | NullPtr \<Rightarrow> Some NullPtr | Fault \<Rightarrow> Some Fault)"

lemma and_run_simps [simp]:
  "and_run (Some (Value x)) f = f x"
  "and_run (Some NullPtr) f = Some NullPtr"
  "and_run (Some Fault) f = Some Fault"
  "and_run None f = None"
  by (simp_all add: and_run_def)

lemma and_run_cong [fundef_cong]:
  "m = m' \<Longrightarrow> (\<And>x. m' = Some (Value x) \<Longrightarrow> f x = f' x) \<Longrightarrow> and_run m f = and_run m' f'"
  by (auto simp: and_run_def split: outcome.split intro!: Option.bind_cong)

lemma and_run_mono [partial_function_mono]:
  assumes "mono_option B" "\<And>y. mono_option (\<lambda>f. C y f)"
  shows "mono_option (\<lambda>f. and_run (B f) (\<lambda>y. C y f))"
  unfolding and_run_def
proof (rule bind_mono [OF assms(1)])
  fix x :: "'c outcome"
  show "mono_option (\<lambda>f. case x of Value y \<Rightarrow> C y f | NullPtr \<Rightarrow> Some NullPtr | Fault \<Rightarrow> Some Fault)"
    using assms(2) by (cases x) (simp_all add: option.const_mono)
qed

text \<open>The two loops; \<open>self\<close> reads a value one level deeper.\<close>

partial_function (option) object_loop ::
    "(nat \<Rightarrow> (DataNode \<times> nat) outcome option) \<Rightarrow> Reader \<Rightarrow> bool \<Rightarrow> (string \<times> DataNode) list \<Rightarrow> nat
     \<Rightarrow> ((string \<times> DataNode) list \<times> nat) outcome option" where
  "object_loop self r braced obj pos =
     (if pos < hlen r \<and> \<not> (braced \<and> hdata r ! pos = CHR ''}'') then
        and_run (Some (read_key r pos)) (\<lambda>(key, pos).
        and_run (Some (skip_ws r pos)) (\<lambda>pos.
          if peek r pos \<noteq> CHR '':'' then Some NullPtr
          else and_run (Some (skip_ws r (pos + 1))) (\<lambda>pos.
               and_run (self pos) (\<lambda>(val, pos).
               and_run (Some (skip_separator r pos)) (\<lambda>pos.
                 object_loop self r braced (map_put (hlayout r) key val obj) pos)))))
      else Some (Value (obj, pos)))"

definition read_object ::
    "(nat \<Rightarrow> (DataNode \<times> nat) outcome option) \<Rightarrow> Reader \<Rightarrow> bool \<Rightarrow> nat \<Rightarrow> (DataNode \<times> nat) outcome option" where
  "read_object self r braced pos =
     and_run (Some (skip_ws r pos)) (\<lambda>pos.
     and_run (object_loop self r braced [] pos) (\<lambda>(obj, pos).
       if braced then
         (if hlen r \<le> pos \<or> hdata r ! pos \<noteq> CHR ''}'' then Some NullPtr else Some (Value (ObjectN obj, pos + 1)))
       else Some (Value (ObjectN obj, pos))))"

partial_function (option) array_loop ::
    "(nat \<Rightarrow> (DataNode \<times> nat) outcome option) \<Rightarrow> Reader \<Rightarrow> DataNode list \<Rightarrow> nat
     \<Rightarrow> (DataNode list \<times> nat) outcome option" where
  "array_loop self r arr pos =
     (if pos < hlen r \<and> hdata r ! pos \<noteq> CHR '']'' then
        and_run (self pos) (\<lambda>(val, pos).
        and_run (Some (skip_separator r pos)) (\<lambda>pos.
          array_loop self r (arr @ [val]) pos))
      else Some (Value (arr, pos)))"

definition read_array ::
    "(nat \<Rightarrow> (DataNode \<times> nat) outcome option) \<Rightarrow> Reader \<Rightarrow> nat \<Rightarrow> (DataNode \<times> nat) outcome option" where
  "read_array self r pos =
     and_run (Some (skip_ws r pos)) (\<lambda>pos.
     and_run (array_loop self r [] pos) (\<lambda>(arr, pos).
       if hlen r \<le> pos \<or> hdata r ! pos \<noteq> CHR '']'' then Some NullPtr else Some (Value (ArrayN arr, pos + 1))))"

declare object_loop.simps [code] array_loop.simps [code]

function read_value :: "Reader \<Rightarrow> nat \<Rightarrow> nat \<Rightarrow> (DataNode \<times> nat) outcome option" where
  "read_value r depth pos =
     (if kMaxDepth < depth then Some NullPtr
      else and_run (Some (skip_ws r pos)) (\<lambda>pos.
        if hlen r \<le> pos then Some NullPtr
        else let c = hdata r ! pos
        in if c = CHR ''{'' then read_object (\<lambda>pos. read_value r (depth + 1) pos) r True (pos + 1)
        else if c = CHR ''['' then read_array (\<lambda>pos. read_value r (depth + 1) pos) r (pos + 1)
        else if has_class CC_QUOTE c then
          Some (and_then (read_quoted_string r True pos) (\<lambda>(s, pos). Value (StringN s, pos)))
        else Some (read_unquoted_value r pos)))"
  by auto
termination by (relation "measure (\<lambda>(r, depth, pos). Suc kMaxDepth - depth)") auto

declare read_value.simps [simp del]

section \<open>Entry point\<close>

text \<open>The environment of a call: the table of scanners, the layout of string maps and the width of
  \<^verbatim>\<open>size_t\<close>.\<close>

record hjson_env =
  env_scan :: Scanner
  env_layout :: "string list \<Rightarrow> string list"
  env_bits :: nat

definition padded :: "hjson_env \<Rightarrow> string \<Rightarrow> Reader" where
  "padded env t = \<lparr>hdata = t @ replicate kPadding NUL, hlen = length t, hscan = env_scan env,
     hlayout = env_layout env, hbits = env_bits env\<rparr>"

text \<open>What follows a value up to the end of the text.\<close>

definition whole :: "Reader \<Rightarrow> DataNode \<times> nat \<Rightarrow> DataNode outcome" where
  "whole r = (\<lambda>(v, pos). and_then (skip_ws r pos) (\<lambda>pos. if pos < hlen r then NullPtr else Value v))"

text \<open>The text of a null pointer is None.\<close>

definition HjsonParse :: "hjson_env \<Rightarrow> string option \<Rightarrow> DataNode outcome option" where
  "HjsonParse env data = (case data of
     None \<Rightarrow> Some NullPtr
   | Some t \<Rightarrow>
     if t = [] then Some NullPtr
     else let r = padded env t
     in and_run (Some (skip_ws r 0)) (\<lambda>pos.
       if hlen r \<le> pos then Some NullPtr
       else let c = hdata r ! pos
       in if c = CHR ''['' \<or> c = CHR ''{'' then
            and_run (read_value r 0 pos) (\<lambda>vp. Some (whole r vp))
          else
            Option.bind (and_run (read_object (read_value r 1) r False pos) (\<lambda>vp. Some (whole r vp))) (\<lambda>root.
              case root of
                NullPtr \<Rightarrow> and_run (Some (skip_ws r 0)) (\<lambda>pos.
                  and_run (read_value r 0 pos) (\<lambda>vp. Some (whole r vp)))
              | _ \<Rightarrow> Some root)))"

end
