(* ===== verification/Hjson_Safety.thy ===== *)
theory Hjson_Safety
  imports Hjson
begin

text \<open>
  What holds of every run of the Hjson parser: with either table of scanners it returns, it stays
  in the padded buffer, the two tables give the same result, and what it returns is well-formed.
  The one way to fault is an unquoted value that starts with a control character.
\<close>

section \<open>Readers in order\<close>

definition reader_ok :: "Reader \<Rightarrow> bool" where
  "reader_ok r \<longleftrightarrow> scanner (hscan r) \<and> length (hdata r) = hlen r + kPadding \<and> layout_ok (hlayout r)"

text \<open>The text from a position on.\<close>

definition text_at :: "Reader \<Rightarrow> nat \<Rightarrow> string" where
  "text_at r pos = take (hlen r - pos) (drop pos (hdata r))"

lemma text_at_simps:
  assumes "reader_ok r"
  shows "length (text_at r pos) = hlen r - pos"
    and "i < hlen r - pos \<Longrightarrow> text_at r pos ! i = hdata r ! (pos + i)"
    and "pos < hlen r \<Longrightarrow> text_at r pos = hdata r ! pos # text_at r (Suc pos)"
    and "hlen r \<le> pos \<Longrightarrow> text_at r pos = []"
proof -
  note l = assms [unfolded reader_ok_def kPadding_def]
  from l show "length (text_at r pos) = hlen r - pos"
    and "i < hlen r - pos \<Longrightarrow> text_at r pos ! i = hdata r ! (pos + i)"
    and "hlen r \<le> pos \<Longrightarrow> text_at r pos = []"
    by (simp_all add: text_at_def)
  from l show "pos < hlen r \<Longrightarrow> text_at r pos = hdata r ! pos # text_at r (Suc pos)"
    by (simp add: text_at_def Suc_diff_Suc [symmetric] take_drop_Suc)
qed

lemma scan_runs:
  assumes "reader_ok r" "pos \<le> hlen r"
  shows "ws_run r pos = Value (prefix_len (has_class CC_WS) (text_at r pos))"
    and "line_run r pos = Value (prefix_len (\<lambda>c. c \<noteq> LF \<and> c \<noteq> CR) (text_at r pos))"
    and "star_run r pos = Value (prefix_len (\<lambda>c. c \<noteq> CHR ''*'') (text_at r pos))"
    and "plain_run r quote pos
      = Value (prefix_len (\<lambda>c. c \<noteq> quote \<and> c \<noteq> BACKSLASH \<and> c \<noteq> LF \<and> c \<noteq> CR) (text_at r pos))"
proof -
  have s: "scanner (hscan r)" and l: "hlen r - pos + 32 \<le> length (drop pos (hdata r))"
    using assms by (simp_all add: reader_ok_def kPadding_def)
  show "ws_run r pos = Value (prefix_len (has_class CC_WS) (text_at r pos))"
    using scanner.skip_ws_law [OF s l] by (simp add: ws_run_def text_at_def)
  show "line_run r pos = Value (prefix_len (\<lambda>c. c \<noteq> LF \<and> c \<noteq> CR) (text_at r pos))"
    using scanner.newline_law [OF s l] by (simp add: line_run_def text_at_def)
  show "star_run r pos = Value (prefix_len (\<lambda>c. c \<noteq> CHR ''*'') (text_at r pos))"
    using scanner.char_law [OF s l] by (simp add: star_run_def text_at_def)
  show "plain_run r quote pos
      = Value (prefix_len (\<lambda>c. c \<noteq> quote \<and> c \<noteq> BACKSLASH \<and> c \<noteq> LF \<and> c \<noteq> CR) (text_at r pos))"
    using scanner.quote_law [OF s l] by (simp add: plain_run_def text_at_def)
qed

lemma prefix_text_le: "reader_ok r \<Longrightarrow> pos \<le> hlen r \<Longrightarrow> pos + prefix_len P (text_at r pos) \<le> hlen r"
  using prefix_len_le [of P "text_at r pos"] by (simp add: text_at_simps(1))

lemma prefix_text_stop:
  assumes "reader_ok r" "pos + prefix_len P (text_at r pos) < hlen r"
  shows "\<not> P (hdata r ! (pos + prefix_len P (text_at r pos)))"
proof -
  have "prefix_len P (text_at r pos) < length (text_at r pos)"
    using assms by (simp add: text_at_simps(1))
  then have "\<not> P (text_at r pos ! prefix_len P (text_at r pos))"
    unfolding prefix_len_def by (rule nth_length_takeWhile)
  then show ?thesis using assms by (simp add: text_at_simps(2))
qed

section \<open>White space and comments\<close>

text \<open>A position behind the current one and inside the text.\<close>

definition ahead :: "Reader \<Rightarrow> nat \<Rightarrow> nat \<Rightarrow> bool" where
  "ahead r pos q \<longleftrightarrow> pos \<le> q \<and> q \<le> hlen r"

lemma skip_line_ahead:
  assumes "reader_ok r" "pos \<le> hlen r"
  shows "\<exists>q. skip_line r pos = Value q \<and> ahead r pos q"
  using prefix_text_le [OF assms, of "\<lambda>c. c \<noteq> LF \<and> c \<noteq> CR"]
  by (auto simp: skip_line_def scan_runs [OF assms] ahead_def Let_def)

lemma skip_block_ahead:
  assumes "reader_ok r" "pos \<le> hlen r"
  shows "\<exists>q. skip_block r pos = Value q \<and> ahead r pos q"
  using assms
proof (induction r pos rule: skip_block.induct)
  case (1 r pos)
  let ?n = "prefix_len (\<lambda>c. c \<noteq> CHR ''*'') (text_at r pos)"
  show ?case
  proof (cases "pos + 1 < hlen r")
    case True
    note IH = 1(1) [OF True scan_runs(3) [OF 1(2,3)] refl]
    have le: "pos + ?n \<le> hlen r" by (rule prefix_text_le [OF 1(2,3)])
    show ?thesis
    proof (cases "pos + ?n + 1 < hlen r \<and> hdata r ! (pos + ?n) = CHR ''*'' \<and> hdata r ! (pos + ?n + 1) = CHR ''/''")
      case yes: True
      with True 1 show ?thesis by (subst skip_block.simps) (simp add: scan_runs ahead_def)
    next
      case no: False
      let ?p = "if pos + ?n < hlen r then pos + ?n + 1 else pos + ?n"
      have "?p \<le> hlen r" using le by simp
      then obtain q where "skip_block r ?p = Value q" "ahead r ?p q" using IH [OF no 1(2)] by blast
      moreover from this(1) True no have "skip_block r pos = Value q"
        by (subst skip_block.simps)
           (simp only: scan_runs [OF 1(2,3)] and_then.simps Let_def if_True if_False)
      ultimately show ?thesis by (auto simp: ahead_def split: if_splits)
    qed
  next
    case False
    with 1(3) show ?thesis by (subst skip_block.simps) (simp add: ahead_def)
  qed
qed

text \<open>\<open>skip_ws\<close> ends at the end or in front of a character that is not white space.\<close>

lemma skip_ws_ahead:
  assumes "reader_ok r" "pos \<le> hlen r"
  shows "\<exists>q. skip_ws r pos = Value q \<and> ahead r pos q \<and> (q < hlen r \<longrightarrow> \<not> has_class CC_WS (hdata r ! q))"
  using assms
proof (induction r pos rule: skip_ws.induct)
  case (1 r pos)
  let ?p = "pos + prefix_len (has_class CC_WS) (text_at r pos)"
  let ?G = "\<lambda>pos q. skip_ws r pos = Value q \<and> ahead r pos q \<and> (q < hlen r \<longrightarrow> \<not> has_class CC_WS (hdata r ! q))"
  note IH = 1(1-3) [OF _ scan_runs(1) [OF 1(4,5)] refl _ refl]
  have le: "?p \<le> hlen r" by (rule prefix_text_le [OF 1(4,5)])
  consider "hlen r \<le> pos" | "pos < hlen r" "hlen r \<le> ?p"
    | "pos < hlen r" "?p < hlen r" "hdata r ! ?p = CHR ''#''"
    | "pos < hlen r" "?p + 1 < hlen r" "hdata r ! ?p = CHR ''/''" "hdata r ! (?p + 1) = CHR ''/''"
    | "pos < hlen r" "?p + 1 < hlen r" "hdata r ! ?p = CHR ''/''" "hdata r ! (?p + 1) = CHR ''*''"
    | "pos < hlen r" "?p < hlen r" "hdata r ! ?p \<noteq> CHR ''#''"
      "\<not> (hdata r ! ?p = CHR ''/'' \<and> ?p + 1 < hlen r
          \<and> (hdata r ! (?p + 1) = CHR ''/'' \<or> hdata r ! (?p + 1) = CHR ''*''))"
    by linarith
  then show ?case
  proof cases
    case 3
    then obtain q where q: "skip_line r (?p + 1) = Value q" "ahead r (?p + 1) q"
      using skip_line_ahead [OF 1(4), of "?p + 1"] by auto
    moreover obtain q' where "?G q q'" using IH(1) [OF 3(1) _ 3(3) q(1) 1(4)] 3 q(2) by (auto simp: ahead_def)
    ultimately show ?thesis using 3
      by (intro exI [of _ q']) (subst skip_ws.simps, simp add: scan_runs [OF 1(4,5)] Let_def ahead_def)
  next
    case 4
    then obtain q where q: "skip_line r (?p + 2) = Value q" "ahead r (?p + 2) q"
      using skip_line_ahead [OF 1(4), of "?p + 2"] by auto
    moreover obtain q' where "?G q q'" using IH(2) [OF 4(1) _ _ _ 4(4) q(1) 1(4)] 4 q(2) by (auto simp: ahead_def)
    ultimately show ?thesis using 4
      by (intro exI [of _ q']) (subst skip_ws.simps, simp add: scan_runs [OF 1(4,5)] Let_def ahead_def)
  next
    case 5
    then obtain q where q: "skip_block r (?p + 2) = Value q" "ahead r (?p + 2) q"
      using skip_block_ahead [OF 1(4), of "?p + 2"] by auto
    moreover obtain q' where "?G q q'" using IH(3) [OF 5(1) _ _ _ _ 5(4) q(1) 1(4)] 5 q(2) by (auto simp: ahead_def)
    ultimately show ?thesis using 5
      by (intro exI [of _ q']) (subst skip_ws.simps, simp add: scan_runs [OF 1(4,5)] Let_def ahead_def)
  next
    case 6
    then show ?thesis using prefix_text_stop [OF 1(4) 6(2)] le
      by (subst skip_ws.simps) (auto simp: scan_runs [OF 1(4,5)] Let_def ahead_def)
  qed (use 1 le in \<open>subst skip_ws.simps, simp add: scan_runs ahead_def Let_def\<close>)+
qed

lemma skip_separator_ahead:
  assumes "reader_ok r" "pos \<le> hlen r"
  shows "\<exists>q. skip_separator r pos = Value q \<and> ahead r pos q"
proof -
  obtain p where p: "skip_ws r pos = Value p" "ahead r pos p" using skip_ws_ahead [OF assms] by blast
  show ?thesis
  proof (cases "p < hlen r \<and> hdata r ! p = CHR '',''")
    case True
    then obtain q where "skip_ws r (p + 1) = Value q" "ahead r (p + 1) q"
      using skip_ws_ahead [OF assms(1), of "p + 1"] by auto
    with p True show ?thesis by (auto simp: skip_separator_def ahead_def)
  qed (use p in \<open>auto simp: skip_separator_def\<close>)
qed

section \<open>Strings and keys\<close>

text \<open>A reading routine makes progress, stays in the text and does not fault.\<close>

definition reads :: "Reader \<Rightarrow> nat \<Rightarrow> ('a \<times> nat) outcome \<Rightarrow> bool" where
  "reads r pos res \<longleftrightarrow> res \<noteq> Fault \<and> (\<forall>x q. res = Value (x, q) \<longrightarrow> pos < q \<and> q \<le> hlen r)"

lemma reads_simps [simp]:
  "reads r pos NullPtr"
  "\<not> reads r pos Fault"
  "reads r pos (Value (x, q)) \<longleftrightarrow> pos < q \<and> q \<le> hlen r"
  by (auto simp: reads_def)

lemma reads_weaken: "reads r q res \<Longrightarrow> pos \<le> q \<Longrightarrow> reads r pos res"
  by (auto simp: reads_def)

lemma quoted_loop_reads:
  assumes "reader_ok r" "pos \<le> hlen r"
  shows "reads r pos (quoted_loop r quote out pos)"
  using assms(2)
proof (induction "hlen r - pos" arbitrary: pos out rule: less_induct)
  case less
  note [simp] = scan_runs [OF assms(1) less.prems]
  let ?p = "pos + prefix_len (\<lambda>c. c \<noteq> quote \<and> c \<noteq> BACKSLASH \<and> c \<noteq> LF \<and> c \<noteq> CR) (text_at r pos)"
  have IH: "reads r pos (quoted_loop r quote out' q)" if "pos < q" "q \<le> hlen r" for out' q
    using reads_weaken [OF less.hyps [of q out'], of pos] that by linarith
  have u: "reads r pos (and_then (parse_u_escape r (Suc (Suc ?p))) (\<lambda>(cp, q). quoted_loop r quote (f cp) q))" for f
    by (auto simp: parse_u_escape_def intro!: IH split: option.split)
  show ?case
    by (subst quoted_loop.simps)
       (auto simp: Let_def intro!: IH u split: option.split)
qed

lemma skipIndent_le: "pos \<le> hlen r \<Longrightarrow> skipIndent r skip pos \<le> hlen r"
  by (induction skip arbitrary: pos) (auto simp: blank_at_def)

lemma skip_blanks_ahead: "pos \<le> hlen r \<Longrightarrow> ahead r pos (skip_blanks r pos)"
proof (induction r pos rule: skip_blanks.induct)
  case (1 r pos)
  then show ?case by (subst skip_blanks.simps) (auto simp: ahead_def blank_at_def)
qed

lemma multiline_loop_reads:
  assumes "pos \<le> hlen r"
  shows "reads r pos (multiline_loop r indent out triple lastLf pos)"
  using assms
proof (induction "hlen r - pos" arbitrary: pos out triple lastLf rule: less_induct)
  case less
  have IH: "reads r pos (multiline_loop r indent o' t' l' q)" if "pos < q" "q \<le> hlen r" for o' t' l' q
    using reads_weaken [OF less.hyps [of q o' t' l'], of pos] that by linarith
  have "pos < hlen r \<Longrightarrow> pos < skipIndent r indent (Suc pos) \<and> skipIndent r indent (Suc pos) \<le> hlen r"
    using skipIndent_mono [of "Suc pos" r indent] skipIndent_le [of "Suc pos" r indent] by simp
  then show ?case by (subst multiline_loop.simps) (auto simp: Let_def intro!: IH)
qed

lemma read_multiline_reads:
  assumes "pos \<le> hlen r"
  shows "reads r pos (read_multiline_string r pos)"
proof -
  let ?p = "skip_blanks r pos"
  have "ahead r pos ?p" by (rule skip_blanks_ahead [OF assms])
  moreover have "?p < hlen r \<Longrightarrow> ahead r pos (skipIndent r k (?p + 1))" for k
    using skipIndent_mono [of "?p + 1" r k] skipIndent_le [of "?p + 1" r k] calculation by (simp add: ahead_def)
  ultimately show ?thesis
    by (auto simp: read_multiline_string_def Let_def ahead_def
        intro: reads_weaken [OF multiline_loop_reads])
qed

lemma peek_less: "peek r pos \<noteq> NUL \<Longrightarrow> pos < hlen r \<and> hdata r ! pos = peek r pos"
  by (auto simp: peek_def split: if_splits)

lemma peek_at_less: "peek_at r pos n \<noteq> NUL \<Longrightarrow> pos + n < hlen r"
  by (auto simp: peek_at_def Let_def split: if_splits)

lemma read_quoted_reads:
  assumes "reader_ok r"
  shows "reads r pos (read_quoted_string r allowML pos)"
proof (cases "has_class CC_QUOTE (peek r pos)")
  case True
  then have p: "pos < hlen r" using peek_less [of r pos] by (auto simp: has_class_iff)
  then have "reads r pos (quoted_loop r q out (Suc pos))" for q out
    using reads_weaken [OF quoted_loop_reads [OF assms, of "Suc pos"], of pos] by simp
  moreover have "peek r (Suc pos) = SQUOTE \<Longrightarrow> Suc pos < hlen r" using peek_less [of r "Suc pos"] by auto
  moreover have "peek_at r (Suc pos) (Suc 0) = SQUOTE \<Longrightarrow>
      reads r pos (read_multiline_string r (Suc (Suc (Suc pos))))"
    using peek_at_less [of r "Suc pos" "Suc 0"]
      reads_weaken [OF read_multiline_reads [of "Suc (Suc (Suc pos))" r], of pos] by simp
  ultimately show ?thesis using True p by (auto simp: read_quoted_string_def Let_def)
next
  case False
  then show ?thesis by (simp add: read_quoted_string_def Let_def)
qed

text \<open>A key may end where it starts only in front of the closing quote or the colon.\<close>

lemma key_loop_reads:
  assumes "keyStart \<le> pos" "keyStart < keyEnd \<longrightarrow> keyStart < pos"
  shows "reads r keyStart (key_loop r keyStart keyEnd firstSpace pos)"
  using assms
proof (induction r keyStart keyEnd firstSpace pos rule: key_loop.induct)
  case (1 r keyStart keyEnd firstSpace pos)
  then show ?case by (subst key_loop.simps) (auto simp: Let_def)
qed

lemma read_key_reads: "reader_ok r \<Longrightarrow> reads r pos (read_key r pos)"
  by (simp add: read_key_def Let_def read_quoted_reads read_unquoted_key_def key_loop_reads)

section \<open>Unquoted values\<close>

text \<open>A text without control characters other than white space.\<close>

definition control :: "char \<Rightarrow> bool" where
  "control c \<longleftrightarrow> 0 < schar c \<and> schar c \<le> 32 \<and> \<not> has_class CC_WS c"

definition clean :: "Reader \<Rightarrow> bool" where
  "clean r \<longleftrightarrow> (\<forall>i < hlen r. \<not> control (hdata r ! i))"

lemma parse_double_wf: "parse_double tail len = Value v \<Longrightarrow> wf_node v"
  by (auto simp: parse_double_def Let_def split: prod.splits if_splits)

lemma parse_double_no_fault [simp]: "parse_double tail len \<noteq> Fault"
  by (auto simp: parse_double_def Let_def split: prod.splits if_splits)

lemma try_parse_number_wf: "try_parse_number r start len = Value v \<Longrightarrow> wf_node v"
  by (auto simp: try_parse_number_def Let_def dest: parse_double_wf
      split: prod.splits if_splits option.splits bool.splits)

lemma try_parse_keyword_wf: "try_parse_keyword_or_number r start len = Value v \<Longrightarrow> wf_node v"
  by (auto simp: try_parse_keyword_or_number_def Let_def dest: try_parse_number_wf split: if_splits)

lemma try_parse_keyword_no_fault:
  assumes "start + len \<le> length (hdata r)"
  shows "try_parse_keyword_or_number r start len \<noteq> Fault"
proof -
  have "try_parse_number r start len \<noteq> Fault"
    using assms by (auto simp: try_parse_number_def Let_def split: prod.split option.split bool.split)
  moreover have "len \<noteq> 0 \<Longrightarrow> drop start (hdata r) \<noteq> []" using assms by simp
  ultimately show ?thesis by (auto simp: try_parse_keyword_or_number_def Let_def)
qed

lemma unquoted_end_Value: "unquoted_end r valStart valEnd pos = Value (v, q) \<Longrightarrow> q = pos \<and> wf_node v"
  by (auto simp: unquoted_end_def MakeString_def Let_def dest: try_parse_keyword_wf
      split: if_splits outcome.splits)

lemma unquoted_end_no_fault:
  assumes "valStart \<le> valEnd" "valEnd \<le> length (hdata r)"
  shows "unquoted_end r valStart valEnd pos \<noteq> Fault"
  using assms try_parse_keyword_no_fault [of valStart "valEnd - valStart" r]
  by (auto simp: unquoted_end_def size_diff_def MakeString_def Let_def split: outcome.split)

lemma unquoted_loop_Value:
  assumes "unquoted_loop r valStart valEnd pos = Value (v, q)" "pos \<le> hlen r"
  shows "ahead r pos q \<and> wf_node v"
  using assms
proof (induction r valStart valEnd pos rule: unquoted_loop.induct)
  case (1 r valStart valEnd pos)
  show ?case
  proof (cases "pos < hlen r \<and> \<not> has_class CC_NL (hdata r ! pos)")
    case True
    then have nb: "(hlen r \<le> pos) = False" "has_class CC_NL (hdata r ! pos) = False" by auto
    define t where "t = (if hdata r ! pos = CHR '','' \<or> hdata r ! pos = CHR ''}'' \<or> hdata r ! pos = CHR '']''
        \<or> is_comment_start r pos
      then try_parse_keyword_or_number r valStart (size_diff r valEnd valStart) else NullPtr)"
    let ?next = "unquoted_loop r valStart (if 32 < code (hdata r ! pos) then pos + 1 else valEnd) (pos + 1)"
    have eq: "unquoted_loop r valStart valEnd pos =
        (case t of Fault \<Rightarrow> Fault | Value kw \<Rightarrow> Value (kw, pos) | NullPtr \<Rightarrow> ?next)"
      by (subst unquoted_loop.simps) (simp only: Let_def t_def nb if_False)
    show ?thesis
    proof (cases t)
      case (Value kw)
      then have "wf_node kw" by (auto simp: t_def dest: try_parse_keyword_wf split: if_splits)
      with Value 1(2,3) show ?thesis by (simp add: eq ahead_def)
    next
      case NullPtr
      with 1(2) have "?next = Value (v, q)" by (simp only: eq) simp
      moreover have "\<not> hlen r \<le> pos" "Suc pos \<le> hlen r" using True by auto
      ultimately have "ahead r (Suc pos) q \<and> wf_node v"
        using 1(1) [OF _ refl _ refl] True NullPtr unfolding t_def by simp
      then show ?thesis by (auto simp: ahead_def)
    qed (use 1(2) eq in simp)
  next
    case False
    with 1(2) have "unquoted_end r valStart valEnd pos = Value (v, q)"
      by (subst (asm) unquoted_loop.simps) (auto simp: Let_def split: if_splits)
    with 1(3) show ?thesis by (auto simp: ahead_def dest: unquoted_end_Value)
  qed
qed

lemma unquoted_loop_no_fault:
  assumes "reader_ok r" "valStart \<le> valEnd" "valEnd \<le> pos" "pos \<le> hlen r"
  shows "unquoted_loop r valStart valEnd pos \<noteq> Fault"
  using assms(2-)
proof (induction "hlen r - pos" arbitrary: valEnd pos rule: less_induct)
  case less
  have l: "valEnd \<le> length (hdata r)" using assms(1) less.prems by (simp add: reader_ok_def)
  have "try_parse_keyword_or_number r valStart (size_diff r valEnd valStart) \<noteq> Fault"
    using less.prems l by (intro try_parse_keyword_no_fault) (simp add: size_diff_def)
  moreover have "unquoted_loop r valStart e (Suc pos) \<noteq> Fault" if "pos < hlen r" "valStart \<le> e" "e \<le> Suc pos" for e
    using less.hyps [of "Suc pos" e] that by simp
  ultimately show ?case
    using less.prems unquoted_end_no_fault [OF less.prems(1) l]
    by (subst unquoted_loop.simps) (auto simp: Let_def split: outcome.split)
qed

lemma has_class_NL: "has_class CC_NL c \<Longrightarrow> has_class CC_WS c"
  by (auto simp: has_class_iff)

lemma read_unquoted_value_spec:
  assumes "reader_ok r" "pos < hlen r" "\<not> has_class CC_WS (hdata r ! pos)"
  shows "clean r \<Longrightarrow> read_unquoted_value r pos \<noteq> Fault"
    and "read_unquoted_value r pos = Value (v, q) \<Longrightarrow> pos < q \<and> q \<le> hlen r \<and> wf_node v"
proof -
  let ?c = "hdata r ! pos"
  let ?s = "if schar ?c \<le> 32 \<and> 0 < schar ?c then pos + 1 else pos"
  have peek: "peek r pos = ?c" using assms(2) by (simp add: peek_def)
  show "read_unquoted_value r pos \<noteq> Fault" if "clean r"
  proof -
    have "\<not> (schar ?c \<le> 32 \<and> 0 < schar ?c)" using that assms by (auto simp: clean_def control_def)
    then show ?thesis using unquoted_loop_no_fault [OF assms(1), of pos pos pos] assms(2)
      by (auto simp: read_unquoted_value_def peek Let_def)
  qed
  have "try_parse_keyword_or_number r pos 0 = NullPtr"
    by (simp add: try_parse_keyword_or_number_def Let_def)
  moreover have "?c \<noteq> CHR '','' \<and> ?c \<noteq> CHR ''}'' \<and> ?c \<noteq> CHR '']'' \<and> \<not> is_comment_start r pos" if "?s = pos + 1"
    using that by (auto simp: schar_def is_comment_start_def has_class_iff Let_def split: if_splits)
  ultimately have step: "unquoted_loop r ?s pos pos
      = unquoted_loop r ?s (if 32 < code ?c then pos + 1 else pos) (pos + 1)"
    using assms(2,3) by (subst unquoted_loop.simps) (auto simp: Let_def size_diff_def dest: has_class_NL)
  assume "read_unquoted_value r pos = Value (v, q)"
  then have "unquoted_loop r ?s pos pos = Value (v, q)"
    unfolding read_unquoted_value_def peek Let_def
    by (cases "is_punctuator ?c") (simp_all only: if_True if_False outcome.distinct)
  from unquoted_loop_Value [OF this [unfolded step]] assms(2)
  show "pos < q \<and> q \<le> hlen r \<and> wf_node v" by (simp add: ahead_def)
qed

section \<open>Values\<close>

text \<open>A run returns; without control characters it does not fault; its value satisfies a predicate and
  ends at a position from \<open>lo\<close> on.\<close>

definition returns :: "Reader \<Rightarrow> ('a \<Rightarrow> bool) \<Rightarrow> nat \<Rightarrow> ('a \<times> nat) outcome option \<Rightarrow> bool" where
  "returns r Q lo m \<longleftrightarrow> (\<exists>res. m = Some res \<and> (clean r \<longrightarrow> res \<noteq> Fault)
     \<and> (\<forall>x q. res = Value (x, q) \<longrightarrow> lo \<le> q \<and> q \<le> hlen r \<and> Q x))"

lemma returns_simps [simp]:
  "returns r Q lo (Some NullPtr)"
  "returns r Q lo (Some (Value (x, q))) \<longleftrightarrow> lo \<le> q \<and> q \<le> hlen r \<and> Q x"
  by (simp_all add: returns_def)

lemma returns_and_run:
  assumes "returns r P lo m"
    and "\<And>x q. lo \<le> q \<Longrightarrow> q \<le> hlen r \<Longrightarrow> P x \<Longrightarrow> returns r Q lo' (f (x, q))"
  shows "returns r Q lo' (and_run m f)"
proof -
  from assms(1) obtain res where res: "m = Some res" "clean r \<longrightarrow> res \<noteq> Fault"
    "\<forall>x q. res = Value (x, q) \<longrightarrow> lo \<le> q \<and> q \<le> hlen r \<and> P x" by (auto simp: returns_def)
  show ?thesis
  proof (cases res)
    case (Value xq)
    with res assms(2) show ?thesis by (cases xq) auto
  next
    case Fault
    with res show ?thesis by (simp add: returns_def)
  qed (use res in simp)
qed

lemma returns_reads: "reads r pos res \<Longrightarrow> returns r (\<lambda>_. True) (Suc pos) (Some res)"
  by (auto simp: returns_def reads_def)

lemma returns_skip_ws:
  assumes "reader_ok r" "pos \<le> hlen r"
    and "\<And>q. ahead r pos q \<Longrightarrow> (q < hlen r \<longrightarrow> \<not> has_class CC_WS (hdata r ! q)) \<Longrightarrow> returns r Q lo (f q)"
  shows "returns r Q lo (and_run (Some (skip_ws r pos)) f)"
  using skip_ws_ahead [OF assms(1,2)] assms(3) by auto

lemma returns_separator:
  assumes "reader_ok r" "pos \<le> hlen r" and "\<And>q. ahead r pos q \<Longrightarrow> returns r Q lo (f q)"
  shows "returns r Q lo (and_run (Some (skip_separator r pos)) f)"
  using skip_separator_ahead [OF assms(1,2)] assms(3) by auto

lemma returns_weaken: "returns r Q lo m \<Longrightarrow> lo' \<le> lo \<Longrightarrow> returns r Q lo' m"
  unfolding returns_def by fastforce

text \<open>A routine that reads one value from every position of the text.\<close>

definition value_reader :: "Reader \<Rightarrow> (nat \<Rightarrow> (DataNode \<times> nat) outcome option) \<Rightarrow> bool" where
  "value_reader r self \<longleftrightarrow> (\<forall>pos \<le> hlen r. returns r wf_node (Suc pos) (self pos))"

lemma array_loop_returns:
  assumes "reader_ok r" "value_reader r self" "pos \<le> hlen r" "\<forall>x \<in> set arr. wf_node x"
  shows "returns r (\<lambda>xs. \<forall>x \<in> set xs. wf_node x) pos (array_loop self r arr pos)"
  using assms(3,4)
proof (induction "hlen r - pos" arbitrary: pos arr rule: less_induct)
  case less
  have self: "returns r wf_node (Suc pos) (self pos)" using assms(2) less.prems by (simp add: value_reader_def)
  have loop: "returns r (\<lambda>xs. \<forall>x \<in> set xs. wf_node x) pos (array_loop self r (arr @ [x]) q)"
    if "Suc pos \<le> q" "q \<le> hlen r" "wf_node x" "pos < hlen r" for x q
    using returns_weaken [OF less.hyps [of q "arr @ [x]"], of pos] that less.prems by simp
  show ?case
  proof (cases "pos < hlen r \<and> hdata r ! pos \<noteq> CHR '']''")
    case True
    then show ?thesis
      by (subst array_loop.simps)
         (auto intro!: returns_and_run [OF self] returns_separator [OF assms(1)] loop simp: ahead_def)
  next
    case False
    with less.prems show ?thesis by (subst array_loop.simps) auto
  qed
qed

lemma object_loop_returns:
  assumes "reader_ok r" "value_reader r self" "pos \<le> hlen r"
    and "distinct (map fst m)" "\<forall>p \<in> set m. wf_node (snd p)"
  shows "returns r (\<lambda>m. distinct (map fst m) \<and> (\<forall>p \<in> set m. wf_node (snd p))) pos (object_loop self r braced m pos)"
  using assms(3-)
proof (induction "hlen r - pos" arbitrary: pos m rule: less_induct)
  case less
  let ?Q = "\<lambda>m. distinct (map fst m) \<and> (\<forall>p \<in> set m. wf_node (snd p))"
  have lay: "layout_ok (hlayout r)" using assms(1) by (simp add: reader_ok_def)
  have self: "p \<le> hlen r \<Longrightarrow> returns r wf_node (Suc p) (self p)" for p
    using assms(2) by (simp add: value_reader_def)
  have loop: "returns r ?Q pos (object_loop self r braced (map_put (hlayout r) k x m) q)"
    if "pos < q" "q \<le> hlen r" "wf_node x" for k x q
  proof -
    have "?Q (map_put (hlayout r) k x m)"
      using less.prems that map_put_distinct [OF lay less.prems(2)]
        map_put_entries [OF lay less.prems(2), where P = wf_node] by blast
    then have "returns r ?Q q (object_loop self r braced (map_put (hlayout r) k x m) q)"
      using less.hyps [of q] that by simp
    then show ?thesis by (rule returns_weaken) (use that in simp)
  qed
  show ?case
  proof (cases "pos < hlen r \<and> \<not> (braced \<and> hdata r ! pos = CHR ''}'')")
    case True
    have entry: "returns r ?Q pos (and_run (self p) (\<lambda>(val, pos). and_run (Some (skip_separator r pos))
        (\<lambda>pos. object_loop self r braced (map_put (hlayout r) k val m) pos)))" if "pos < p" "p \<le> hlen r" for k p
      using that by (auto intro!: returns_and_run [OF self] returns_separator [OF assms(1)] loop simp: ahead_def)
    have colon: "returns r ?Q pos (if peek r p \<noteq> CHR '':'' then Some NullPtr
        else and_run (Some (skip_ws r (p + 1))) (\<lambda>p. and_run (self p) (\<lambda>(val, pos).
          and_run (Some (skip_separator r pos))
            (\<lambda>pos. object_loop self r braced (map_put (hlayout r) k val m) pos))))" if "pos < p" for k p
    proof (cases "peek r p = CHR '':''")
      case True
      then have "p < hlen r" using peek_less [of r p] by simp
      then have "returns r ?Q pos (and_run (Some (skip_ws r (p + 1))) (\<lambda>p. and_run (self p) (\<lambda>(val, pos).
          and_run (Some (skip_separator r pos))
            (\<lambda>pos. object_loop self r braced (map_put (hlayout r) k val m) pos))))"
        by (intro returns_skip_ws [OF assms(1)] entry) (use that in \<open>auto simp: ahead_def\<close>)
      with True show ?thesis by simp
    qed simp
    have "returns r ?Q pos (and_run (Some (read_key r pos)) (\<lambda>(key, pos). and_run (Some (skip_ws r pos)) (\<lambda>p.
        if peek r p \<noteq> CHR '':'' then Some NullPtr
        else and_run (Some (skip_ws r (p + 1))) (\<lambda>p. and_run (self p) (\<lambda>(val, pos).
          and_run (Some (skip_separator r pos))
            (\<lambda>pos. object_loop self r braced (map_put (hlayout r) key val m) pos))))))"
      by (rule returns_and_run [OF returns_reads [OF read_key_reads [OF assms(1)]]], unfold case_prod_conv)
         (intro returns_skip_ws [OF assms(1)] colon, auto simp: ahead_def)
    with True show ?thesis by (subst object_loop.simps) simp
  next
    case False
    with less.prems show ?thesis by (subst object_loop.simps) auto
  qed
qed

lemma read_array_returns:
  assumes "reader_ok r" "value_reader r self" "pos \<le> hlen r"
  shows "returns r wf_node (Suc pos) (read_array self r pos)"
  unfolding read_array_def
  by (rule returns_skip_ws [OF assms(1,3)], rule returns_and_run [OF array_loop_returns [OF assms(1,2)]])
     (auto simp: ahead_def)

lemma read_object_returns:
  assumes "reader_ok r" "value_reader r self" "pos \<le> hlen r"
  shows "returns r wf_node pos (read_object self r braced pos)"
  unfolding read_object_def
  by (rule returns_skip_ws [OF assms(1,3)], rule returns_and_run [OF object_loop_returns [OF assms(1,2)]])
     (auto simp: ahead_def)

lemma read_value_reader:
  assumes "reader_ok r"
  shows "value_reader r (read_value r depth)"
proof (induction "Suc kMaxDepth - depth" arbitrary: depth rule: less_induct)
  case less
  show ?case
  proof (cases "kMaxDepth < depth")
    case True
    then show ?thesis by (simp add: value_reader_def read_value.simps)
  next
    case False
    then have sub: "value_reader r (read_value r (depth + 1))" by (intro less.hyps) simp
    have "returns r wf_node (Suc pos) (read_value r depth pos)" if "pos \<le> hlen r" for pos
    proof -
      have at: "returns r wf_node (Suc pos) (if hlen r \<le> q then Some NullPtr
        else let c = hdata r ! q
        in if c = CHR ''{'' then read_object (\<lambda>pos. read_value r (depth + 1) pos) r True (q + 1)
        else if c = CHR ''['' then read_array (\<lambda>pos. read_value r (depth + 1) pos) r (q + 1)
        else if has_class CC_QUOTE c then
          Some (and_then (read_quoted_string r True q) (\<lambda>(s, pos). Value (StringN s, pos)))
        else Some (read_unquoted_value r q))"
        if q: "ahead r pos q" "q < hlen r \<longrightarrow> \<not> has_class CC_WS (hdata r ! q)" for q
      proof -
        have "q < hlen r \<Longrightarrow> returns r wf_node (Suc pos) (read_object (read_value r (depth + 1)) r True (q + 1))"
          by (rule returns_weaken [OF read_object_returns [OF assms sub]]) (use q in \<open>auto simp: ahead_def\<close>)
        moreover have "q < hlen r \<Longrightarrow> returns r wf_node (Suc pos) (read_array (read_value r (depth + 1)) r (q + 1))"
          by (rule returns_weaken [OF read_array_returns [OF assms sub]]) (use q in \<open>auto simp: ahead_def\<close>)
        moreover have "q < hlen r \<Longrightarrow> returns r wf_node (Suc pos) (Some (read_unquoted_value r q))"
          using read_unquoted_value_spec [OF assms, of q] q by (auto simp: returns_def ahead_def)
        moreover have "returns r wf_node (Suc pos)
            (Some (and_then (read_quoted_string r True q) (\<lambda>(s, pos). Value (StringN s, pos))))"
          using read_quoted_reads [OF assms, of q True] q
          by (auto simp: returns_def reads_def ahead_def)
        ultimately show ?thesis by (simp add: Let_def)
      qed
      show ?thesis using False
        by (subst read_value.simps) (simp only: if_False, rule returns_skip_ws [OF assms that at])
    qed
    then show ?thesis by (simp add: value_reader_def)
  qed
qed

section \<open>Whole documents\<close>

definition env_ok :: "hjson_env \<Rightarrow> bool" where
  "env_ok env \<longleftrightarrow> (\<exists>no_simd avx2. env_scan env = init_scanner no_simd avx2) \<and> layout_ok (env_layout env)"

lemma padded_ok: "env_ok env \<Longrightarrow> reader_ok (padded env t)"
  by (auto simp: env_ok_def reader_ok_def padded_def intro: scan.scanner_axioms)

lemma padded_simps [simp]:
  "hlen (padded env t) = length t"
  "i < length t \<Longrightarrow> hdata (padded env t) ! i = t ! i"
  by (simp_all add: padded_def nth_append)

lemma clean_padded: "clean (padded env t) \<longleftrightarrow> (\<forall>c \<in> set t. \<not> control c)"
  by (auto simp: clean_def all_set_conv_all_nth)

lemma whole_returns:
  assumes "reader_ok r" "returns r wf_node lo m"
  shows "\<exists>res. and_run m (\<lambda>vp. Some (whole r vp)) = Some res \<and> (clean r \<longrightarrow> res \<noteq> Fault)
    \<and> (\<forall>v. res = Value v \<longrightarrow> wf_node v)"
proof -
  from assms(2) obtain res where res: "m = Some res" "clean r \<longrightarrow> res \<noteq> Fault"
    "\<forall>x q. res = Value (x, q) \<longrightarrow> q \<le> hlen r \<and> wf_node x" by (auto simp: returns_def)
  show ?thesis
  proof (cases res)
    case (Value vp)
    then obtain v p where vp: "vp = (v, p)" by (cases vp)
    with res Value obtain q where "skip_ws r p = Value q" using skip_ws_ahead [OF assms(1), of p] by auto
    with res Value vp show ?thesis by (auto simp: whole_def)
  qed (use res in auto)
qed

text \<open>C7: the parser returns on every text, with either table of scanners.  What it returns is a
  well-formed tree, and on a text without control characters (white space is not one) it never
  reads outside its padded buffer and never throws.\<close>

theorem HjsonParse_returns:
  assumes "env_ok env"
  shows "\<exists>res. HjsonParse env (Some t) = Some res
    \<and> ((\<forall>c \<in> set t. \<not> control c) \<longrightarrow> res \<noteq> Fault) \<and> (\<forall>v. res = Value v \<longrightarrow> wf_node v)"
proof -
  define r where "r = padded env t"
  have r: "reader_ok r" "hlen r = length t" "clean r \<longleftrightarrow> (\<forall>c \<in> set t. \<not> control c)"
    using assms by (simp_all add: r_def padded_ok clean_padded)
  let ?G = "\<lambda>m. \<exists>res. m = Some res \<and> (clean r \<longrightarrow> res \<noteq> Fault) \<and> (\<forall>v. res = Value v \<longrightarrow> wf_node v)"
  obtain p where p: "skip_ws r 0 = Value p" "p \<le> hlen r"
    using skip_ws_ahead [OF r(1), of 0] by (auto simp: ahead_def)
  have vals: "?G (and_run (read_value r 0 p) (\<lambda>vp. Some (whole r vp)))"
    using read_value_reader [OF r(1), of 0] p(2) by (intro whole_returns [OF r(1)]) (auto simp: value_reader_def)
  have "?G (and_run (read_object (read_value r 1) r False p) (\<lambda>vp. Some (whole r vp)))"
    by (rule whole_returns [OF r(1) read_object_returns [OF r(1) read_value_reader [OF r(1)] p(2)]])
  then obtain root where "and_run (read_object (read_value r 1) r False p) (\<lambda>vp. Some (whole r vp)) = Some root"
    "clean r \<longrightarrow> root \<noteq> Fault" "\<forall>v. root = Value v \<longrightarrow> wf_node v" by blast
  with vals have "?G (HjsonParse env (Some t))"
    unfolding HjsonParse_def option.case Let_def r_def [symmetric] by (cases root) (auto simp: p)
  then show ?thesis by (simp only: r)
qed

definition avx2_env :: hjson_env where
  "avx2_env = \<lparr>env_scan = init_scanner False True, env_layout = rev, env_bits = 64\<rparr>"

lemma avx2_env_ok: "env_ok avx2_env"
  unfolding env_ok_def avx2_env_def by (simp, intro exI, rule refl)

theorem HjsonParse_returns_witness:
  "env_ok avx2_env \<and> (\<exists>res. HjsonParse avx2_env (Some ''a: [1, x'') = Some res
     \<and> res \<noteq> Fault \<and> (\<forall>v. res = Value v \<longrightarrow> wf_node v))"
proof -
  have "\<forall>c \<in> set ''a: [1, x''. \<not> control c" by (simp add: control_def schar_def has_class_iff)
  with HjsonParse_returns [OF avx2_env_ok, of "''a: [1, x''"] avx2_env_ok show ?thesis by blast
qed

section \<open>The two tables of scanners\<close>

text \<open>Routines that do not scan do not depend on the table.\<close>

lemma rescan_fields:
  "hdata (r\<lparr>hscan := s\<rparr>) = hdata r" "hlen (r\<lparr>hscan := s\<rparr>) = hlen r"
  "hlayout (r\<lparr>hscan := s\<rparr>) = hlayout r" "hbits (r\<lparr>hscan := s\<rparr>) = hbits r"
  by simp_all

lemma rescan_indent [simp]:
  "indent_of (r\<lparr>hscan := s\<rparr>) i = indent_of r i"
  "blank_at (r\<lparr>hscan := s\<rparr>) pos = blank_at r pos"
  "skipIndent (r\<lparr>hscan := s\<rparr>) k pos = skipIndent r k pos"
proof -
  show b: "blank_at (r\<lparr>hscan := s\<rparr>) pos = blank_at r pos" for pos by (simp add: blank_at_def)
  show "indent_of (r\<lparr>hscan := s\<rparr>) i = indent_of r i" by (induction i) simp_all
  show "skipIndent (r\<lparr>hscan := s\<rparr>) k pos = skipIndent r k pos" by (induction k arbitrary: pos) (simp_all add: b)
qed

lemma rescan_blanks [simp]: "skip_blanks (r\<lparr>hscan := s\<rparr>) pos = skip_blanks r pos"
proof (induction r pos rule: skip_blanks.induct)
  case (1 r pos)
  then show ?case by (subst (1 2) skip_blanks.simps) simp
qed

lemma rescan_multiline [simp]:
  "multiline_loop (r\<lparr>hscan := s\<rparr>) indent out triple lastLf pos = multiline_loop r indent out triple lastLf pos"
proof (induction "hlen r - pos" arbitrary: pos out triple lastLf rule: less_induct)
  case less
  have IH: "multiline_loop (r\<lparr>hscan := s\<rparr>) indent o' t' l' q = multiline_loop r indent o' t' l' q"
    if "pos < hlen r" "pos < q" for o' t' l' q
    using less.hyps that by (simp add: diff_less_mono2)
  have "pos < skipIndent r indent (Suc pos)" using skipIndent_mono [of "Suc pos" r indent] by simp
  then show ?case by (subst (1 2) multiline_loop.simps) (auto simp: Let_def IH)
qed

lemma rescan_key [simp]:
  "key_loop (r\<lparr>hscan := s\<rparr>) keyStart keyEnd firstSpace pos = key_loop r keyStart keyEnd firstSpace pos"
proof (induction r keyStart keyEnd firstSpace pos rule: key_loop.induct)
  case (1 r keyStart keyEnd firstSpace pos)
  then show ?case by (subst (1 2) key_loop.simps) (simp add: Let_def)
qed

lemma rescan_token [simp]:
  "peek (r\<lparr>hscan := s\<rparr>) = peek r"
  "peek_at (r\<lparr>hscan := s\<rparr>) = peek_at r"
  "parse_u_escape (r\<lparr>hscan := s\<rparr>) = parse_u_escape r"
  "try_parse_keyword_or_number (r\<lparr>hscan := s\<rparr>) = try_parse_keyword_or_number r"
  "size_diff (r\<lparr>hscan := s\<rparr>) = size_diff r"
  "is_comment_start (r\<lparr>hscan := s\<rparr>) = is_comment_start r"
  "MakeString (r\<lparr>hscan := s\<rparr>) = MakeString r"
  "text_at (r\<lparr>hscan := s\<rparr>) = text_at r"
  by (simp_all only: fun_eq_iff peek_def peek_at_def parse_u_escape_def try_parse_keyword_or_number_def
      try_parse_number_def size_diff_def is_comment_start_def MakeString_def text_at_def rescan_fields simp_thms)

lemma rescan_unquoted [simp]:
  "unquoted_loop (r\<lparr>hscan := s\<rparr>) valStart valEnd pos = unquoted_loop r valStart valEnd pos"
proof (induction "hlen r - pos" arbitrary: valEnd pos rule: less_induct)
  case less
  have "unquoted_end (r\<lparr>hscan := s\<rparr>) valStart valEnd pos = unquoted_end r valStart valEnd pos"
    unfolding unquoted_end_def rescan_token by (rule refl)
  with less show ?case by (subst (1 2) unquoted_loop.simps) (simp add: Let_def split: outcome.split)
qed

section \<open>Routines that scan\<close>

lemma rescan_ok: "reader_ok r \<Longrightarrow> scanner s \<Longrightarrow> reader_ok (r\<lparr>hscan := s\<rparr>)"
  by (simp add: reader_ok_def)

lemma rescan_runs:
  assumes "reader_ok r" "scanner s" "pos \<le> hlen r"
  shows "ws_run (r\<lparr>hscan := s\<rparr>) pos = ws_run r pos" "line_run (r\<lparr>hscan := s\<rparr>) pos = line_run r pos"
    "star_run (r\<lparr>hscan := s\<rparr>) pos = star_run r pos" "plain_run (r\<lparr>hscan := s\<rparr>) quote pos = plain_run r quote pos"
  using scan_runs [OF assms(1,3)] scan_runs [OF rescan_ok [OF assms(1,2)], of pos] assms(3) by simp_all

lemma rescan_line:
  "reader_ok r \<Longrightarrow> scanner s \<Longrightarrow> pos \<le> hlen r \<Longrightarrow> skip_line (r\<lparr>hscan := s\<rparr>) pos = skip_line r pos"
  by (simp add: skip_line_def rescan_runs)

lemma rescan_block:
  assumes "reader_ok r" "scanner s" "pos \<le> hlen r"
  shows "skip_block (r\<lparr>hscan := s\<rparr>) pos = skip_block r pos"
  using assms(3)
proof (induction "hlen r - pos" arbitrary: pos rule: less_induct)
  case less
  note le = prefix_text_le [OF assms(1) less.prems, of "\<lambda>c. c \<noteq> CHR ''*''"]
  then show ?case
    by (subst (1 2) skip_block.simps)
       (simp add: rescan_runs [OF assms(1,2) less.prems] scan_runs [OF assms(1) less.prems] Let_def less.hyps)
qed

lemma rescan_ws:
  assumes "reader_ok r" "scanner s" "pos \<le> hlen r"
  shows "skip_ws (r\<lparr>hscan := s\<rparr>) pos = skip_ws r pos"
  using assms(3)
proof (induction "hlen r - pos" arbitrary: pos rule: less_induct)
  case less
  let ?p = "pos + prefix_len (has_class CC_WS) (text_at r pos)"
  have le: "?p \<le> hlen r" by (rule prefix_text_le [OF assms(1) less.prems])
  have line: "and_then (skip_line r q) (\<lambda>pos. skip_ws (r\<lparr>hscan := s\<rparr>) pos) = and_then (skip_line r q) (skip_ws r)"
    if "pos < q" "q \<le> hlen r" for q
    using skip_line_ahead [OF assms(1) that(2)] that less.hyps by (auto simp: ahead_def)
  have block: "and_then (skip_block r q) (\<lambda>pos. skip_ws (r\<lparr>hscan := s\<rparr>) pos) = and_then (skip_block r q) (skip_ws r)"
    if "pos < q" "q \<le> hlen r" for q
    using skip_block_ahead [OF assms(1) that(2)] that less.hyps by (auto simp: ahead_def)
  show ?case
    using le line block
    by (subst (1 2) skip_ws.simps)
       (simp add: rescan_runs [OF assms(1,2) less.prems] scan_runs [OF assms(1) less.prems] Let_def
         rescan_line [OF assms(1,2)] rescan_block [OF assms(1,2)])
qed

lemma rescan_separator:
  assumes "reader_ok r" "scanner s" "pos \<le> hlen r"
  shows "skip_separator (r\<lparr>hscan := s\<rparr>) pos = skip_separator r pos"
  using skip_ws_ahead [OF assms(1,3)]
  by (auto simp: skip_separator_def rescan_ws [OF assms] rescan_ws [OF assms(1,2)])

lemma rescan_quoted_loop:
  assumes "reader_ok r" "scanner s" "pos \<le> hlen r"
  shows "quoted_loop (r\<lparr>hscan := s\<rparr>) quote out pos = quoted_loop r quote out pos"
  using assms(3)
proof (induction "hlen r - pos" arbitrary: pos out rule: less_induct)
  case less
  have IH: "quoted_loop (r\<lparr>hscan := s\<rparr>) quote o' q = quoted_loop r quote o' q" if "pos < q" "q \<le> hlen r" for o' q
    using less.hyps that by simp
  have u: "and_then (parse_u_escape r q) (\<lambda>(cp, p). quoted_loop (r\<lparr>hscan := s\<rparr>) quote (f cp) p)
      = and_then (parse_u_escape r q) (\<lambda>(cp, p). quoted_loop r quote (f cp) p)" if "pos \<le> q" for q f
    using that by (auto simp: parse_u_escape_def IH split: option.split)
  show ?case
    by (subst (1 2) quoted_loop.simps)
       (auto simp: rescan_runs [OF assms(1,2) less.prems] scan_runs [OF assms(1) less.prems] Let_def IH u
         split: option.split)
qed

lemma rescan_quoted:
  assumes "reader_ok r" "scanner s"
  shows "read_quoted_string (r\<lparr>hscan := s\<rparr>) allowML pos = read_quoted_string r allowML pos"
proof (cases "pos < hlen r")
  case True
  then have q: "quoted_loop (r\<lparr>hscan := s\<rparr>) quote [] (pos + 1) = quoted_loop r quote [] (pos + 1)" for quote
    by (intro rescan_quoted_loop [OF assms]) simp
  have m: "read_multiline_string (r\<lparr>hscan := s\<rparr>) p = read_multiline_string r p" for p
    unfolding read_multiline_string_def rescan_indent rescan_blanks rescan_multiline rescan_fields by (rule refl)
  show ?thesis unfolding read_quoted_string_def Let_def rescan_token m q by (rule refl)
next
  case False
  then have "peek r pos = NUL" by (simp add: peek_def)
  then show ?thesis by (simp add: read_quoted_string_def has_class_iff)
qed

lemma rescan_read_key:
  "reader_ok r \<Longrightarrow> scanner s \<Longrightarrow> read_key (r\<lparr>hscan := s\<rparr>) pos = read_key r pos"
  by (simp add: read_key_def rescan_quoted read_unquoted_key_def Let_def)

text \<open>A run that continues behind a value.\<close>

lemma and_run_eq:
  assumes "returns r P lo m" "\<And>x q. lo \<le> q \<Longrightarrow> q \<le> hlen r \<Longrightarrow> f (x, q) = g (x, q)"
  shows "and_run m f = and_run m g"
proof -
  from assms(1) obtain res where "m = Some res" "\<forall>x q. res = Value (x, q) \<longrightarrow> lo \<le> q \<and> q \<le> hlen r"
    by (auto simp: returns_def)
  with assms(2) show ?thesis by (cases res) auto
qed

lemma and_run_ws_eq:
  assumes "reader_ok r" "pos \<le> hlen r" "\<And>q. ahead r pos q \<Longrightarrow> f q = g q"
  shows "and_run (Some (skip_ws r pos)) f = and_run (Some (skip_ws r pos)) g"
  using skip_ws_ahead [OF assms(1,2)] assms(3) by auto

lemma and_run_separator_eq:
  assumes "reader_ok r" "pos \<le> hlen r" "\<And>q. ahead r pos q \<Longrightarrow> f q = g q"
  shows "and_run (Some (skip_separator r pos)) f = and_run (Some (skip_separator r pos)) g"
  using skip_separator_ahead [OF assms(1,2)] assms(3) by auto

lemma rescan_array_loop:
  assumes "reader_ok r" "scanner s" "value_reader r self" "\<And>p. p \<le> hlen r \<Longrightarrow> self' p = self p" "pos \<le> hlen r"
  shows "array_loop self' (r\<lparr>hscan := s\<rparr>) arr pos = array_loop self r arr pos"
  using assms(5)
proof (induction "hlen r - pos" arbitrary: pos arr rule: less_induct)
  case less
  have IH: "array_loop self' (r\<lparr>hscan := s\<rparr>) a q = array_loop self r a q" if "pos < q" "q \<le> hlen r" for a q
    using less.hyps that by simp
  have "and_run (self pos) (\<lambda>(val, pos). and_run (Some (skip_separator (r\<lparr>hscan := s\<rparr>) pos))
        (\<lambda>pos. array_loop self' (r\<lparr>hscan := s\<rparr>) (arr @ [val]) pos))
      = and_run (self pos) (\<lambda>(val, pos). and_run (Some (skip_separator r pos))
        (\<lambda>pos. array_loop self r (arr @ [val]) pos))"
    using assms(3) less.prems unfolding value_reader_def
    by (intro and_run_eq [of r wf_node "Suc pos"])
       (auto simp: rescan_separator [OF assms(1,2)] ahead_def intro!: and_run_separator_eq [OF assms(1)] IH)
  with assms(4) less.prems show ?case by (subst (1 2) array_loop.simps) simp
qed

lemma rescan_object_loop:
  assumes "reader_ok r" "scanner s" "value_reader r self" "\<And>p. p \<le> hlen r \<Longrightarrow> self' p = self p" "pos \<le> hlen r"
  shows "object_loop self' (r\<lparr>hscan := s\<rparr>) braced m pos = object_loop self r braced m pos"
  using assms(5)
proof (induction "hlen r - pos" arbitrary: pos m rule: less_induct)
  case less
  have IH: "object_loop self' (r\<lparr>hscan := s\<rparr>) braced a q = object_loop self r braced a q" if "pos < q" "q \<le> hlen r" for a q
    using less.hyps that by simp
  have entry: "and_run (self' p) (\<lambda>(val, pos). and_run (Some (skip_separator (r\<lparr>hscan := s\<rparr>) pos))
        (\<lambda>pos. object_loop self' (r\<lparr>hscan := s\<rparr>) braced (f val) pos))
      = and_run (self p) (\<lambda>(val, pos). and_run (Some (skip_separator r pos))
        (\<lambda>pos. object_loop self r braced (f val) pos))" if "pos < p" "p \<le> hlen r" for p f
    using assms(3) that unfolding value_reader_def assms(4) [OF that(2)]
    by (intro and_run_eq [of r wf_node "Suc p"])
       (auto simp: rescan_separator [OF assms(1,2)] ahead_def intro!: and_run_separator_eq [OF assms(1)] IH)
  have colon: "(if peek r p \<noteq> CHR '':'' then Some NullPtr
        else and_run (Some (skip_ws (r\<lparr>hscan := s\<rparr>) (p + 1))) (\<lambda>p. and_run (self' p) (\<lambda>(val, pos).
          and_run (Some (skip_separator (r\<lparr>hscan := s\<rparr>) pos))
            (\<lambda>pos. object_loop self' (r\<lparr>hscan := s\<rparr>) braced (f val) pos))))
      = (if peek r p \<noteq> CHR '':'' then Some NullPtr
        else and_run (Some (skip_ws r (p + 1))) (\<lambda>p. and_run (self p) (\<lambda>(val, pos).
          and_run (Some (skip_separator r pos))
            (\<lambda>pos. object_loop self r braced (f val) pos))))" if "pos < p" for p f
  proof (cases "peek r p = CHR '':''")
    case True
    then have p: "p + 1 \<le> hlen r" using peek_less [of r p] by simp
    show ?thesis unfolding rescan_ws [OF assms(1,2) p] using that
      by (intro if_cong and_run_ws_eq [OF assms(1) p] entry) (auto simp: ahead_def)
  qed simp
  have "and_run (Some (read_key r pos)) (\<lambda>(key, pos). and_run (Some (skip_ws (r\<lparr>hscan := s\<rparr>) pos)) (\<lambda>p.
        if peek r p \<noteq> CHR '':'' then Some NullPtr
        else and_run (Some (skip_ws (r\<lparr>hscan := s\<rparr>) (p + 1))) (\<lambda>p. and_run (self' p) (\<lambda>(val, pos).
          and_run (Some (skip_separator (r\<lparr>hscan := s\<rparr>) pos))
            (\<lambda>pos. object_loop self' (r\<lparr>hscan := s\<rparr>) braced (map_put (hlayout r) key val m) pos)))))
      = and_run (Some (read_key r pos)) (\<lambda>(key, pos). and_run (Some (skip_ws r pos)) (\<lambda>p.
        if peek r p \<noteq> CHR '':'' then Some NullPtr
        else and_run (Some (skip_ws r (p + 1))) (\<lambda>p. and_run (self p) (\<lambda>(val, pos).
          and_run (Some (skip_separator r pos))
            (\<lambda>pos. object_loop self r braced (map_put (hlayout r) key val m) pos)))))"
    by (rule and_run_eq [OF returns_reads [OF read_key_reads [OF assms(1)]]])
       (auto simp only: case_prod_conv rescan_ws [OF assms(1,2)] ahead_def intro!: and_run_ws_eq [OF assms(1)] colon)
  then show ?case
    by (subst object_loop.simps [of self' "r\<lparr>hscan := s\<rparr>" braced m pos],
        subst object_loop.simps [of self r braced m pos])
       (simp only: rescan_fields rescan_token rescan_read_key [OF assms(1,2)])
qed

lemma rescan_containers:
  assumes "reader_ok r" "scanner s" "value_reader r self" "\<And>p. p \<le> hlen r \<Longrightarrow> self' p = self p" "pos \<le> hlen r"
  shows "read_array self' (r\<lparr>hscan := s\<rparr>) pos = read_array self r pos"
    and "read_object self' (r\<lparr>hscan := s\<rparr>) braced pos = read_object self r braced pos"
  unfolding read_array_def read_object_def rescan_ws [OF assms(1,2,5)] rescan_fields
  by (rule and_run_ws_eq [OF assms(1,5)],
      simp only: ahead_def rescan_array_loop [OF assms(1-4)] rescan_object_loop [OF assms(1-4)])+

lemma rescan_value:
  assumes "reader_ok r" "scanner s" "pos \<le> hlen r"
  shows "read_value (r\<lparr>hscan := s\<rparr>) depth pos = read_value r depth pos"
  using assms(3)
proof (induction "Suc kMaxDepth - depth" arbitrary: depth pos rule: less_induct)
  case less
  show ?case
  proof (cases "kMaxDepth < depth")
    case False
    then have IH: "p \<le> hlen r \<Longrightarrow> read_value (r\<lparr>hscan := s\<rparr>) (Suc depth) p = read_value r (Suc depth) p" for p
      by (intro less.hyps) simp_all
    note eqs = rescan_containers [OF assms(1,2) read_value_reader [OF assms(1)] IH]
    have uq: "read_unquoted_value (r\<lparr>hscan := s\<rparr>) p = read_unquoted_value r p" for p
      unfolding read_unquoted_value_def rescan_token rescan_unquoted by (rule refl)
    from False show ?thesis
      unfolding read_value.simps [of "r\<lparr>hscan := s\<rparr>" depth pos] read_value.simps [of r depth pos]
        rescan_ws [OF assms(1,2) less.prems] rescan_fields rescan_quoted [OF assms(1,2)] uq
      by (simp only: if_False) (rule and_run_ws_eq [OF assms(1) less.prems], auto simp: Let_def eqs)
  qed (simp add: read_value.simps)
qed

text \<open>C5: the AVX2 scanners and the scalar scanners give the same result on every text: the parser
  with the table that the processor allows is the parser with the scalar table.\<close>

theorem HjsonParse_avx2:
  assumes "layout_ok lay"
  shows "HjsonParse \<lparr>env_scan = init_scanner no_simd avx2, env_layout = lay, env_bits = w\<rparr> data
       = HjsonParse \<lparr>env_scan = init_scanner True avx2, env_layout = lay, env_bits = w\<rparr> data"
    (is "HjsonParse ?e data = HjsonParse ?e' data")
proof (cases data)
  case (Some t)
  define r where "r = padded ?e' t"
  let ?s = "init_scanner no_simd avx2"
  have r': "padded ?e t = r\<lparr>hscan := ?s\<rparr>" by (simp add: r_def padded_def)
  have r: "reader_ok r" unfolding r_def by (rule padded_ok) (use assms in \<open>auto simp: env_ok_def\<close>)
  note eqs = rescan_ws [OF r scanner_init] rescan_value [OF r scanner_init]
  obtain p where p: "skip_ws r 0 = Value p" "p \<le> hlen r" using skip_ws_ahead [OF r, of 0] by (auto simp: ahead_def)
  have whole: "returns r wf_node lo m \<Longrightarrow>
      and_run m (\<lambda>vp. Some (whole (r\<lparr>hscan := ?s\<rparr>) vp)) = and_run m (\<lambda>vp. Some (whole r vp))" for lo m
    by (rule and_run_eq, assumption) (simp add: whole_def eqs)
  note vr = read_value_reader [OF r] and le0 = le0 [of "hlen r"]
  have obj: "read_object (read_value (r\<lparr>hscan := ?s\<rparr>) 1) (r\<lparr>hscan := ?s\<rparr>) False p = read_object (read_value r 1) r False p"
    by (rule rescan_containers [OF r scanner_init vr _ p(2)]) (rule eqs)
  have "returns r wf_node (Suc p) (read_value r 0 p)" using vr p(2) by (simp add: value_reader_def)
  then show ?thesis
    unfolding HjsonParse_def Some option.case r_def [symmetric] r' Let_def rescan_fields eqs(1) [OF le0] p(1)
      and_run_simps eqs(2) [OF p(2)] obj whole [OF read_object_returns [OF r vr p(2)]]
    by (simp only: whole)
qed (simp add: HjsonParse_def)

theorem HjsonParse_avx2_witness:
  "layout_ok (rev :: string list \<Rightarrow> string list)
   \<and> HjsonParse avx2_env (Some ''{a: 1, b: x}'')
     = HjsonParse \<lparr>env_scan = init_scanner True True, env_layout = rev, env_bits = 64\<rparr> (Some ''{a: 1, b: x}'')"
  using HjsonParse_avx2 [of rev False True 64 "Some ''{a: 1, b: x}''"] by (simp add: avx2_env_def)


end
