(* ===== verification/Json_Text.thy ===== *)
theory Json_Text
  imports Data_Node C_Library
begin

text \<open>
  The JSON printer of \<^verbatim>\<open>src/data/data_node.cpp\<close>: strings with their escapes, leaves with the
  shortest text that reads back as the same double, and the compact and the indented form of a
  tree.
\<close>

section \<open>Strings and leaves\<close>

definition escape_char :: "char \<Rightarrow> string" where
  "escape_char c =
     (if c = CHR 0x22 then [CHR 0x5C, CHR 0x22]
      else if c = CHR 0x5C then [CHR 0x5C, CHR 0x5C]
      else if c = CHR 0x08 then [CHR 0x5C, CHR ''b'']
      else if c = CHR 0x0C then [CHR 0x5C, CHR ''f'']
      else if c = CHR 0x0A then [CHR 0x5C, CHR ''n'']
      else if c = CHR 0x0D then [CHR 0x5C, CHR ''r'']
      else if c = CHR 0x09 then [CHR 0x5C, CHR ''t'']
      else if code c < 0x20 then CHR 0x5C # CHR ''u'' # format_04x (code c)
      else [c])"

definition serialize_string :: "string \<Rightarrow> string" where
  "serialize_string s = CHR 0x22 # concat (map escape_char s) @ [CHR 0x22]"

text \<open>The loop over the precisions: the first text that reads back as the double, and the one with
  seventeen digits if there is none.\<close>

definition reads_back_as :: "f64 \<Rightarrow> nat \<Rightarrow> bool" where
  "reads_back_as d prec \<longleftrightarrow>
     (let rt = fst (strtod (format_g prec d)) in f64_eq rt d \<and> signbit rt = signbit d)"

definition shortest_g :: "f64 \<Rightarrow> string" where
  "shortest_g d = (case find (reads_back_as d) [1..<18] of Some prec \<Rightarrow> format_g prec d | None \<Rightarrow> format_g 17 d)"

definition is_exp_char :: "char \<Rightarrow> bool" where
  "is_exp_char c \<longleftrightarrow> c = CHR ''e'' \<or> c = CHR ''E''"

definition float_text :: "f64 \<Rightarrow> string" where
  "float_text d =
     (let buf = shortest_g d;
          mantissa = takeWhile (\<lambda>c. \<not> is_exp_char c) buf;
          ep = dropWhile (\<lambda>c. \<not> is_exp_char c) buf;
          has_dot = (CHR ''.'' \<in> set mantissa);
          has_exp = (ep \<noteq> []);
          ep = (if has_exp \<and> 1 < length ep \<and> ep ! 1 = CHR ''+'' then hd ep # drop 2 ep else ep)
      in mantissa @ ep @ (if \<not> has_dot \<and> \<not> has_exp then ''.0'' else ''''))"

definition serialize_leaf :: "DataNode \<Rightarrow> string" where
  "serialize_leaf node = (case node of
     NullN \<Rightarrow> ''null''
   | BoolN b \<Rightarrow> (if b then ''true'' else ''false'')
   | IntN i \<Rightarrow> format_lld i
   | FloatN d \<Rightarrow> (if f64_is_nan d \<or> f64_is_inf d then ''null'' else float_text d)
   | StringN s \<Rightarrow> serialize_string s
   | IntMapN m \<Rightarrow> ''null''
   | BinaryN bs \<Rightarrow> ''null''
   | _ \<Rightarrow> [])"

section \<open>Trees\<close>

definition kMaxSerializeDepth :: nat where "kMaxSerializeDepth = 128"

fun join :: "string \<Rightarrow> string list \<Rightarrow> string" where
  "join sep [] = []"
| "join sep [t] = t"
| "join sep (t # ts) = t @ sep @ join sep ts"

primrec serialize_value :: "DataNode \<Rightarrow> nat \<Rightarrow> string" where
  "serialize_value NullN depth = (if kMaxSerializeDepth < depth then ''null'' else serialize_leaf NullN)"
| "serialize_value (BoolN b) depth = (if kMaxSerializeDepth < depth then ''null'' else serialize_leaf (BoolN b))"
| "serialize_value (IntN i) depth = (if kMaxSerializeDepth < depth then ''null'' else serialize_leaf (IntN i))"
| "serialize_value (FloatN d) depth = (if kMaxSerializeDepth < depth then ''null'' else serialize_leaf (FloatN d))"
| "serialize_value (StringN s) depth = (if kMaxSerializeDepth < depth then ''null'' else serialize_leaf (StringN s))"
| "serialize_value (ArrayN xs) depth =
     (if kMaxSerializeDepth < depth then ''null''
      else ''['' @ join '','' (map (\<lambda>ser. ser (depth + 1)) (map serialize_value xs)) @ '']'')"
| "serialize_value (ObjectN m) depth =
     (if kMaxSerializeDepth < depth then ''null''
      else ''{'' @ join '','' (map (\<lambda>(key, ser). serialize_string key @ '':'' @ ser (depth + 1))
             (map (map_prod id serialize_value) m)) @ ''}'')"
| "serialize_value (IntMapN m) depth = (if kMaxSerializeDepth < depth then ''null'' else serialize_leaf (IntMapN m))"
| "serialize_value (BinaryN bs) depth = (if kMaxSerializeDepth < depth then ''null'' else serialize_leaf (BinaryN bs))"

definition spaces :: "nat \<Rightarrow> string" where
  "spaces depth = replicate (depth * 4) CHR '' ''"

primrec serialize_value_pretty :: "DataNode \<Rightarrow> nat \<Rightarrow> string" where
  "serialize_value_pretty NullN depth = (if kMaxSerializeDepth < depth then ''null'' else serialize_leaf NullN)"
| "serialize_value_pretty (BoolN b) depth = (if kMaxSerializeDepth < depth then ''null'' else serialize_leaf (BoolN b))"
| "serialize_value_pretty (IntN i) depth = (if kMaxSerializeDepth < depth then ''null'' else serialize_leaf (IntN i))"
| "serialize_value_pretty (FloatN d) depth = (if kMaxSerializeDepth < depth then ''null'' else serialize_leaf (FloatN d))"
| "serialize_value_pretty (StringN s) depth = (if kMaxSerializeDepth < depth then ''null'' else serialize_leaf (StringN s))"
| "serialize_value_pretty (ArrayN xs) depth =
     (if kMaxSerializeDepth < depth then ''null''
      else if xs = [] then ''[]''
      else ''['' @ [CHR 0x0A]
        @ join ('','' @ [CHR 0x0A]) (map (\<lambda>ser. spaces (depth + 1) @ ser (depth + 1)) (map serialize_value_pretty xs))
        @ [CHR 0x0A] @ spaces depth @ '']'')"
| "serialize_value_pretty (ObjectN m) depth =
     (if kMaxSerializeDepth < depth then ''null''
      else if m = [] then ''{}''
      else ''{'' @ [CHR 0x0A]
        @ join ('','' @ [CHR 0x0A]) (map (\<lambda>(key, ser). spaces (depth + 1) @ serialize_string key @ '': '' @ ser (depth + 1))
             (map (map_prod id serialize_value_pretty) m))
        @ [CHR 0x0A] @ spaces depth @ ''}'')"
| "serialize_value_pretty (IntMapN m) depth = (if kMaxSerializeDepth < depth then ''null'' else serialize_leaf (IntMapN m))"
| "serialize_value_pretty (BinaryN bs) depth = (if kMaxSerializeDepth < depth then ''null'' else serialize_leaf (BinaryN bs))"

definition DataSerializeJson :: "DataNode \<Rightarrow> bool \<Rightarrow> string" where
  "DataSerializeJson node pretty = (if pretty then serialize_value_pretty node 0 else serialize_value node 0)"

end
