(* ===== verification/Float_Text.thy ===== *)
theory Float_Text
  imports Complex_Main Json_Text
begin

text \<open>
  The text of a double: the printer turns the digits of \<^verbatim>\<open>%.*g\<close> into JSON (no plus sign in
  the exponent, a fraction where there is neither a point nor an exponent) and the value that
  \<^verbatim>\<open>strtod\<close> reads does not change.
\<close>

section \<open>The leading bit of a ratio\<close>

lemma floor_log2_bounds: "0 < n \<Longrightarrow> 2 ^ floor_log2 n \<le> n \<and> n < 2 ^ Suc (floor_log2 n)"
proof (induction n rule: floor_log2.induct)
  case (1 n)
  show ?case
  proof (cases "n < 2")
    case True
    with 1(2) show ?thesis by (subst (1 2) floor_log2.simps) auto
  next
    case False
    with 1 have "2 ^ floor_log2 (n div 2) \<le> n div 2 \<and> n div 2 < 2 ^ Suc (floor_log2 (n div 2))" by simp
    with False show ?thesis by (subst (1 2) floor_log2.simps) auto
  qed
qed

definition at_least_bit :: "nat \<Rightarrow> nat \<Rightarrow> int \<Rightarrow> bool" where
  "at_least_bit n d k \<longleftrightarrow> d * 2 ^ nat k \<le> n * 2 ^ nat (- k)"

lemma at_least_bit_real: "at_least_bit n d k \<longleftrightarrow> real d * 2 powi k \<le> real n"
proof (cases "0 \<le> k")
  case True
  then have "at_least_bit n d k \<longleftrightarrow> d * 2 ^ nat k \<le> n" by (simp add: at_least_bit_def)
  also have "\<dots> \<longleftrightarrow> real (d * 2 ^ nat k) \<le> real n" by (simp only: of_nat_le_iff)
  finally show ?thesis using True by (simp add: power_int_def)
next
  case False
  then have "at_least_bit n d k \<longleftrightarrow> d \<le> n * 2 ^ nat (- k)" by (simp add: at_least_bit_def)
  also have "\<dots> \<longleftrightarrow> real d \<le> real (n * 2 ^ nat (- k))" by (simp only: of_nat_le_iff)
  finally show ?thesis using False by (simp add: power_int_def field_simps)
qed

lemma ratio_log2_char:
  assumes "0 < n" "0 < d"
  shows "at_least_bit n d (ratio_log2 n d)" "\<not> at_least_bit n d (ratio_log2 n d + 1)"
proof -
  define a b where "a = int (floor_log2 n)" and "b = int (floor_log2 d)"
  have n: "(2::real) powi a \<le> real n" "real n < 2 powi (a + 1)"
    using floor_log2_bounds [OF assms(1)] of_nat_le_iff [of "2 ^ floor_log2 n" n, where ?'a = real]
      of_nat_less_iff [of n "2 ^ Suc (floor_log2 n)", where ?'a = real] by (simp_all add: a_def b_def power_int_add)
  have d: "(2::real) powi b \<le> real d" "real d < 2 powi (b + 1)"
    using floor_log2_bounds [OF assms(2)] of_nat_le_iff [of "2 ^ floor_log2 d" d, where ?'a = real]
      of_nat_less_iff [of d "2 ^ Suc (floor_log2 d)", where ?'a = real] by (simp_all add: a_def b_def power_int_add)
  have "real n < 2 powi b * 2 powi (a - b + 1)" using n(2) by (simp add: power_int_add [symmetric])
  also have "\<dots> \<le> real d * 2 powi (a - b + 1)" using d(1) by simp
  finally have up: "\<not> at_least_bit n d (a - b + 1)" by (simp add: at_least_bit_real)
  have "real d * 2 powi (a - b - 1) \<le> 2 powi (b + 1) * 2 powi (a - b - 1)" using d(2) by simp
  also have "\<dots> = 2 powi a" by (simp add: power_int_add [symmetric])
  finally have lo: "at_least_bit n d (a - b - 1)" using n(1) by (simp add: at_least_bit_real)
  show "at_least_bit n d (ratio_log2 n d)" "\<not> at_least_bit n d (ratio_log2 n d + 1)"
    using up lo by (auto simp: ratio_log2_def Let_def at_least_bit_def [of n d, symmetric] a_def b_def)
qed

lemma at_least_bit_mono: "at_least_bit n d k \<Longrightarrow> j \<le> k \<Longrightarrow> at_least_bit n d j"
  unfolding at_least_bit_real by (rule order_trans [rotated]) (auto intro!: mult_left_mono power_int_increasing)

lemma ratio_log2_scale:
  assumes "0 < n" "0 < d" "0 < c"
  shows "ratio_log2 (c * n) (c * d) = ratio_log2 n d"
proof -
  have eq: "at_least_bit (c * n) (c * d) k = at_least_bit n d k" for k
    using assms(3) by (simp add: at_least_bit_def mult.assoc)
  have "0 < c * n" "0 < c * d" using assms by simp_all
  note a = ratio_log2_char [OF this, unfolded eq] and b = ratio_log2_char [OF assms(1,2)]
  from a b have "\<not> ratio_log2 n d + 1 \<le> ratio_log2 (c * n) (c * d)" "\<not> ratio_log2 (c * n) (c * d) + 1 \<le> ratio_log2 n d"
    using at_least_bit_mono by blast+
  then show ?thesis by simp
qed

lemma div_round_scale: "0 < c \<Longrightarrow> div_round (c * a) (c * b) = div_round a b"
  by (simp add: div_round_def Let_def mult_mod_right [symmetric] mult.left_commute [of 2])

lemma f64_of_ratio_scale:
  assumes "0 < d" "0 < c"
  shows "f64_of_ratio (c * n) (c * d) = f64_of_ratio n d"
proof (cases "n = 0")
  case False
  then have "div_round (c * n * x) (c * d * y) = div_round (n * x) (d * y)" for x y
    using div_round_scale [OF assms(2), of "n * x" "d * y"] by (simp add: mult.assoc)
  with False assms show ?thesis by (simp add: f64_of_ratio_def ratio_log2_scale)
qed (simp add: f64_of_ratio_def)

lemma f64_of_decimal_point: "f64_of_decimal (10 * m) (- 1) = f64_of_decimal m 0"
  using f64_of_ratio_scale [of 1 10 m] by (simp add: f64_of_decimal_def)

section \<open>Decimal numbers as text\<close>

definition digits :: "string \<Rightarrow> bool" where
  "digits ds \<longleftrightarrow> (\<forall>c \<in> set ds. is_digit c)"

lemma digits_simps [simp]:
  "digits []" "digits (c # ds) \<longleftrightarrow> is_digit c \<and> digits ds" "digits (ds @ es) \<longleftrightarrow> digits ds \<and> digits es"
  by (auto simp: digits_def)

lemma not_digit_marks [simp]: "\<not> is_digit CHR ''.''" "\<not> is_digit CHR ''e''" "\<not> is_digit CHR ''E''" "\<not> is_digit CHR ''+''"
  by (simp_all add: is_digit_def)

text \<open>An exponent: its text and its value.\<close>

inductive exponent :: "string \<Rightarrow> int \<Rightarrow> bool" where
  none: "exponent [] 0"
| bare: "digits ds \<Longrightarrow> ds \<noteq> [] \<Longrightarrow> exponent (CHR ''e'' # ds) (int (decimal ds))"
| plus: "digits ds \<Longrightarrow> ds \<noteq> [] \<Longrightarrow> exponent (CHR ''e'' # CHR ''+'' # ds) (int (decimal ds))"
| minus: "digits ds \<Longrightarrow> ds \<noteq> [] \<Longrightarrow> exponent (CHR ''e'' # CHR ''-'' # ds) (- int (decimal ds))"

definition number_text :: "bool \<Rightarrow> string \<Rightarrow> string \<Rightarrow> string \<Rightarrow> string" where
  "number_text neg ip fp ex =
     (if neg then ''-'' else []) @ ip @ (if fp = [] then [] else CHR ''.'' # fp) @ ex"

text \<open>Text behind a number that does not belong to it.\<close>

definition stops :: "string \<Rightarrow> bool" where
  "stops zs \<longleftrightarrow> zs = [] \<or> (\<not> is_digit (hd zs) \<and> hd zs \<notin> {CHR ''.'', CHR ''e'', CHR ''E''})"

lemma digits_split:
  assumes "digits ds" "zs = [] \<or> \<not> is_digit (hd zs)"
  shows "takeWhile is_digit (ds @ zs) = ds" "dropWhile is_digit (ds @ zs) = zs"
  using assms by (cases zs; simp add: digits_def takeWhile_append2 dropWhile_append2)+

lemma stops_digit: "stops zs \<Longrightarrow> zs = [] \<or> \<not> is_digit (hd zs)"
  by (auto simp: stops_def)

lemma exponent_part_text:
  assumes "exponent ex e" "stops zs"
  shows "exponent_part (ex @ zs) = (e, zs)"
  using assms(1)
proof cases
  case none
  with assms(2) show ?thesis by (cases zs) (auto simp: exponent_part_def stops_def)
next
  case (bare ds)
  then obtain c ds' where "ds = c # ds'" "is_digit c" by (cases ds) auto
  then have "c \<noteq> CHR ''-''" "c \<noteq> CHR ''+''" by auto
  with bare digits_split [OF bare(3) stops_digit [OF assms(2)]] \<open>ds = c # ds'\<close> show ?thesis
    by (auto simp: exponent_part_def Let_def)
next
  case (plus ds)
  with digits_split [OF plus(3) stops_digit [OF assms(2)]] show ?thesis by (simp add: exponent_part_def)
next
  case (minus ds)
  with digits_split [OF minus(3) stops_digit [OF assms(2)]] show ?thesis by (simp add: exponent_part_def)
qed

lemma exponent_start: "exponent ex e \<Longrightarrow> ex = [] \<or> hd ex = CHR ''e''"
  by (auto elim: exponent.cases)

lemma strtod_number_text:
  assumes "digits ip" "ip \<noteq> []" "digits fp" "exponent ex e" "stops zs"
  shows "strtod (number_text neg ip fp ex @ zs)
    = (with_sign neg (f64_of_decimal (decimal (ip @ fp)) (e - int (length fp))), length (number_text neg ip fp ex))"
proof -
  let ?rest = "(if fp = [] then [] else CHR ''.'' # fp) @ ex @ zs"
  have t: "number_text neg ip fp ex @ zs = (if neg then ''-'' else []) @ ip @ ?rest" by (simp add: number_text_def)
  have ez: "ex @ zs = [] \<or> \<not> is_digit (hd (ex @ zs)) \<and> hd (ex @ zs) \<noteq> CHR ''.''"
    using exponent_start [OF assms(4)] assms(5) by (cases ex) (auto simp: stops_def)
  obtain c u where ip: "ip = c # u" "is_digit c" using assms(1,2) by (cases ip) auto
  then have sign: "minus_sign (number_text neg ip fp ex @ zs) = (neg, ip @ ?rest)"
    unfolding t by (cases neg) (auto simp: minus_sign_def)
  have rest: "?rest = [] \<or> \<not> is_digit (hd ?rest)" using ez by (cases "fp = []") auto
  note int = digits_split [OF assms(1) rest]
  have frac: "(case ?rest of [] \<Rightarrow> ([], []) | c # p \<Rightarrow> if c = CHR ''.'' then (takeWhile is_digit p, dropWhile is_digit p)
      else ([], ?rest)) = (fp, ex @ zs)"
  proof (cases "fp = []")
    case True
    with ez show ?thesis by (cases "ex @ zs") auto
  next
    case False
    have "takeWhile is_digit (fp @ ex @ zs) = fp" "dropWhile is_digit (fp @ ex @ zs) = ex @ zs"
      using digits_split [OF assms(3), of "ex @ zs"] ez by blast+
    with False show ?thesis by simp
  qed
  show ?thesis unfolding strtod_def sign int Let_def case_prod_conv frac exponent_part_text [OF assms(4,5)]
    using assms(2) by simp
qed

section \<open>What the printer writes\<close>

text \<open>The parts of the text of a double, and the number they stand for.\<close>

definition parts_ok :: "string \<Rightarrow> string \<Rightarrow> string \<Rightarrow> int \<Rightarrow> bool" where
  "parts_ok ip fp ex e \<longleftrightarrow> digits ip \<and> ip \<noteq> [] \<and> (hd ip = CHR ''0'' \<longrightarrow> tl ip = []) \<and> digits fp \<and> exponent ex e"

lemma digits_strip: "digits s \<Longrightarrow> digits (strip_zeros s)"
  by (auto simp: digits_def strip_zeros_def dest: set_dropWhileD)

lemma digits_show [simp]: "digits (show_nat n)"
  using show_nat_digits by (simp add: digits_def)

lemma digits_take [simp]: "digits s \<Longrightarrow> digits (take k s)" "digits s \<Longrightarrow> digits (drop k s)"
  by (auto simp: digits_def dest: in_set_takeD in_set_dropD)

lemma digits_zeros [simp]: "digits (replicate k CHR ''0'')"
  by (simp add: digits_def is_digit_def)

lemma with_fraction_parts: "with_fraction ip fp = ip @ (if strip_zeros fp = [] then [] else CHR ''.'' # strip_zeros fp)"
  by (simp add: with_fraction_def)

lemma exponent_show: "exponent (show_exponent x) x"
proof -
  define ds where "ds = (let s = show_nat (nat \<bar>x\<bar>) in if length s = 1 then CHR ''0'' # s else s)"
  have ds: "digits ds" "ds \<noteq> []" "decimal ds = nat \<bar>x\<bar>"
    using decimal_show_nat [of "nat \<bar>x\<bar>"]
    by (auto simp: ds_def Let_def is_digit_def decimal_def digit_value_def)
  have "show_exponent x = CHR ''e'' # (if x < 0 then CHR ''-'' else CHR ''+'') # ds"
    by (simp add: show_exponent_def ds_def)
  with exponent.plus [OF ds(1,2)] exponent.minus [OF ds(1,2)] ds(3) show ?thesis by (cases "x < 0") simp_all
qed

lemma leading_take: "hd (take (Suc k) (show_nat n)) = CHR ''0'' \<Longrightarrow> tl (take (Suc k) (show_nat n)) = []"
  using show_nat_leading [of n] by (cases "show_nat n") auto

definition has_parts :: "string \<Rightarrow> bool \<Rightarrow> bool" where
  "has_parts t neg \<longleftrightarrow> (\<exists>ip fp ex e. t = number_text neg ip fp ex \<and> parts_ok ip fp ex e)"

lemma has_partsI: "t = number_text neg ip fp ex \<Longrightarrow> parts_ok ip fp ex e \<Longrightarrow> has_parts t neg"
  by (auto simp: has_parts_def)

lemma format_g_parts: "has_parts (format_g prec d) (signbit d)"
proof (cases "f64_ratio d")
  case (Pair n m)
  show ?thesis
  proof (cases "n = 0")
    case True
    then show ?thesis using Pair
      by (intro has_partsI [of _ _ "''0''" "[]" "[]" 0])
         (simp_all add: Let_def format_g_def number_text_def parts_ok_def is_digit_def exponent.none)
  next
    case False
    obtain q x where qx: "significant prec n m = (q, x)" by (cases "significant prec n m")
    let ?s = "show_nat q"
    consider "- 4 \<le> x \<and> x < int prec" "0 \<le> x" | "- 4 \<le> x \<and> x < int prec" "\<not> 0 \<le> x" | "(- 4 \<le> x \<and> x < int prec) = False" by blast
    then show ?thesis
    proof cases
      case 1
      with Pair False qx leading_take [of "nat x" q] show ?thesis
        by (intro has_partsI [of _ _ "take (nat x + 1) ?s" "strip_zeros (drop (nat x + 1) ?s)" "[]" 0])
           (simp_all add: Let_def format_g_def with_fraction_parts number_text_def parts_ok_def digits_strip exponent.none)
    next
      case 2
      with Pair False qx show ?thesis
        by (intro has_partsI [of _ _ "''0''" "strip_zeros (replicate (nat (- x) - 1) CHR ''0'' @ ?s)" "[]" 0])
           (simp_all add: Let_def format_g_def with_fraction_parts number_text_def parts_ok_def digits_strip exponent.none is_digit_def)
    next
      case 3
      with Pair False qx leading_take [of 0 q] show ?thesis
        by (intro has_partsI [of _ _ "take 1 ?s" "strip_zeros (drop 1 ?s)" "show_exponent x" x])
           (simp_all add: Let_def format_g_def with_fraction_parts number_text_def parts_ok_def digits_strip exponent_show
             del: de_Morgan_conj)
    qed
  qed
qed

lemma mantissa_split:
  assumes "parts_ok ip fp ex e"
  shows "takeWhile (\<lambda>c. \<not> is_exp_char c) (number_text neg ip fp ex) = number_text neg ip fp []"
    and "dropWhile (\<lambda>c. \<not> is_exp_char c) (number_text neg ip fp ex) = ex"
proof -
  have d: "digits ds \<Longrightarrow> c \<in> set ds \<Longrightarrow> \<not> is_exp_char c" for ds c by (auto simp: digits_def is_exp_char_def)
  have m: "\<forall>c \<in> set (number_text neg ip fp []). \<not> is_exp_char c"
    using assms d [of ip] d [of fp] by (auto simp: number_text_def parts_ok_def) (auto simp: is_exp_char_def)
  have ex: "ex = [] \<or> is_exp_char (hd ex)" using assms exponent_start [of ex e] by (auto simp: parts_ok_def is_exp_char_def)
  have t: "number_text neg ip fp ex = number_text neg ip fp [] @ ex" by (simp add: number_text_def)
  show "takeWhile (\<lambda>c. \<not> is_exp_char c) (number_text neg ip fp ex) = number_text neg ip fp []"
    unfolding t using m ex by (cases ex) (simp_all add: takeWhile_append2)
  show "dropWhile (\<lambda>c. \<not> is_exp_char c) (number_text neg ip fp ex) = ex"
    unfolding t using m ex by (cases ex) (simp_all add: dropWhile_append2)
qed

text \<open>The plus sign dropped.\<close>

definition no_plus :: "string \<Rightarrow> string" where
  "no_plus ex = (if ex \<noteq> [] \<and> 1 < length ex \<and> ex ! 1 = CHR ''+'' then hd ex # drop 2 ex else ex)"

lemma exponent_no_plus: "exponent ex e \<Longrightarrow> exponent (no_plus ex) e \<and> (no_plus ex = [] \<longleftrightarrow> ex = [])"
proof (induction rule: exponent.induct)
  case (bare ds)
  then obtain c ds' where "ds = c # ds'" "is_digit c" by (cases ds) auto
  then have "c \<noteq> CHR ''+''" by auto
  with bare \<open>ds = c # ds'\<close> exponent.bare [OF bare] show ?case by (simp add: no_plus_def)
qed (auto simp: no_plus_def intro: exponent.intros)

lemma float_text_parts:
  assumes "shortest_g d = number_text neg ip fp ex" "parts_ok ip fp ex e"
  shows "\<exists>fp' ex'. float_text d = number_text neg ip fp' ex' \<and> parts_ok ip fp' ex' e \<and> (fp' \<noteq> [] \<or> ex' \<noteq> [])
    \<and> f64_of_decimal (decimal (ip @ fp')) (e - int (length fp')) = f64_of_decimal (decimal (ip @ fp)) (e - int (length fp))"
proof -
  have ex: "exponent (no_plus ex) e" "no_plus ex = [] \<longleftrightarrow> ex = []"
    using exponent_no_plus assms(2) by (auto simp: parts_ok_def)
  have nodot: "CHR ''.'' \<notin> set ip" using assms(2) by (auto simp: parts_ok_def digits_def)
  have dot: "CHR ''.'' \<in> set (number_text neg ip fp []) \<longleftrightarrow> fp \<noteq> []" using nodot by (simp add: number_text_def)
  have ft: "float_text d = number_text neg ip fp [] @ no_plus ex @ (if fp = [] \<and> ex = [] then ''.0'' else [])"
    unfolding float_text_def assms(1) mantissa_split [OF assms(2)] Let_def dot no_plus_def by simp
  show ?thesis
  proof (cases "fp = [] \<and> ex = []")
    case True
    then have e: "e = 0" using assms(2) by (auto simp: parts_ok_def elim: exponent.cases)
    have "f64_of_decimal (decimal (ip @ ''0'')) (- 1) = f64_of_decimal (decimal ip) 0"
      by (simp add: decimal_snoc f64_of_decimal_point digit_value_def)
    with True e ft assms(2) show ?thesis
      by (intro exI [of _ "''0''"] exI [of _ "[]"]) (simp add: parts_ok_def number_text_def is_digit_def no_plus_def)
  next
    case False
    with ex ft assms(2) have "float_text d = number_text neg ip fp (no_plus ex)" "parts_ok ip fp (no_plus ex) e"
      "fp \<noteq> [] \<or> no_plus ex \<noteq> []" by (auto simp: number_text_def parts_ok_def)
    then show ?thesis by blast
  qed
qed

lemma same_double:
  assumes "f64_eq a b" "signbit a = signbit b"
  shows "a = b"
  using assms f64_is_zero_cases [of a] f64_is_zero_cases [of b] by (auto simp: f64_eq_def signbit_def)

text \<open>The text of a double that some precision preserves, wherever it stands.\<close>

lemma float_text_value:
  assumes "\<exists>prec \<in> set [1..<18]. reads_back_as d prec"
  shows "\<exists>ip fp ex e. float_text d = number_text (signbit d) ip fp ex \<and> parts_ok ip fp ex e \<and> (fp \<noteq> [] \<or> ex \<noteq> [])
    \<and> (\<forall>zs. stops zs \<longrightarrow> strtod (float_text d @ zs) = (d, length (float_text d)))"
proof -
  obtain prec where p: "find (reads_back_as d) [1..<18] = Some prec"
    using assms by (cases "find (reads_back_as d) [1..<18]") (auto simp: find_None_iff)
  then have rb: "reads_back_as d prec" by (auto simp: find_Some_iff)
  obtain ip fp ex e where g: "format_g prec d = number_text (signbit d) ip fp ex" "parts_ok ip fp ex e"
    using format_g_parts [of prec d] by (auto simp: has_parts_def)
  let ?v = "\<lambda>fp. with_sign (signbit d) (f64_of_decimal (decimal (ip @ fp)) (e - int (length fp)))"
  have "fst (strtod (format_g prec d)) = ?v fp"
    using strtod_number_text [of ip fp ex e "[]" "signbit d"] g by (simp add: parts_ok_def stops_def)
  with rb have v: "?v fp = d" by (auto simp: reads_back_as_def Let_def intro: same_double)
  have "shortest_g d = number_text (signbit d) ip fp ex" using p g(1) by (simp add: shortest_g_def)
  from float_text_parts [OF this g(2)] obtain fp' ex' where f: "float_text d = number_text (signbit d) ip fp' ex'"
    "parts_ok ip fp' ex' e" "fp' \<noteq> [] \<or> ex' \<noteq> []" "?v fp' = ?v fp" by metis
  have "strtod (float_text d @ zs) = (d, length (float_text d))" if "stops zs" for zs
    using strtod_number_text [of ip fp' ex' e zs "signbit d"] f v that by (simp add: parts_ok_def)
  with f show ?thesis by blast
qed

end
