(* ===== verification/Json_Hjson.thy ===== *)
theory Json_Hjson
  imports Hjson_Safety Float_Text
begin

text \<open>
  JSON is read by the Hjson parser: whatever \<^verbatim>\<open>DataSerializeJson\<close> prints, compact or
  indented, \<^verbatim>\<open>HjsonParse\<close> reads back as a tree with the same content.
\<close>

section \<open>Reading along a text\<close>

lemma text_at_append:
  assumes "reader_ok r" "text_at r pos = xs @ ys"
  shows "text_at r (pos + length xs) = ys" "pos + length xs \<le> hlen r \<or> xs = [] \<and> ys = []"
proof -
  have "text_at r (pos + n) = drop n (text_at r pos)" for n
    by (simp add: text_at_def drop_take add.commute)
  with assms(2) show "text_at r (pos + length xs) = ys" by simp
  have "length xs \<le> hlen r - pos" using assms text_at_simps(1) [OF assms(1), of pos] by (metis length_append le_add1)
  with assms(2) text_at_simps(1) [OF assms(1), of pos] show "pos + length xs \<le> hlen r \<or> xs = [] \<and> ys = []"
    by (cases "pos \<le> hlen r") auto
qed

lemma text_at_ConsD:
  assumes "reader_ok r" "text_at r pos = c # ys"
  shows "pos < hlen r" "hdata r ! pos = c" "text_at r (Suc pos) = ys" "pos \<le> hlen r" "peek r pos = c"
proof -
  show l: "pos < hlen r" using assms text_at_simps(4) [OF assms(1), of pos] by (cases "pos < hlen r") auto
  then show "hdata r ! pos = c" "text_at r (Suc pos) = ys" using assms text_at_simps(3) [OF assms(1), of pos] by simp_all
  with l show "pos \<le> hlen r" "peek r pos = c" by (simp_all add: peek_def)
qed

lemma text_at_Nil: "reader_ok r \<Longrightarrow> text_at r pos = [] \<Longrightarrow> hlen r \<le> pos"
  using text_at_simps(1) [of r pos] by simp

text \<open>\<open>white\<close>: text of white space only; \<open>plain\<close>: a character at which \<open>skip_ws\<close> stops.\<close>

definition white :: "string \<Rightarrow> bool" where
  "white w \<longleftrightarrow> (\<forall>c \<in> set w. has_class CC_WS c)"

definition plain :: "char \<Rightarrow> bool" where
  "plain c \<longleftrightarrow> \<not> has_class CC_WS c \<and> c \<noteq> CHR ''#'' \<and> c \<noteq> CHR ''/''"

lemma white_simps [simp]:
  "white []"
  "white (c # w) \<longleftrightarrow> has_class CC_WS c \<and> white w"
  "white (v @ w) \<longleftrightarrow> white v \<and> white w"
  by (auto simp: white_def)

lemma skip_ws_plain:
  assumes "reader_ok r" "text_at r pos = w @ c # ys" "white w" "plain c"
  shows "skip_ws r pos = Value (pos + length w)"
proof -
  have c: "text_at r (pos + length w) = c # ys" using text_at_append(1) [OF assms(1,2)] .
  note c = text_at_ConsD [OF assms(1) c]
  have "prefix_len (has_class CC_WS) (text_at r pos) = length w"
    using assms(3,4) unfolding assms(2) by (simp add: prefix_len_append white_def plain_def)
  with c assms(4) show ?thesis
    by (subst skip_ws.simps) (simp add: scan_runs(1) [OF assms(1)] plain_def)
qed

lemma skip_ws_end:
  assumes "reader_ok r" "text_at r pos = w" "white w" "pos \<le> hlen r"
  shows "skip_ws r pos = Value (pos + length w)" "pos + length w = hlen r"
proof -
  show l: "pos + length w = hlen r" using text_at_simps(1) [OF assms(1), of pos] assms(2,4) by simp
  have "prefix_len (has_class CC_WS) (text_at r pos) = length w"
    using prefix_len_append [of "has_class CC_WS" w "[]"] assms(3) by (simp add: white_def assms(2))
  with l show "skip_ws r pos = Value (pos + length w)"
    by (subst skip_ws.simps) (auto simp: scan_runs(1) [OF assms(1,4)])
qed

lemma skip_separator_comma:
  assumes "reader_ok r" "text_at r pos = CHR '','' # w @ c # ys" "white w" "plain c"
  shows "skip_separator r pos = Value (pos + 1 + length w)"
proof -
  note p = text_at_ConsD [OF assms(1,2)]
  have "skip_ws r pos = Value pos"
    using skip_ws_plain [OF assms(1), of pos "[]"] assms(2) by (simp add: plain_def has_class_iff)
  moreover have "skip_ws r (Suc pos) = Value (Suc pos + length w)" by (rule skip_ws_plain [OF assms(1) p(3) assms(3,4)])
  ultimately show ?thesis using p by (simp add: skip_separator_def)
qed

lemma skip_separator_close:
  assumes "reader_ok r" "text_at r pos = w @ c # ys" "white w" "plain c" "c \<noteq> CHR '',''"
  shows "skip_separator r pos = Value (pos + length w)"
  using text_at_ConsD [OF assms(1) text_at_append(1) [OF assms(1,2)]] skip_ws_plain [OF assms(1-4)] assms(5)
  by (simp add: skip_separator_def)

section \<open>Strings\<close>

text \<open>The loop behind a run of ordinary characters.\<close>

definition quoted_after :: "Reader \<Rightarrow> string \<Rightarrow> nat \<Rightarrow> (string \<times> nat) outcome" where
  "quoted_after r out pos = (if hlen r \<le> pos then NullPtr
     else let c = hdata r ! pos; pos = pos + 1
     in if c = DQUOTE then Value (out, pos)
     else if c = LF \<or> c = CR then NullPtr
     else if c \<noteq> BACKSLASH then quoted_loop r DQUOTE (out @ [c]) pos
     else if hlen r \<le> pos then NullPtr
     else let esc = hdata r ! pos; pos = pos + 1
     in if esc = CHR ''u'' then
          and_then (parse_u_escape r pos) (\<lambda>(cp, pos). quoted_loop r DQUOTE (utf8_encode out cp) pos)
        else (case simple_escape esc of None \<Rightarrow> NullPtr | Some d \<Rightarrow> quoted_loop r DQUOTE (out @ [d]) pos))"

lemma quoted_loop_after:
  assumes "reader_ok r" "pos \<le> hlen r"
    and "n = prefix_len (\<lambda>c. c \<noteq> DQUOTE \<and> c \<noteq> BACKSLASH \<and> c \<noteq> LF \<and> c \<noteq> CR) (text_at r pos)"
  shows "quoted_loop r DQUOTE out pos = (if pos < hlen r then quoted_after r (out @ take n (drop pos (hdata r))) (pos + n) else NullPtr)"
  by (subst quoted_loop.simps)
     (simp only: scan_runs(4) [OF assms(1,2)] assms(3) [symmetric] quoted_after_def and_then.simps Let_def)

lemma quoted_step:
  assumes "reader_ok r" "text_at r pos = c # ys" "c \<noteq> DQUOTE" "c \<noteq> BACKSLASH" "c \<noteq> LF" "c \<noteq> CR"
  shows "quoted_loop r DQUOTE out pos = quoted_loop r DQUOTE (out @ [c]) (Suc pos)"
proof -
  note p = text_at_ConsD [OF assms(1,2)]
  define n where "n = prefix_len (\<lambda>c. c \<noteq> DQUOTE \<and> c \<noteq> BACKSLASH \<and> c \<noteq> LF \<and> c \<noteq> CR) ys"
  have "pos < length (hdata r)" using assms(1) p(1) by (simp add: reader_ok_def)
  then have "out @ take (Suc n) (drop pos (hdata r)) = (out @ [c]) @ take n (drop (Suc pos) (hdata r))"
    using p(2) by (simp add: take_drop_Suc)
  moreover have "quoted_loop r DQUOTE out pos = quoted_after r (out @ take (Suc n) (drop pos (hdata r))) (pos + Suc n)"
    using quoted_loop_after [OF assms(1) p(4), of "Suc n" out] p(1) assms(2-)
    unfolding n_def by (simp only: prefix_len_Cons if_True simp_thms)
  moreover have "quoted_loop r DQUOTE (out @ [c]) (Suc pos) = (if Suc pos < hlen r
      then quoted_after r ((out @ [c]) @ take n (drop (Suc pos) (hdata r))) (Suc pos + n) else NullPtr)"
    using p(1) by (intro quoted_loop_after [OF assms(1)]) (simp_all add: n_def p(3))
  moreover have "quoted_after r o' (Suc pos + n) = NullPtr" if "\<not> Suc pos < hlen r" for o'
    using that by (simp add: quoted_after_def)
  ultimately show ?thesis by simp
qed

lemma quoted_escape:
  assumes "reader_ok r" "text_at r pos = BACKSLASH # e # ys" "simple_escape e = Some d"
  shows "quoted_loop r DQUOTE out pos = quoted_loop r DQUOTE (out @ [d]) (pos + 2)"
proof -
  note p = text_at_ConsD [OF assms(1,2)]
  note q = text_at_ConsD [OF assms(1) p(3)]
  have "e \<noteq> CHR ''u''" using assms(3) by (auto simp: simple_escape_def)
  moreover have "quoted_loop r DQUOTE out pos = quoted_after r out pos"
    using quoted_loop_after [OF assms(1) p(4), of 0 out] p(1) assms(2) by simp
  ultimately show ?thesis using p q assms(3) by (simp add: quoted_after_def)
qed

lemma hex_value_digit: "d < 16 \<Longrightarrow> hex_value (hex_digit d) = Some (of_nat d)"
  by (auto simp: hex_value_def hex_digit_def)

lemma hex_digits_04x:
  assumes "n < 32"
  shows "hex_digits (format_04x n) 0 = Some (of_nat n)"
proof -
  have "hex_value CHR ''0'' = Some 0" by (simp add: hex_value_def)
  moreover have "n div 16 < 16" "n mod 16 < 16" using assms by simp_all
  moreover have "of_nat (n div 16) * 16 + of_nat (n mod 16) = (of_nat (n div 16 * 16 + n mod 16) :: u32)"
    by (simp only: of_nat_add of_nat_mult of_nat_numeral)
  ultimately show ?thesis by (simp add: format_04x_def hex_value_digit)
qed

lemma quoted_control:
  assumes "reader_ok r" "text_at r pos = BACKSLASH # CHR ''u'' # format_04x (code c) @ ys" "code c < 32"
  shows "quoted_loop r DQUOTE out pos = quoted_loop r DQUOTE (out @ [c]) (pos + 6)"
proof -
  note p = text_at_ConsD [OF assms(1,2)]
  note q = text_at_ConsD [OF assms(1) p(3)]
  have l: "length (format_04x (code c)) = 4" by (simp add: format_04x_def)
  have "pos + 6 \<le> hlen r" using text_at_append(2) [OF assms(1) q(3)] l by auto
  moreover have "take 4 (drop (Suc (Suc pos)) (hdata r)) = format_04x (code c)"
  proof -
    have "take 4 (text_at r (Suc (Suc pos))) = format_04x (code c)" using q(3) l by simp
    moreover have "4 \<le> hlen r - Suc (Suc pos)" using calculation \<open>pos + 6 \<le> hlen r\<close> by simp
    ultimately show ?thesis by (simp add: text_at_def min_absorb1)
  qed
  ultimately have "parse_u_escape r (Suc (Suc pos)) = Value (of_nat (code c), pos + 6)"
    using assms(3) by (simp add: parse_u_escape_def hex_digits_04x)
  moreover have "utf8_encode out (of_nat (code c)) = out @ [c]"
  proof -
    have "unat (of_nat (code c) :: u32) = code c" using assms(3) by (intro unat_of_nat_small) simp
    then have "(of_nat (code c) :: u32) < 0x80" "unat (ucast (of_nat (code c) :: u32) :: byte) = code c"
      using assms(3) by (simp_all add: word_less_nat_alt unsigned_ucast_eq take_bit_nat_eq_self)
    then show ?thesis by (simp add: utf8_encode_def char_of_byte_def)
  qed
  moreover have "quoted_loop r DQUOTE out pos = quoted_after r out pos"
    using quoted_loop_after [OF assms(1) p(4), of 0 out] p(1) assms(2) by simp
  ultimately show ?thesis using p q by (simp add: quoted_after_def)
qed

lemma escape_char_cases:
  obtains (simple) e where "escape_char c = [BACKSLASH, e]" "simple_escape e = Some c"
  | (control) "escape_char c = BACKSLASH # CHR ''u'' # format_04x (code c)" "code c < 32"
  | (plain) "escape_char c = [c]" "c \<noteq> DQUOTE" "c \<noteq> BACKSLASH" "c \<noteq> LF" "c \<noteq> CR"
proof -
  consider "c \<in> {DQUOTE, BACKSLASH, CHR 0x08, CHR 0x0C, LF, CR, TAB}"
    | "c \<notin> {DQUOTE, BACKSLASH, CHR 0x08, CHR 0x0C, LF, CR, TAB}" "code c < 32"
    | "c \<notin> {DQUOTE, BACKSLASH, CHR 0x08, CHR 0x0C, LF, CR, TAB}" "\<not> code c < 32" by blast
  then show thesis
  proof cases
    case 1
    then have "\<exists>e. escape_char c = [BACKSLASH, e] \<and> simple_escape e = Some c"
      by (auto simp: escape_char_def simple_escape_def)
    then show thesis using simple by blast
  qed (use control plain in \<open>simp_all add: escape_char_def\<close>)
qed

lemma quoted_char:
  assumes "reader_ok r" "text_at r pos = escape_char c @ ys"
  shows "quoted_loop r DQUOTE out pos = quoted_loop r DQUOTE (out @ [c]) (pos + length (escape_char c))"
proof (cases c rule: escape_char_cases)
  case (simple e)
  with quoted_escape [OF assms(1), of pos e ys c out] assms(2) show ?thesis by simp
next
  case control
  then have "length (escape_char c) = 6" by (simp add: format_04x_def)
  with control quoted_control [OF assms(1), of pos c ys out] assms(2) show ?thesis by simp
next
  case plain
  with quoted_step [OF assms(1), of pos c ys out] assms(2) show ?thesis by simp
qed

lemma quoted_string:
  assumes "reader_ok r" "text_at r pos = concat (map escape_char s) @ DQUOTE # ys"
  shows "quoted_loop r DQUOTE out pos = Value (out @ s, pos + length (concat (map escape_char s)) + 1)"
  using assms(2)
proof (induction s arbitrary: pos out)
  case Nil
  then have t: "text_at r pos = DQUOTE # ys" by simp
  note p = text_at_ConsD [OF assms(1) t]
  have "quoted_loop r DQUOTE out pos = quoted_after r out pos"
    using quoted_loop_after [OF assms(1) p(4), of 0 out] p(1) t by simp
  with p show ?case by (simp add: quoted_after_def)
next
  case (Cons c s)
  then have t: "text_at r pos = escape_char c @ concat (map escape_char s) @ DQUOTE # ys" by simp
  from Cons.IH [OF text_at_append(1) [OF assms(1) t], of "out @ [c]"] quoted_char [OF assms(1) t, of out]
  show ?case by (simp add: add.assoc)
qed

lemma read_serialized_string:
  assumes "reader_ok r" "text_at r pos = serialize_string s @ ys"
  shows "read_quoted_string r allowML pos = Value (s, pos + length (serialize_string s))"
proof -
  have t: "text_at r pos = DQUOTE # concat (map escape_char s) @ DQUOTE # ys"
    using assms(2) by (simp add: serialize_string_def)
  note p = text_at_ConsD [OF assms(1) t]
  show ?thesis using quoted_string [OF assms(1) p(3), of "[]"] p
    by (simp add: read_quoted_string_def has_class_iff serialize_string_def)
qed

section \<open>Tokens\<close>

text \<open>A token: visible characters, none of which ends an unquoted value.\<close>

definition token :: "string \<Rightarrow> bool" where
  "token t \<longleftrightarrow> (\<forall>c \<in> set t. 32 < code c \<and> c \<notin> {CHR '','', CHR ''}'', CHR '']'', CHR ''#'', CHR ''/''})"

text \<open>What stands behind a value in printed text.\<close>

definition ends_value :: "string \<Rightarrow> bool" where
  "ends_value ys \<longleftrightarrow> ys = [] \<or> hd ys \<in> {CHR '','', CHR ''}'', CHR '']'', LF}"

lemma unquoted_token:
  assumes "reader_ok r" "text_at r pos = t @ ys" "token t" "t \<noteq> []"
  shows "unquoted_loop r valStart valEnd pos = unquoted_loop r valStart (pos + length t) (pos + length t)"
  using assms(2-)
proof (induction t arbitrary: pos valEnd)
  case (Cons c t)
  then have "text_at r pos = c # t @ ys" by simp
  note p = text_at_ConsD [OF assms(1) this]
  have c: "32 < code c" "c \<notin> {CHR '','', CHR ''}'', CHR '']'', CHR ''#'', CHR ''/''}"
    using Cons.prems(2) unfolding token_def by (meson list.set_intros(1))+
  from c(1) have "c \<noteq> LF" "c \<noteq> CR" by (intro notI; simp)+
  moreover from c(2) have "\<not> is_comment_start r pos" by (simp add: is_comment_start_def p(2) has_class_iff)
  ultimately have step: "unquoted_loop r valStart valEnd pos = unquoted_loop r valStart (Suc pos) (Suc pos)"
    using p c by (subst unquoted_loop.simps) (simp add: has_class_iff)
  show ?case
  proof (cases "t = []")
    case False
    with Cons.IH [OF p(3), of "Suc pos"] Cons.prems step show ?thesis by (simp add: token_def)
  qed (simp add: step)
qed simp

lemma drop_data:
  assumes "reader_ok r" "text_at r pos = t @ ys" "pos \<le> hlen r"
  shows "\<exists>zs. drop pos (hdata r) = t @ ys @ zs \<and> length zs = kPadding"
proof (intro exI conjI)
  have "drop pos (hdata r) = text_at r pos @ drop (hlen r) (hdata r)"
    using assms(3) unfolding text_at_def by (metis append_take_drop_id drop_drop le_add_diff_inverse2)
  then show "drop pos (hdata r) = t @ ys @ drop (hlen r) (hdata r)" by (simp add: assms(2))
  show "length (drop (hlen r) (hdata r)) = kPadding" using assms(1) by (simp add: reader_ok_def)
qed

lemma read_token:
  assumes "reader_ok r" "text_at r pos = t @ ys" "token t" "t \<noteq> []" "ends_value ys"
    and "\<not> is_punctuator (hd t)"
    and kw: "try_parse_keyword_or_number r pos (length t) = Value v"
  shows "read_unquoted_value r pos = Value (v, pos + length t)"
proof -
  obtain c t' where t: "t = c # t'" using assms(4) by (cases t) auto
  note p = text_at_ConsD [OF assms(1), of pos c "t' @ ys"]
  have pos: "pos < hlen r" "peek r pos = c" using p assms(2) t by simp_all
  have "32 < code c" using assms(3) unfolding token_def t by (meson list.set_intros(1))
  then have s: "\<not> (schar c \<le> 32 \<and> 0 < schar c)" 
    by (simp add: schar_def) (metis code_less_256 less_asym)
  let ?e = "pos + length t"
  have d: "size_diff r ?e pos = length t" by (simp add: size_diff_def)
  have u: "unquoted_end r pos ?e ?e = Value (v, ?e)"
    using assms(4) kw by (simp add: unquoted_end_def d)
  have "unquoted_loop r pos ?e ?e = Value (v, ?e)"
  proof (cases ys)
    case Nil
    then have "hlen r \<le> ?e" using text_at_append(1) [OF assms(1,2)] by (intro text_at_Nil [OF assms(1)]) simp
    with u show ?thesis by (subst unquoted_loop.simps) simp
  next
    case (Cons y ys')
    note q = text_at_ConsD [OF assms(1) text_at_append(1) [OF assms(1,2), unfolded Cons]]
    from Cons assms(5) have "y = LF \<or> y \<in> {CHR '','', CHR ''}'', CHR '']''}" by (auto simp: ends_value_def)
    then show ?thesis using u q kw
      by (subst unquoted_loop.simps) (auto simp: has_class_iff Let_def d)
  qed
  then show ?thesis
    using unquoted_token [OF assms(1-4), of pos pos] assms(6) s pos t by (auto simp: read_unquoted_value_def)
qed

section \<open>Leaves\<close>

lemma token_digits: "\<forall>c \<in> set t. is_digit c \<or> c = CHR ''-'' \<Longrightarrow> token t"
  unfolding token_def is_digit_def by fastforce

lemma format_lld_chars: "\<forall>c \<in> set (format_lld v). is_digit c \<or> c = CHR ''-''"
  using show_nat_digits by (auto simp: format_lld_def)

lemma format_lld_nonempty [simp]: "format_lld v \<noteq> []"
  by (simp add: format_lld_def)

lemma number_shape_lld: "number_shape (format_lld v) = Some False"
proof -
  have shape: "number_shape (if neg then CHR ''-'' # show_nat n else show_nat n) = Some False" for neg n
  proof -
    obtain c s where s: "show_nat n = c # s" by (cases "show_nat n") simp_all
    then have c: "is_digit c" "\<forall>c \<in> set s. is_digit c" using show_nat_digits [of n] by simp_all
    then have "c \<noteq> CHR ''-''" by auto
    moreover have "dropWhile is_digit s = []" using c(2) by simp
    moreover have "c = CHR ''0'' \<Longrightarrow> s = []" using show_nat_leading [of n] s by simp
    ultimately show ?thesis using c s
      by (auto simp: number_shape_def number_fraction_def number_exponent_def Let_def)
  qed
  from shape [of True] shape [of False] show ?thesis by (simp add: format_lld_def)
qed

lemma try_parse_int:
  assumes "drop pos (hdata r) = format_lld v @ zs" "zs = [] \<or> \<not> is_digit (hd zs)" "pos + length (format_lld v) \<le> length (hdata r)"
  shows "try_parse_keyword_or_number r pos (length (format_lld v)) = Value (IntN v)"
proof -
  obtain c s where s: "format_lld v = c # s" by (cases "format_lld v") simp_all
  have c: "is_digit c \<or> c = CHR ''-''" using format_lld_chars [of v] s by simp
  then have "c \<noteq> CHR ''t''" "c \<noteq> CHR ''f''" "c \<noteq> CHR ''n''" by (auto simp: is_digit_def)
  moreover have "try_parse_number r pos (length (format_lld v)) = Value (IntN v)"
    using assms by (simp add: try_parse_number_def number_shape_lld strtoll_format word_of_int_sint)
  ultimately show ?thesis using assms(1) c s
    by (auto simp: try_parse_keyword_or_number_def take_Cons' Let_def)
qed

section \<open>Values in their context\<close>

text \<open>A reader whose text is followed by the padding of zero bytes.\<close>

definition json_reader :: "Reader \<Rightarrow> bool" where
  "json_reader r \<longleftrightarrow> reader_ok r \<and> drop (hlen r) (hdata r) = replicate kPadding NUL"

text \<open>A token that is converted to a leaf wherever a character that cannot continue it follows.\<close>

definition stop_char :: "char \<Rightarrow> bool" where
  "stop_char c \<longleftrightarrow> c \<in> {CHR '','', CHR ''}'', CHR '']'', LF, NUL}"

definition token_for :: "string \<Rightarrow> DataNode \<Rightarrow> bool" where
  "token_for t n \<longleftrightarrow> token t \<and> t \<noteq> [] \<and> \<not> is_punctuator (hd t) \<and> \<not> has_class CC_QUOTE (hd t)
     \<and> CHR '':'' \<notin> set t
     \<and> (\<forall>r pos c zs. drop pos (hdata r) = t @ c # zs \<longrightarrow> stop_char c \<longrightarrow>
          try_parse_keyword_or_number r pos (length t) = Value n)"

lemma read_token_for:
  assumes "json_reader r" "text_at r pos = t @ ys" "token_for t n" "ends_value ys"
  shows "read_unquoted_value r pos = Value (n, pos + length t)"
proof -
  have r: "reader_ok r" and t: "t \<noteq> []" using assms(1,3) by (auto simp: json_reader_def token_for_def)
  have pos: "pos \<le> hlen r" using assms(2) t text_at_simps(1) [OF r, of pos] by (cases "pos \<le> hlen r") auto
  have "drop pos (hdata r) = text_at r pos @ drop (hlen r) (hdata r)"
    using pos unfolding text_at_def by (metis append_take_drop_id drop_drop le_add_diff_inverse2)
  also have "\<dots> = t @ ys @ NUL # replicate 63 NUL"
    using assms(1,2) by (simp add: json_reader_def kPadding_def replicate_Suc [symmetric] numeral_eq_Suc)
  finally obtain c zs where "drop pos (hdata r) = t @ c # zs" "stop_char c"
    using assms(4) by (cases ys) (auto simp: ends_value_def stop_char_def)
  with assms(3) have "try_parse_keyword_or_number r pos (length t) = Value n" unfolding token_for_def by blast
  with assms t show ?thesis by (intro read_token [OF r assms(2)]) (auto simp: token_for_def)
qed

lemma token_for_keywords: "token_for ''null'' NullN" "token_for ''true'' (BoolN True)" "token_for ''false'' (BoolN False)"
  by (auto simp: token_for_def token_def is_punctuator_def has_class_iff try_parse_keyword_or_number_def Let_def)

lemma token_for_int: "token_for (format_lld v) (IntN v)"
proof -
  obtain c s where s: "format_lld v = c # s" by (cases "format_lld v") simp_all
  have c: "is_digit c \<or> c = CHR ''-''" using format_lld_chars [of v] s by simp
  then have "\<not> is_punctuator c" "\<not> has_class CC_QUOTE c" by (auto simp: is_punctuator_def has_class_iff is_digit_def)
  moreover have "CHR '':'' \<notin> set (format_lld v)" using format_lld_chars [of v] by (auto simp: is_digit_def)
  moreover have "try_parse_keyword_or_number r pos (length (format_lld v)) = Value (IntN v)"
    if "drop pos (hdata r) = format_lld v @ c # zs" "stop_char c" for r pos c zs
  proof (rule try_parse_int [OF that(1)])
    show "c # zs = [] \<or> \<not> is_digit (hd (c # zs))" using that(2) by (auto simp: stop_char_def is_digit_def)
    show "pos + length (format_lld v) \<le> length (hdata r)" using arg_cong [OF that(1), of length] by simp
  qed
  ultimately show ?thesis using format_lld_chars [of v] s by (simp add: token_for_def token_digits)
qed

text \<open>\<open>reads_as self r n t\<close>: the text \<open>t\<close> starts with a visible character, and read from any place
  where a value may end behind it, it gives the content of \<open>n\<close>.\<close>

definition reads_as :: "(nat \<Rightarrow> (DataNode \<times> nat) outcome option) \<Rightarrow> Reader \<Rightarrow> DataNode \<Rightarrow> string \<Rightarrow> bool" where
  "reads_as self r n t \<longleftrightarrow> (\<exists>c t'. t = c # t' \<and> plain c \<and> c \<notin> {CHR '']'', CHR ''}'', CHR '',''})
     \<and> (\<forall>pos ys. text_at r pos = t @ ys \<longrightarrow> ends_value ys \<longrightarrow>
          (\<exists>m. self pos = Some (Value (m, pos + length t)) \<and> content m = content n))"

lemma reads_asE:
  assumes "reads_as self r n t" "text_at r pos = t @ ys" "ends_value ys"
  obtains m where "self pos = Some (Value (m, pos + length t))" "content m = content n"
  using assms unfolding reads_as_def by blast

lemma plain_Cons_join:
  assumes "list_all2 (reads_as self r) xs ts" "ts \<noteq> []"
  obtains c t' where "join sep ts = c # t'" "plain c" "c \<notin> {CHR '']'', CHR ''}'', CHR '',''}"
proof -
  obtain x xs' t ts' where l: "ts = t # ts'" "reads_as self r x t"
    using assms by (cases ts) (auto simp: list_all2_Cons2)
  then obtain c t' where "t = c # t'" "plain c" "c \<notin> {CHR '']'', CHR ''}'', CHR '',''}"
    unfolding reads_as_def by blast
  with l that show thesis by (cases ts') auto
qed

definition line_break :: "string \<Rightarrow> bool" where
  "line_break w \<longleftrightarrow> white w \<and> (w = [] \<or> hd w = LF)"

lemma ends_value_close: "line_break w \<Longrightarrow> c \<in> {CHR ''}'', CHR '']''} \<Longrightarrow> ends_value (w @ c # ys)"
  by (cases w) (auto simp: line_break_def ends_value_def)

lemma ends_value_comma [simp]: "ends_value (CHR '','' # ys)"
  by (simp add: ends_value_def)

lemma plain_close [simp]: "plain CHR '']''" "plain CHR ''}''" "plain CHR '':''" "plain DQUOTE"
  by (simp_all add: plain_def has_class_iff)

lemma join_Cons: "ts \<noteq> [] \<Longrightarrow> join sep (t # ts) = t @ sep @ join sep ts"
  by (cases ts) simp_all

lemma array_loop_end:
  "reader_ok r \<Longrightarrow> text_at r pos = CHR '']'' # ys \<Longrightarrow> array_loop self r arr pos = Some (Value (arr, pos))"
  using text_at_ConsD [of r pos] by (subst array_loop.simps) simp

lemma array_loop_reads:
  assumes "reader_ok r" "list_all2 (reads_as self r) xs ts" "ts \<noteq> []" "white w" "line_break w'"
    and "text_at r pos = join (CHR '','' # w) ts @ w' @ CHR '']'' # ys"
  shows "\<exists>ms. array_loop self r arr pos
      = Some (Value (arr @ ms, pos + length (join (CHR '','' # w) ts) + length w')) \<and> map content ms = map content xs"
  using assms(2,3,6)
proof (induction xs arbitrary: ts pos arr)
  case (Cons x xs)
  then obtain t ts' where ts: "ts = t # ts'" "reads_as self r x t" "list_all2 (reads_as self r) xs ts'"
    by (auto simp: list_all2_Cons1)
  let ?sep = "CHR '','' # w"
  obtain c u where "t = c # u" "c \<noteq> CHR '']''" using ts(2) by (auto simp: reads_as_def)
  then have "pos < hlen r \<and> hdata r ! pos \<noteq> CHR '']''"
    using Cons.prems(3) text_at_ConsD [OF assms(1), of pos c] by (cases ts') (auto simp: ts)
  then have step: "array_loop self r arr pos = and_run (self pos) (\<lambda>(val, pos).
      and_run (Some (skip_separator r pos)) (\<lambda>pos. array_loop self r (arr @ [val]) pos))"
    by (subst array_loop.simps) (simp only: if_True simp_thms)
  show ?case
  proof (cases "ts' = []")
    case True
    with ts Cons.prems have t: "text_at r pos = t @ w' @ CHR '']'' # ys" and xs: "xs = []" by simp_all
    obtain m where m: "self pos = Some (Value (m, pos + length t))" "content m = content x"
      using reads_asE [OF ts(2) t] ends_value_close [OF assms(5)] by blast
    have t': "text_at r (pos + length t) = w' @ CHR '']'' # ys" by (rule text_at_append(1) [OF assms(1) t])
    have "skip_separator r (pos + length t) = Value (pos + length t + length w')"
      using assms(5) by (intro skip_separator_close [OF assms(1) t']) (simp_all add: line_break_def)
    then show ?thesis using m True ts xs
      by (simp add: step array_loop_end [OF assms(1) text_at_append(1) [OF assms(1) t']])
  next
    case False
    with ts Cons.prems have t: "text_at r pos = t @ CHR '','' # w @ join ?sep ts' @ w' @ CHR '']'' # ys"
      by (simp add: join_Cons)
    obtain m where m: "self pos = Some (Value (m, pos + length t))" "content m = content x"
      using reads_asE [OF ts(2) t] by auto
    obtain c' u' where j: "join ?sep ts' = c' # u'" "plain c'" using plain_Cons_join [OF ts(3) False] by metis
    have t': "text_at r (pos + length t) = CHR '','' # w @ join ?sep ts' @ w' @ CHR '']'' # ys"
      by (rule text_at_append(1) [OF assms(1) t])
    have sep: "skip_separator r (pos + length t) = Value (pos + length t + 1 + length w)"
      using t' j assms(4) by (intro skip_separator_comma [OF assms(1)]) simp_all
    have t'': "text_at r (pos + length t + 1 + length w) = join ?sep ts' @ w' @ CHR '']'' # ys"
      using text_at_append(1) [OF assms(1), of "pos + length t" ?sep] t' by (simp add: add.assoc)
    from Cons.IH [OF ts(3) False t'', of "arr @ [m]"] obtain ms where
      "array_loop self r (arr @ [m]) (pos + length t + 1 + length w)
        = Some (Value ((arr @ [m]) @ ms, pos + length t + 1 + length w + length (join ?sep ts') + length w'))"
      "map content ms = map content xs" by blast
    with m sep False show ?thesis
      by (intro exI [of _ "m # ms"]) (simp add: step ts join_Cons add.assoc)
  qed
qed simp

text \<open>One member of an object.\<close>

definition member_text :: "string \<Rightarrow> string \<Rightarrow> string \<Rightarrow> string" where
  "member_text w k t = serialize_string k @ CHR '':'' # w @ t"

lemma object_member:
  assumes "reader_ok r" "text_at r pos = member_text w k t @ ys" "reads_as self r x t" "white w" "ends_value ys"
  shows "\<exists>m. content m = content x \<and> object_loop self r True obj pos
    = and_run (Some (skip_separator r (pos + length (member_text w k t))))
        (\<lambda>pos. object_loop self r True (map_put (hlayout r) k m obj) pos)"
proof -
  let ?k = "pos + length (serialize_string k)"
  have t: "text_at r pos = serialize_string k @ CHR '':'' # w @ t @ ys" using assms(2) by (simp add: member_text_def)
  then have q: "text_at r pos = DQUOTE # (concat (map escape_char k) @ [DQUOTE]) @ CHR '':'' # w @ t @ ys"
    by (simp add: serialize_string_def)
  note p = text_at_ConsD [OF assms(1) q]
  have key: "read_key r pos = Value (k, ?k)"
    using p(5) read_serialized_string [OF assms(1) t] by (simp add: read_key_def has_class_iff)
  have t1: "text_at r ?k = CHR '':'' # w @ t @ ys" by (rule text_at_append(1) [OF assms(1) t])
  note colon = text_at_ConsD [OF assms(1) t1]
  have ws: "skip_ws r ?k = Value ?k" using skip_ws_plain [OF assms(1), of ?k "[]"] t1 by simp
  obtain c t' where c: "t = c # t'" "plain c" using assms(3) by (auto simp: reads_as_def)
  have t2: "text_at r (Suc ?k) = w @ c # t' @ ys" using colon(3) c by simp
  have ws2: "skip_ws r (Suc ?k) = Value (Suc ?k + length w)" by (rule skip_ws_plain [OF assms(1) t2 assms(4) c(2)])
  have t3: "text_at r (Suc ?k + length w) = t @ ys"
    using text_at_append(1) [OF assms(1), of "Suc ?k" w "t @ ys"] t2 c by simp
  obtain m where m: "self (Suc ?k + length w) = Some (Value (m, Suc ?k + length w + length t))" "content m = content x"
    by (rule reads_asE [OF assms(3) t3 assms(5)])
  have l: "length (member_text w k t) = Suc (length (serialize_string k) + length w + length t)"
    by (simp add: member_text_def)
  have "object_loop self r True obj pos = and_run (Some (skip_separator r (Suc ?k + length w + length t)))
        (\<lambda>pos. object_loop self r True (map_put (hlayout r) k m obj) pos)"
    by (subst object_loop.simps) (simp add: p key ws colon ws2 m del: add_Suc)
  with m(2) show ?thesis by (intro exI [of _ m]) (simp add: l add.assoc)
qed

lemma object_loop_end:
  "reader_ok r \<Longrightarrow> text_at r pos = CHR ''}'' # ys \<Longrightarrow> object_loop self r True obj pos = Some (Value (obj, pos))"
  using text_at_ConsD [of r pos] by (subst object_loop.simps) simp

lemma object_loop_reads:
  assumes "reader_ok r" "list_all2 (reads_as self r) (map snd m) ts" "ts \<noteq> []"
    "white w" "line_break w'" "white w''"
    and "text_at r pos = join (CHR '','' # w) (map2 (member_text w'') (map fst m) ts) @ w' @ CHR ''}'' # ys"
  shows "\<exists>ms. object_loop self r True obj pos = Some (Value (put_all (hlayout r) (zip (map fst m) ms) obj,
      pos + length (join (CHR '','' # w) (map2 (member_text w'') (map fst m) ts)) + length w'))
    \<and> map content ms = map (content \<circ> snd) m"
  using assms(2,3,7)
proof (induction m arbitrary: ts pos obj)
  case (Cons p m)
  then obtain t ts' where ts: "ts = t # ts'" "reads_as self r (snd p) t" "list_all2 (reads_as self r) (map snd m) ts'"
    by (auto simp: list_all2_Cons1)
  let ?sep = "CHR '','' # w" and ?u = "member_text w'' (fst p) t"
  let ?us = "map2 (member_text w'') (map fst m) ts'"
  show ?case
  proof (cases "ts' = []")
    case True
    with ts have m: "m = []" by simp
    with ts True Cons.prems have t: "text_at r pos = ?u @ w' @ CHR ''}'' # ys" by simp
    obtain v where v: "content v = content (snd p)" "object_loop self r True obj pos
        = and_run (Some (skip_separator r (pos + length ?u)))
            (\<lambda>pos. object_loop self r True (map_put (hlayout r) (fst p) v obj) pos)"
      using object_member [OF assms(1) t ts(2) assms(6)] ends_value_close [OF assms(5)] by blast
    have t': "text_at r (pos + length ?u) = w' @ CHR ''}'' # ys" by (rule text_at_append(1) [OF assms(1) t])
    have "skip_separator r (pos + length ?u) = Value (pos + length ?u + length w')"
      using assms(5) by (intro skip_separator_close [OF assms(1) t']) (simp_all add: line_break_def)
    then show ?thesis using v True ts m
      by (intro exI [of _ "[v]"])
         (simp add: put_all_def object_loop_end [OF assms(1) text_at_append(1) [OF assms(1) t']])
  next
    case False
    then have m: "?us \<noteq> []" using ts(3) by (cases m) (auto simp: list_all2_Cons1)
    with ts Cons.prems have t: "text_at r pos = ?u @ CHR '','' # w @ join ?sep ?us @ w' @ CHR ''}'' # ys"
      by (simp add: join_Cons)
    obtain v where v: "content v = content (snd p)" "object_loop self r True obj pos
        = and_run (Some (skip_separator r (pos + length ?u)))
            (\<lambda>pos. object_loop self r True (map_put (hlayout r) (fst p) v obj) pos)"
      using object_member [OF assms(1) t ts(2) assms(6)] by auto
    obtain u us where us: "?us = u # us" "\<exists>u'. u = DQUOTE # u'" using m
      by (cases m; cases ts') (auto simp: member_text_def serialize_string_def)
    then obtain u' where j: "join ?sep ?us = DQUOTE # u'" by (cases us) auto
    have t': "text_at r (pos + length ?u) = CHR '','' # w @ join ?sep ?us @ w' @ CHR ''}'' # ys"
      by (rule text_at_append(1) [OF assms(1) t])
    have sep: "skip_separator r (pos + length ?u) = Value (pos + length ?u + 1 + length w)"
      using t' j assms(4) skip_separator_comma [OF assms(1), of "pos + length ?u" w DQUOTE] by simp
    have t'': "text_at r (pos + length ?u + 1 + length w) = join ?sep ?us @ w' @ CHR ''}'' # ys"
      using text_at_append(1) [OF assms(1), of "pos + length ?u" ?sep] t' by (simp add: add.assoc)
    from Cons.IH [OF ts(3) False t'', of "map_put (hlayout r) (fst p) v obj"] obtain ms where
      "object_loop self r True (map_put (hlayout r) (fst p) v obj) (pos + length ?u + 1 + length w)
        = Some (Value (put_all (hlayout r) (zip (map fst m) ms) (map_put (hlayout r) (fst p) v obj),
            pos + length ?u + 1 + length w + length (join ?sep ?us) + length w'))"
      "map content ms = map (content \<circ> snd) m" by blast
    with v sep m show ?thesis
      by (intro exI [of _ "v # ms"]) (simp add: ts join_Cons add.assoc put_all_def)
  qed
qed simp

section \<open>Renderings\<close>

text \<open>The doubles whose printed text reads back: finite ones that one of the precisions 1 to 17
  preserves.\<close>

definition float_prints :: "f64 \<Rightarrow> bool" where
  "float_prints d \<longleftrightarrow> \<not> f64_is_nan d \<and> \<not> f64_is_inf d \<and> (\<exists>prec \<in> set [1..<18]. reads_back_as d prec)"

primrec json_leaf :: "DataNode \<Rightarrow> bool" where
  "json_leaf NullN = True"
| "json_leaf (BoolN b) = True"
| "json_leaf (IntN i) = True"
| "json_leaf (FloatN d) = float_prints d"
| "json_leaf (StringN s) = True"
| "json_leaf (ArrayN xs) = False"
| "json_leaf (ObjectN m) = False"
| "json_leaf (IntMapN m) = False"
| "json_leaf (BinaryN bs) = False"

text \<open>The texts of a tree, with white space where the printer puts it.\<close>

inductive renders :: "DataNode \<Rightarrow> string \<Rightarrow> bool" where
  leaf: "json_leaf n \<Longrightarrow> renders n (serialize_leaf n)"
| array: "list_all2 renders xs ts \<Longrightarrow> white v \<Longrightarrow> white w \<Longrightarrow> line_break w' \<Longrightarrow> (xs = [] \<longrightarrow> v = [] \<and> w' = []) \<Longrightarrow>
    renders (ArrayN xs) (CHR ''['' # v @ join (CHR '','' # w) ts @ w' @ '']'')"
| object: "list_all2 (\<lambda>p. renders (snd p)) m ts \<Longrightarrow> white v \<Longrightarrow> white w \<Longrightarrow> line_break w' \<Longrightarrow> white w'' \<Longrightarrow>
    (m = [] \<longrightarrow> v = [] \<and> w' = []) \<Longrightarrow>
    renders (ObjectN m) (CHR ''{'' # v @ join (CHR '','' # w) (map2 (member_text w'') (map fst m) ts) @ w' @ ''}'')"

lemma exponent_shape:
  assumes "exponent ex e"
  shows "number_exponent ex = Some (ex \<noteq> [], [])"
  using assms
proof cases
  case (bare ds)
  then obtain c ds' where "ds = c # ds'" "is_digit c" by (cases ds) auto
  then have "c \<noteq> CHR ''-''" "c \<noteq> CHR ''+''" by auto
  with bare \<open>ds = c # ds'\<close> show ?thesis by (simp add: number_exponent_def digits_def)
next
  case (plus ds)
  then show ?thesis by (cases ds) (simp_all add: number_exponent_def digits_def)
next
  case (minus ds)
  then show ?thesis by (cases ds) (simp_all add: number_exponent_def digits_def)
qed (simp add: number_exponent_def)

lemma fraction_shape:
  assumes "digits fp" "exponent ex e"
  shows "number_fraction ((if fp = [] then [] else CHR ''.'' # fp) @ ex) = Some (fp \<noteq> [], ex)"
proof (cases fp)
  case Nil
  with exponent_start [OF assms(2)] show ?thesis by (cases ex) (auto simp: number_fraction_def)
next
  case (Cons c u)
  have "dropWhile is_digit (fp @ ex) = ex"
    using digits_split(2) [OF assms(1), of ex] exponent_start [OF assms(2)] by (cases ex) auto
  with Cons assms(1) show ?thesis by (simp add: number_fraction_def)
qed

lemma number_text_shape:
  assumes "parts_ok ip fp ex e" "fp \<noteq> [] \<or> ex \<noteq> []"
  shows "number_shape (number_text neg ip fp ex) = Some True"
proof -
  have p: "digits ip" "digits fp" "exponent ex e" using assms(1) by (simp_all add: parts_ok_def)
  obtain c u where ip: "ip = c # u" "is_digit c" "c = CHR ''0'' \<longrightarrow> u = []"
    using assms(1) by (cases ip) (auto simp: parts_ok_def)
  then have "c \<noteq> CHR ''-''" by auto
  let ?rest = "(if fp = [] then [] else CHR ''.'' # fp) @ ex"
  have rest: "?rest \<noteq> [] \<longrightarrow> \<not> is_digit (hd ?rest)"
    using exponent_start [OF p(3)] by (cases "fp = []"; cases ex) auto
  have "dropWhile is_digit (ip @ ?rest) = ?rest" using digits_split(2) [OF p(1)] rest by blast
  then have drop: "dropWhile is_digit (u @ ?rest) = ?rest" using ip by simp
  have zero: "\<not> (c = CHR ''0'' \<and> u @ ?rest \<noteq> [] \<and> is_digit (hd (u @ ?rest)))" using ip(3) rest by auto
  have strip: "(if hd (number_text neg ip fp ex) = CHR ''-'' then tl (number_text neg ip fp ex) else number_text neg ip fp ex)
      = c # u @ ?rest"
    using ip(1) \<open>c \<noteq> CHR ''-''\<close> by (cases neg) (simp_all add: number_text_def)
  show ?thesis
    unfolding number_shape_def Let_def strip
    using zero ip(2) drop fraction_shape [OF p(2,3)] exponent_shape [OF p(3)] assms(2) by simp
qed

lemma number_text_chars:
  assumes "parts_ok ip fp ex e"
  shows "\<forall>c \<in> set (number_text neg ip fp ex). is_digit c \<or> c \<in> {CHR ''-'', CHR ''+'', CHR ''.'', CHR ''e''}"
proof -
  have "exponent ex e" "digits ip" "digits fp" using assms by (auto simp: parts_ok_def)
  then show ?thesis by (cases rule: exponent.cases) (auto simp: number_text_def digits_def)
qed

lemma token_for_float:
  assumes "float_prints d"
  shows "token_for (serialize_leaf (FloatN d)) (FloatN d)"
proof -
  from assms have fin: "\<not> f64_is_nan d" "\<not> f64_is_inf d" and "\<exists>prec \<in> set [1..<18]. reads_back_as d prec"
    by (auto simp: float_prints_def)
  from float_text_value [OF this(3)] obtain ip fp ex e where t: "float_text d = number_text (signbit d) ip fp ex"
    "parts_ok ip fp ex e" "fp \<noteq> [] \<or> ex \<noteq> []"
    and val: "\<And>zs. stops zs \<Longrightarrow> strtod (float_text d @ zs) = (d, length (float_text d))" by blast
  let ?t = "float_text d"
  have chars: "\<forall>c \<in> set ?t. is_digit c \<or> c \<in> {CHR ''-'', CHR ''+'', CHR ''.'', CHR ''e''}"
    using number_text_chars [OF t(2)] t(1) by simp
  obtain c u where c: "?t = c # u" "is_digit c \<or> c = CHR ''-''"
    using t(1,2) by (cases ip; cases "signbit d") (auto simp: number_text_def parts_ok_def)
  have "token ?t" using chars unfolding token_def is_digit_def by fastforce
  moreover have "CHR '':'' \<notin> set ?t" using chars by (auto simp: is_digit_def)
  moreover have "\<not> is_punctuator c" "\<not> has_class CC_QUOTE c" using c(2) by (auto simp: is_punctuator_def has_class_iff is_digit_def)
  moreover have "try_parse_keyword_or_number r pos (length ?t) = Value (FloatN d)"
    if "drop pos (hdata r) = ?t @ x # zs" "stop_char x" for r pos x zs
  proof -
    have "stops (x # zs)" using that(2) by (auto simp: stop_char_def stops_def is_digit_def)
    then have "parse_double (?t @ x # zs) (length ?t) = Value (FloatN d)" using val fin by (simp add: parse_double_def)
    moreover have "pos + length ?t \<le> length (hdata r)" using arg_cong [OF that(1), of length] by simp
    ultimately have "try_parse_number r pos (length ?t) = Value (FloatN d)"
      using that(1) c(1) number_text_shape [OF t(2,3), of "signbit d"] t(1) by (simp add: try_parse_number_def)
    moreover have "c \<noteq> CHR ''t''" "c \<noteq> CHR ''f''" "c \<noteq> CHR ''n''" using c(2) by (auto simp: is_digit_def)
    ultimately show ?thesis using that(1) c by (auto simp: try_parse_keyword_or_number_def take_Cons' Let_def)
  qed
  ultimately show ?thesis using fin c(1) by (simp add: token_for_def serialize_leaf_def)
qed

lemma token_for_plain:
  assumes "token_for t n"
  shows "\<exists>c t'. t = c # t' \<and> plain c \<and> c \<notin> {CHR '']'', CHR ''}'', CHR '','', CHR ''{'', CHR ''['', CHR '':''} \<and> \<not> has_class CC_QUOTE c"
proof -
  obtain c t' where t: "t = c # t'" using assms by (cases t) (auto simp: token_for_def)
  have "token (c # t')" "\<not> is_punctuator c" "\<not> has_class CC_QUOTE c" using assms t by (auto simp: token_for_def)
  moreover from this(1) have "32 < code c" "c \<notin> {CHR ''#'', CHR ''/''}" unfolding token_def by (meson list.set_intros(1) insertCI)+
  moreover from this(1) have "\<not> has_class CC_WS c" unfolding has_class_iff by (intro notI; elim disjE; simp)
  ultimately show ?thesis using t by (simp add: plain_def is_punctuator_def has_class_iff)
qed

lemma read_value_at:
  assumes "reader_ok r" "text_at r pos = c # ys" "plain c" "depth \<le> kMaxDepth"
  shows "read_value r depth pos =
    (if c = CHR ''{'' then read_object (\<lambda>pos. read_value r (depth + 1) pos) r True (pos + 1)
     else if c = CHR ''['' then read_array (\<lambda>pos. read_value r (depth + 1) pos) r (pos + 1)
     else if has_class CC_QUOTE c then
       Some (and_then (read_quoted_string r True pos) (\<lambda>(s, pos). Value (StringN s, pos)))
     else Some (read_unquoted_value r pos))"
proof -
  have "skip_ws r pos = Value pos" using skip_ws_plain [OF assms(1), of pos "[]"] assms by simp
  with assms(4) text_at_ConsD [OF assms(1,2)] show ?thesis by (subst read_value.simps) (simp add: Let_def)
qed

lemma reads_as_token:
  assumes "json_reader r" "token_for t n" "depth \<le> kMaxDepth"
  shows "reads_as (read_value r depth) r n t"
proof -
  have r: "reader_ok r" using assms(1) by (simp add: json_reader_def)
  obtain c t' where t: "t = c # t'" "plain c" "c \<notin> {CHR '']'', CHR ''}'', CHR '','', CHR ''{'', CHR ''['', CHR '':''}"
    "\<not> has_class CC_QUOTE c" using token_for_plain [OF assms(2)] by blast
  have "read_value r depth pos = Some (Value (n, pos + length t))" if "text_at r pos = t @ ys" "ends_value ys" for pos ys
    using read_value_at [OF r, of pos c "t' @ ys"] read_token_for [OF assms(1) that(1) assms(2) that(2)] that t assms(3) by simp
  with t show ?thesis by (auto simp: reads_as_def)
qed

lemma reads_as_leaf:
  assumes "json_reader r" "json_leaf n" "depth \<le> kMaxDepth"
  shows "reads_as (read_value r depth) r n (serialize_leaf n)"
proof (cases n)
  case (StringN s)
  have r: "reader_ok r" using assms(1) by (simp add: json_reader_def)
  have "read_value r depth pos = Some (Value (StringN s, pos + length (serialize_string s)))"
    if t: "text_at r pos = serialize_string s @ ys" for pos ys
  proof -
    have "text_at r pos = DQUOTE # (concat (map escape_char s) @ [DQUOTE]) @ ys" using t by (simp add: serialize_string_def)
    from read_value_at [OF r this _ assms(3)] read_serialized_string [OF r t] show ?thesis by (simp add: has_class_iff)
  qed
  with StringN show ?thesis by (simp add: reads_as_def serialize_leaf_def) (simp add: serialize_string_def)
next
  case (BoolN b)
  with assms show ?thesis
    by (cases b) (simp_all add: reads_as_token token_for_keywords serialize_leaf_def)
next
  case (FloatN d)
  with assms token_for_float [of d] show ?thesis by (simp add: reads_as_token)
qed (use assms in \<open>simp_all add: reads_as_token token_for_keywords token_for_int serialize_leaf_def\<close>)

lemma reads_as_array:
  assumes "reader_ok r" "list_all2 (reads_as (read_value r (Suc depth)) r) xs ts" "depth \<le> kMaxDepth"
    and "white v" "white w" "line_break w'" "xs = [] \<longrightarrow> v = [] \<and> w' = []"
  shows "reads_as (read_value r depth) r (ArrayN xs) (CHR ''['' # v @ join (CHR '','' # w) ts @ w' @ '']'')"
    (is "reads_as _ _ _ ?t")
proof -
  let ?self = "read_value r (Suc depth)" and ?j = "join (CHR '','' # w) ts"
  have "\<exists>m. read_value r depth pos = Some (Value (m, pos + length ?t)) \<and> content m = content (ArrayN xs)"
    if "text_at r pos = ?t @ ys" for pos ys
  proof -
    have t: "text_at r pos = CHR ''['' # v @ ?j @ w' @ CHR '']'' # ys" using that by simp
    note p = text_at_ConsD [OF assms(1) t]
    have "read_value r depth pos = read_array ?self r (Suc pos)"
      using read_value_at [OF assms(1) t _ assms(3)] by (simp add: plain_def has_class_iff)
    moreover have "\<exists>ms. read_array ?self r (Suc pos) = Some (Value (ArrayN ms, pos + length ?t)) \<and> map content ms = map content xs"
    proof (cases "ts = []")
      case True
      then have "xs = []" using assms(2) by simp
      then have t': "text_at r (Suc pos) = CHR '']'' # ys" using p(3) True assms(7) by simp
      from skip_ws_plain [OF assms(1), of "Suc pos" "[]"] t' have "skip_ws r (Suc pos) = Value (Suc pos)" by simp
      with text_at_ConsD [OF assms(1) t'] True \<open>xs = []\<close> assms(7) show ?thesis
        by (simp add: read_array_def array_loop_end [OF assms(1) t'])
    next
      case False
      obtain c u where c: "?j = c # u" "plain c" by (rule plain_Cons_join [OF assms(2) False])
      then have "skip_ws r (Suc pos) = Value (Suc pos + length v)"
        using p(3) assms(4) by (intro skip_ws_plain [OF assms(1)]) simp_all
      moreover have j: "text_at r (Suc pos + length v) = ?j @ w' @ CHR '']'' # ys" by (rule text_at_append(1) [OF assms(1) p(3)])
      moreover obtain ms where "array_loop ?self r [] (Suc pos + length v) = Some (Value (ms, Suc pos + length v + length ?j + length w'))"
        "map content ms = map content xs" using array_loop_reads [OF assms(1,2) False assms(5,6) j, of "[]"] by auto
      moreover have e: "text_at r (Suc pos + length v + length ?j + length w') = CHR '']'' # ys"
        using text_at_append(1) [OF assms(1), of "Suc pos + length v" "?j @ w'" "CHR '']'' # ys"] j by (simp add: add.assoc)
      ultimately show ?thesis using text_at_ConsD [OF assms(1) e] by (auto simp: read_array_def)
    qed
    ultimately show ?thesis by auto
  qed
  then show ?thesis by (auto simp: reads_as_def plain_def has_class_iff)
qed

lemma reads_as_object:
  assumes "reader_ok r" "list_all2 (reads_as (read_value r (Suc depth)) r) (map snd m) ts" "depth \<le> kMaxDepth"
    and "white v" "white w" "line_break w'" "white w''" "m = [] \<longrightarrow> v = [] \<and> w' = []" "distinct (map fst m)"
  shows "reads_as (read_value r depth) r (ObjectN m)
    (CHR ''{'' # v @ join (CHR '','' # w) (map2 (member_text w'') (map fst m) ts) @ w' @ ''}'')"
    (is "reads_as _ _ _ ?t")
proof -
  let ?self = "read_value r (Suc depth)" and ?j = "join (CHR '','' # w) (map2 (member_text w'') (map fst m) ts)"
  have lay: "layout_ok (hlayout r)" using assms(1) by (simp add: reader_ok_def)
  have content: "content (ObjectN (put_all (hlayout r) (zip (map fst m) ms) [])) = content (ObjectN m)"
    if ms: "map content ms = map (content \<circ> snd) m" for ms
  proof -
    have len: "length ms = length m" using arg_cong [OF ms, of length] by simp
    have "map (map_prod id content) (zip (map fst m) ms) = map (map_prod id content) m"
    proof (rule nth_equalityI)
      fix i assume "i < length (map (map_prod id content) (zip (map fst m) ms))"
      moreover from this len have "content (ms ! i) = content (snd (m ! i))" using arg_cong [OF ms, of "\<lambda>l. l ! i"] by simp
      ultimately show "map (map_prod id content) (zip (map fst m) ms) ! i = map (map_prod id content) m ! i"
        using len by (cases "m ! i") simp
    qed (simp add: len)
    from content_put_all [OF lay assms(9) this] show ?thesis by simp
  qed
  have "\<exists>x. read_value r depth pos = Some (Value (x, pos + length ?t)) \<and> content x = content (ObjectN m)"
    if "text_at r pos = ?t @ ys" for pos ys
  proof -
    have t: "text_at r pos = CHR ''{'' # v @ ?j @ w' @ CHR ''}'' # ys" using that by simp
    note p = text_at_ConsD [OF assms(1) t]
    have "read_value r depth pos = read_object ?self r True (Suc pos)"
      using read_value_at [OF assms(1) t _ assms(3)] by (simp add: plain_def has_class_iff)
    moreover have "\<exists>ms. read_object ?self r True (Suc pos)
        = Some (Value (ObjectN (put_all (hlayout r) (zip (map fst m) ms) []), pos + length ?t)) \<and> map content ms = map (content \<circ> snd) m"
    proof (cases "ts = []")
      case True
      then have m: "m = []" using assms(2) by simp
      then have t': "text_at r (Suc pos) = CHR ''}'' # ys" using p(3) True assms(8) by simp
      from skip_ws_plain [OF assms(1), of "Suc pos" "[]"] t' have "skip_ws r (Suc pos) = Value (Suc pos)" by simp
      with text_at_ConsD [OF assms(1) t'] True m assms(8) show ?thesis
        by (simp add: read_object_def object_loop_end [OF assms(1) t'] put_all_def)
    next
      case False
      then obtain q m' t ts' where "m = q # m'" "ts = t # ts'" using assms(2) by (cases m; cases ts) auto
      then obtain u where "?j = DQUOTE # u"
        by (cases "map2 (member_text w'') (map fst m') ts'") (auto simp: member_text_def serialize_string_def)
      then have "skip_ws r (Suc pos) = Value (Suc pos + length v)"
        using p(3) assms(4) skip_ws_plain [OF assms(1), of "Suc pos" v DQUOTE] by simp
      moreover have j: "text_at r (Suc pos + length v) = ?j @ w' @ CHR ''}'' # ys" by (rule text_at_append(1) [OF assms(1) p(3)])
      moreover obtain ms where "object_loop ?self r True [] (Suc pos + length v)
          = Some (Value (put_all (hlayout r) (zip (map fst m) ms) [], Suc pos + length v + length ?j + length w'))"
        "map content ms = map (content \<circ> snd) m" using object_loop_reads [OF assms(1,2) False assms(5-7) j, of "[]"] by auto
      moreover have e: "text_at r (Suc pos + length v + length ?j + length w') = CHR ''}'' # ys"
        using text_at_append(1) [OF assms(1), of "Suc pos + length v" "?j @ w'" "CHR ''}'' # ys"] j by (simp add: add.assoc)
      ultimately show ?thesis using text_at_ConsD [OF assms(1) e] by (auto simp: read_object_def)
    qed
    ultimately show ?thesis using content by auto
  qed
  then show ?thesis by (auto simp: reads_as_def plain_def has_class_iff)
qed

lemma renders_reads:
  assumes "renders n t" "json_reader r" "wf_node n" "depth + nesting n \<le> kMaxDepth"
  shows "reads_as (read_value r depth) r n t"
  using assms(1,3,4)
proof (induction arbitrary: depth rule: renders.induct)
  case (leaf n)
  then show ?case using reads_as_leaf [OF assms(2)] by simp
next
  case (array xs ts v w w')
  have "list_all2 (reads_as (read_value r (Suc depth)) r) xs ts"
    using array(1)
  proof (rule list.rel_mono_strong, goal_cases)
    case (1 x t)
    moreover from 1(1) have "Suc depth + nesting x \<le> kMaxDepth" "wf_node x"
      using array.prems nesting_array [of x xs] by auto
    ultimately show ?case by blast
  qed
  then show ?case using array assms(2) by (intro reads_as_array) (auto simp: json_reader_def)
next
  case (object m ts v w w' w'')
  have "list_all2 (\<lambda>p. reads_as (read_value r (Suc depth)) r (snd p)) m ts"
    using object(1)
  proof (rule list.rel_mono_strong, goal_cases)
    case (1 p t)
    moreover from 1(1) have "Suc depth + nesting (snd p) \<le> kMaxDepth" "wf_node (snd p)"
      using object.prems nesting_map [of p m] by auto
    ultimately show ?case by blast
  qed
  then show ?case using object assms(2) by (intro reads_as_object) (auto simp: json_reader_def list_all2_map1)
qed

section \<open>What the printer renders\<close>

text \<open>The trees that JSON text can carry.\<close>

primrec json_node :: "DataNode \<Rightarrow> bool" where
  "json_node NullN = True"
| "json_node (BoolN b) = True"
| "json_node (IntN i) = True"
| "json_node (FloatN d) = float_prints d"
| "json_node (StringN s) = True"
| "json_node (ArrayN xs) = list_all id (map json_node xs)"
| "json_node (ObjectN m) = list_all snd (map (map_prod id json_node) m)"
| "json_node (IntMapN m) = False"
| "json_node (BinaryN bs) = False"

lemma renders_serialize:
  assumes "json_node n" "depth + nesting n \<le> kMaxSerializeDepth"
  shows "renders n (serialize_value n depth)"
  using assms
proof (induction n arbitrary: depth rule: DataNode_induct)
  case (ArrayN xs)
  have "renders x (serialize_value x (depth + 1))" if "x \<in> set xs" for x
    using ArrayN that nesting_array [OF that] by simp
  then have "list_all2 renders xs (map (\<lambda>x. serialize_value x (depth + 1)) xs)"
    by (simp add: list_all2_conv_all_nth)
  from renders.array [OF this, of "[]" "[]" "[]"] ArrayN.prems show ?case
    by (simp add: line_break_def comp_def)
next
  case (ObjectN m)
  have "renders (snd p) (serialize_value (snd p) (depth + 1))" if "p \<in> set m" for p
    using ObjectN that nesting_map [OF that] by simp
  then have l: "list_all2 (\<lambda>p. renders (snd p)) m (map (\<lambda>p. serialize_value (snd p) (depth + 1)) m)"
    by (simp add: list_all2_conv_all_nth)
  have eq: "map2 (member_text []) (map fst m) (map (\<lambda>p. serialize_value (snd p) (depth + 1)) m)
      = map (\<lambda>(key, ser). serialize_string key @ '':'' @ ser (depth + 1)) (map (map_prod id serialize_value) m)"
    by (intro nth_equalityI) (auto simp: member_text_def case_prod_unfold)
  have "\<not> kMaxSerializeDepth < depth" using ObjectN.prems by simp
  then show ?case using renders.object [OF l, of "[]" "[]" "[]" "[]"]
    unfolding serialize_value.simps eq by (simp add: line_break_def del: map_map)
qed (use renders.leaf in \<open>auto simp: serialize_leaf_def [symmetric]\<close>)

lemma join_indent: "ts \<noteq> [] \<Longrightarrow> join sep (map (\<lambda>t. p @ t) ts) = p @ join (sep @ p) ts"
proof (induction ts)
  case (Cons t ts)
  then show ?case by (cases ts) simp_all
qed simp

lemma white_spaces [simp]: "white (spaces d)"
  by (simp add: spaces_def white_def has_class_iff)

lemma line_break_indent [simp]: "line_break (LF # spaces d)"
  by (simp add: line_break_def has_class_iff)

lemma renders_pretty:
  assumes "json_node n" "depth + nesting n \<le> kMaxSerializeDepth"
  shows "renders n (serialize_value_pretty n depth)"
  using assms
proof (induction n arbitrary: depth rule: DataNode_induct)
  case (ArrayN xs)
  let ?in = "spaces (depth + 1)" and ?ts = "map (\<lambda>x. serialize_value_pretty x (depth + 1)) xs"
  have d: "\<not> kMaxSerializeDepth < depth" using ArrayN.prems by simp
  have "renders x (serialize_value_pretty x (depth + 1))" if "x \<in> set xs" for x
    using ArrayN that nesting_array [OF that] by simp
  then have l: "list_all2 renders xs ?ts" by (simp add: list_all2_conv_all_nth)
  show ?case
  proof (cases "xs = []")
    case True
    with renders.array [OF l, of "[]" "[]" "[]"] d show ?thesis by (simp add: line_break_def)
  next
    case False
    have "map (\<lambda>ser. ?in @ ser (depth + 1)) (map serialize_value_pretty xs) = map (\<lambda>t. ?in @ t) ?ts" by simp
    then show ?thesis
      using renders.array [OF l, of "LF # ?in" "LF # ?in" "LF # spaces depth"] d False
        join_indent [of ?ts "'','' @ [LF]" ?in] has_class_iff(1) [of LF]
      unfolding serialize_value_pretty.simps by (simp del: map_map)
  qed
next
  case (ObjectN m)
  let ?in = "spaces (depth + 1)" and ?ts = "map (\<lambda>p. serialize_value_pretty (snd p) (depth + 1)) m"
  have d: "\<not> kMaxSerializeDepth < depth" using ObjectN.prems by simp
  have "renders (snd p) (serialize_value_pretty (snd p) (depth + 1))" if "p \<in> set m" for p
    using ObjectN that nesting_map [OF that] by simp
  then have l: "list_all2 (\<lambda>p. renders (snd p)) m ?ts" by (simp add: list_all2_conv_all_nth)
  show ?case
  proof (cases "m = []")
    case True
    with renders.object [OF l, of "[]" "[]" "[]" "[]"] d show ?thesis by (simp add: line_break_def)
  next
    case False
    let ?us = "map2 (member_text '' '') (map fst m) ?ts"
    have "map (\<lambda>(key, ser). ?in @ serialize_string key @ '': '' @ ser (depth + 1)) (map (map_prod id serialize_value_pretty) m)
        = map (\<lambda>t. ?in @ t) ?us"
      by (intro nth_equalityI) (auto simp: member_text_def case_prod_unfold)
    moreover have "?us \<noteq> []" using False by (cases m) simp_all
    ultimately show ?thesis
      using renders.object [OF l, of "LF # ?in" "LF # ?in" "LF # spaces depth" "'' ''"] d False
        join_indent [of ?us "'','' @ [LF]" ?in] has_class_iff(1) [of LF] has_class_iff(1) [of "CHR '' ''"]
      unfolding serialize_value_pretty.simps by (simp del: map_map)
  qed
qed (use renders.leaf in \<open>auto simp: serialize_leaf_def [symmetric]\<close>)

section \<open>Whole documents\<close>

lemma padded_json_reader: "env_ok env \<Longrightarrow> json_reader (padded env t)"
  using padded_ok [of env t] by (simp add: json_reader_def padded_def)

lemma padded_text: "text_at (padded env t) 0 = t"
  by (simp add: text_at_def padded_def)

lemma key_loop_no_colon:
  assumes "reader_ok r" "CHR '':'' \<notin> set (text_at r pos)"
  shows "key_loop r keyStart keyEnd firstSpace pos = NullPtr"
  using assms
proof (induction r keyStart keyEnd firstSpace pos rule: key_loop.induct)
  case (1 r keyStart keyEnd firstSpace pos)
  show ?case
  proof (cases "pos < hlen r")
    case True
    then have t: "text_at r pos = hdata r ! pos # text_at r (Suc pos)" by (rule text_at_simps(3) [OF 1(3)])
    with 1 True show ?thesis by (subst key_loop.simps) (auto simp: Let_def)
  qed (subst key_loop.simps, simp)
qed

lemma whole_end:
  assumes "reader_ok r" "text_at r 0 = t"
  shows "whole r (v, length t) = Value v"
proof -
  have "text_at r (length t) = []" using text_at_append(1) [OF assms(1), of 0 t "[]"] assms(2) by simp
  moreover have "length t = hlen r" using text_at_simps(1) [OF assms(1), of 0] assms(2) by simp
  ultimately show ?thesis using skip_ws_end [OF assms(1), of "length t" "[]"] by (simp add: whole_def)
qed

text \<open>A leaf is not the first member of a braceless object.\<close>

lemma leaf_no_member:
  assumes "json_reader r" "text_at r 0 = serialize_leaf n" "json_leaf n"
  shows "read_object self r False 0 = Some NullPtr"
proof -
  have r: "reader_ok r" using assms(1) by (simp add: json_reader_def)
  have loop: "read_object self r False 0 = Some NullPtr"
    if "text_at r 0 = c # u" "plain c" "read_key r 0 = NullPtr
      \<or> (\<exists>k p. read_key r 0 = Value (k, p) \<and> p = hlen r)" for c u
  proof -
    have "skip_ws r 0 = Value 0" using skip_ws_plain [OF r, of 0 "[]"] that by simp
    moreover have "skip_ws r (hlen r) = Value (hlen r)" using skip_ws_end [OF r, of "hlen r" "[]"] text_at_simps(4) [OF r, of "hlen r"] by simp
    moreover have "peek r (hlen r) \<noteq> CHR '':''" by (simp add: peek_def)
    ultimately show ?thesis using that(3) text_at_ConsD [OF r that(1)]
      by (auto simp: read_object_def object_loop.simps [of self r False "[]" 0])
  qed
  have tok: ?thesis if t: "token_for (serialize_leaf n) n"
  proof -
    obtain c u where c: "serialize_leaf n = c # u" "plain c" "\<not> has_class CC_QUOTE c" using token_for_plain [OF t] by blast
    have "CHR '':'' \<notin> set (text_at r 0)" using t assms(2) by (simp add: token_for_def)
    then have "read_key r 0 = NullPtr"
      using text_at_ConsD(5) [OF r, of 0 c u] assms(2) c
      by (simp add: read_key_def read_unquoted_key_def key_loop_no_colon [OF r])
    with loop c assms(2) show ?thesis by metis
  qed
  show ?thesis
  proof (cases n)
    case (StringN s)
    then have t: "text_at r 0 = serialize_string s @ []" using assms(2) by (simp add: serialize_leaf_def)
    then have q: "text_at r 0 = DQUOTE # (concat (map escape_char s) @ [DQUOTE])" by (simp add: serialize_string_def)
    have "length (serialize_string s) = hlen r" using text_at_simps(1) [OF r, of 0] t by simp
    then have "read_key r 0 = Value (s, hlen r)"
      using read_serialized_string [OF r t] text_at_ConsD(5) [OF r q] by (simp add: read_key_def has_class_iff)
    then show ?thesis by (intro loop [OF q]) simp_all
  next
    case (BoolN b)
    then show ?thesis by (intro tok) (cases b; simp add: serialize_leaf_def token_for_keywords)
  next
    case (FloatN d)
    then show ?thesis using assms(3) by (intro tok) (simp add: token_for_float)
  qed (use assms(3) in \<open>auto intro!: tok simp: token_for_keywords token_for_int serialize_leaf_def\<close>)
qed

lemma HjsonParse_renders:
  assumes "env_ok env" "renders n t" "wf_node n" "nesting n \<le> kMaxDepth"
  shows "\<exists>m. HjsonParse env (Some t) = Some (Value m) \<and> content m = content n"
proof -
  define r where "r = padded env t"
  have j: "json_reader r" and r: "reader_ok r" and t: "text_at r 0 = t"
    using padded_json_reader [OF assms(1)] by (simp_all add: r_def json_reader_def padded_text)
  have reads: "reads_as (read_value r 0) r n t" by (rule renders_reads [OF assms(2) j assms(3)]) (use assms(4) in simp)
  then obtain c u where c: "t = c # u" "plain c" by (auto simp: reads_as_def)
  obtain m where m: "read_value r 0 0 = Some (Value (m, length t))" "content m = content n"
    using reads_asE [OF reads, of 0 "[]"] t by (auto simp: ends_value_def)
  note p = text_at_ConsD [OF r, of 0 c u, unfolded t, OF c(1)]
  have ws: "skip_ws r 0 = Value 0" using skip_ws_plain [OF r, of 0 "[]"] t c by simp
  note whole = whole_end [OF r t, of m]
  have obj: "read_object self r False 0 = Some NullPtr" if "c \<noteq> CHR ''['' \<and> c \<noteq> CHR ''{''" for self
  proof -
    from assms(2) that c have "json_leaf n" "t = serialize_leaf n" by (auto elim: renders.cases)
    then show ?thesis using leaf_no_member [OF j] t by simp
  qed
  show ?thesis
  proof (cases "c = CHR ''['' \<or> c = CHR ''{''")
    case True
    with m c p ws whole show ?thesis
      unfolding HjsonParse_def option.case r_def [symmetric] by (auto simp: Let_def)
  next
    case False
    with m c p ws whole obj show ?thesis
      unfolding HjsonParse_def option.case r_def [symmetric] by (auto simp: Let_def)
  qed
qed



end
