(* ===== verification/Effects.thy ===== *)
theory Effects
  imports Async2_Prelude
begin

text \<open>
  Stateful code that can crash.  An action takes a state and either ends with a result and a new
  state or runs into undefined behaviour, whose kind is recorded.  \<open>wp\<close> is the weakest
  precondition of an action; the components prove one rule per operation and the rules compose
  through it.
\<close>

section \<open>Actions\<close>

text \<open>What can go wrong: a pointer that a failed address conversion never set, a null pointer that
  is dereferenced, a node used after it was freed, a member of a union that is not the active one,
  an iterator into a hash table that has changed since, a conversion from floating point to an
  integer type that cannot hold the value, a recursion deeper than the stack, a loop without end, a
  length that no container can have, which throws, and a random number from an empty range.\<close>

datatype crash =
    WildPointer | NullDeref | Freed | WrongMember | BadIterator | BadCast | StackOverflow | Hangs
  | BadLength | BadRange

datatype 'a run = Done 'a | Crash crash

type_synonym ('s, 'a) act = "'s \<Rightarrow> ('a \<times> 's) run"

definition ret :: "'a \<Rightarrow> ('s, 'a) act" where
  "ret x s = Done (x, s)"

definition crash :: "crash \<Rightarrow> ('s, 'a) act" where
  "crash c s = Crash c"

definition seq :: "('s, 'a) act \<Rightarrow> ('a \<Rightarrow> ('s, 'b) act) \<Rightarrow> ('s, 'b) act" where
  "seq m f s = (case m s of Done (x, s') \<Rightarrow> f x s' | Crash c \<Rightarrow> Crash c)"

definition get :: "('s \<Rightarrow> 'a) \<Rightarrow> ('s, 'a) act" where
  "get f s = Done (f s, s)"

definition modify :: "('s \<Rightarrow> 's) \<Rightarrow> ('s, unit) act" where
  "modify f s = Done ((), f s)"

text \<open>A range-based loop.\<close>

primrec for_each :: "('x \<Rightarrow> ('s, unit) act) \<Rightarrow> 'x list \<Rightarrow> ('s, unit) act" where
  "for_each f [] = ret ()"
| "for_each f (x # xs) = seq (f x) (\<lambda>_. for_each f xs)"

text \<open>A part of the state, seen through a getter and an update.\<close>

definition zoom :: "('t \<Rightarrow> 's) \<Rightarrow> (('s \<Rightarrow> 's) \<Rightarrow> 't \<Rightarrow> 't) \<Rightarrow> ('s, 'a) act \<Rightarrow> ('t, 'a) act" where
  "zoom getter update m t = (case m (getter t) of
     Done (x, s') \<Rightarrow> Done (x, update (\<lambda>_. s') t)
   | Crash c \<Rightarrow> Crash c)"

lemma ret_eq [simp]: "ret x s = Done (x, s)"
  by (simp add: ret_def)

lemma crash_eq [simp]: "crash c s = Crash c"
  by (simp add: crash_def)

lemma get_eq [simp]: "get f s = Done (f s, s)"
  by (simp add: get_def)

lemma modify_eq [simp]: "modify f s = Done ((), f s)"
  by (simp add: modify_def)

lemma seq_Done: "m s = Done (x, s') \<Longrightarrow> seq m f s = f x s'"
  by (simp add: seq_def)

lemma seq_eq_Done [simp]: "seq m f s = Done r \<longleftrightarrow> (\<exists>x s'. m s = Done (x, s') \<and> f x s' = Done r)"
  by (auto simp: seq_def split: run.splits)

lemma seq_eq_Crash:
  "seq m f s = Crash c \<longleftrightarrow> m s = Crash c \<or> (\<exists>x s'. m s = Done (x, s') \<and> f x s' = Crash c)"
  by (auto simp: seq_def split: run.splits)

lemma seq_ret [simp]: "seq (ret x) f = f x"
  by (simp add: seq_def fun_eq_iff)

lemma seq_cong [fundef_cong]:
  "m s = m' s' \<Longrightarrow> s = s' \<Longrightarrow> (\<And>x t. m' s' = Done (x, t) \<Longrightarrow> f x t = f' x t) \<Longrightarrow> seq m f s = seq m' f' s'"
  by (auto simp: seq_def split: run.splits)

lemma for_each_append: "for_each f (xs @ ys) = seq (for_each f xs) (\<lambda>_. for_each f ys)"
  by (induction xs) (auto simp: seq_def fun_eq_iff split: run.splits)

section \<open>Weakest preconditions\<close>

text \<open>The crashes that a proof of memory safety allows: the two that depend on what the script
  passes or on how deep its data is nested, and the arithmetic one.\<close>

definition tolerated :: "crash \<Rightarrow> bool" where
  "tolerated c \<longleftrightarrow> c \<in> {WildPointer, BadCast, StackOverflow}"

lemma tolerated_simps [simp]:
  "tolerated WildPointer" "tolerated BadCast" "tolerated StackOverflow"
  "\<not> tolerated NullDeref" "\<not> tolerated Freed" "\<not> tolerated WrongMember" "\<not> tolerated BadIterator"
  "\<not> tolerated Hangs" "\<not> tolerated BadLength" "\<not> tolerated BadRange"
  by (simp_all add: tolerated_def)

definition wp :: "('s, 'a) act \<Rightarrow> ('a \<Rightarrow> 's \<Rightarrow> bool) \<Rightarrow> 's \<Rightarrow> bool" where
  "wp m Q s = (case m s of Done (x, s') \<Rightarrow> Q x s' | Crash c \<Rightarrow> tolerated c)"

lemma wp_ret [simp]: "wp (ret x) Q = Q x"
  by (simp add: wp_def fun_eq_iff)

lemma wp_Done_fun [simp]: "wp (\<lambda>s. Done (x, s)) Q = Q x"
  by (simp add: wp_def fun_eq_iff)

lemma wp_crash [simp]: "wp (crash c) Q = (\<lambda>s. tolerated c)"
  by (simp add: wp_def fun_eq_iff)

lemma wp_get [simp]: "wp (get f) Q = (\<lambda>s. Q (f s) s)"
  by (simp add: wp_def fun_eq_iff)

lemma wp_modify [simp]: "wp (modify f) Q = (\<lambda>s. Q () (f s))"
  by (simp add: wp_def fun_eq_iff)

lemma wp_seq [simp]: "wp (seq m f) Q = wp m (\<lambda>x. wp (f x) Q)"
  by (auto simp: wp_def seq_def fun_eq_iff split: run.splits)

lemma wp_zoom [simp]: "wp (zoom g u m) Q = (\<lambda>t. wp m (\<lambda>x s'. Q x (u (\<lambda>_. s') t)) (g t))"
  by (auto simp: wp_def zoom_def fun_eq_iff split: run.splits)

lemma wp_mono: "wp m Q s \<Longrightarrow> (\<And>x s'. Q x s' \<Longrightarrow> Q' x s') \<Longrightarrow> wp m Q' s"
  by (auto simp: wp_def split: run.splits)

lemma wp_Done: "m s = Done (x, s') \<Longrightarrow> wp m Q s \<longleftrightarrow> Q x s'"
  by (simp add: wp_def)

lemma wp_by: "m s = m' s \<Longrightarrow> wp m' Q s \<Longrightarrow> wp m Q s"
  by (simp add: wp_def)

lemma wp_DoneD: "wp m Q s \<Longrightarrow> m s = Done (x, s') \<Longrightarrow> Q x s'"
  by (simp add: wp_def)

text \<open>A loop: an invariant over the part of the list that is still to do.\<close>

lemma wp_for_each:
  assumes "I xs s"
    and "\<And>x ys s. I (x # ys) s \<Longrightarrow> wp (f x) (\<lambda>_. I ys) s"
    and "\<And>s. I [] s \<Longrightarrow> Q () s"
  shows "wp (for_each f xs) Q s"
  using assms(1)
proof (induction xs arbitrary: s)
  case (Cons x xs)
  from assms(2) [OF Cons.prems] Cons.IH show ?case by (auto elim: wp_mono)
qed (simp add: assms(3))

end
