(* ===== verification/Data_Heap.thy ===== *)
theory Data_Heap
  imports Data_Node Effects
begin

text \<open>
  Nodes as the program has them: cells of a heap with a reference count, reached by address
  (\<^verbatim>\<open>src/data/data_node.h\<close>, \<^verbatim>\<open>data_node.cpp\<close>).  A node can be shared by several
  containers and handles.  The theory holds the model of every operation on nodes; what they keep
  of the counts is shown in the theory that follows.

  The address of a freed node is not given out again, so that each use after a free is visible
  as the crash \<^const>\<open>Freed\<close>.  Recursive operations take the number of stack frames there is room
  for.  \<open>epoch\<close> has no counterpart in the program: it counts the changes after which the iterators
  of the hash table of a node are documented to be invalid.
\<close>

section \<open>Cells\<close>

datatype DataType = TNull | TBool | TInt | TFloat | TString | TArray | TObject | TIntMap | TBinary

type_synonym addr = nat

datatype payload =
    NullV
  | BoolV bool
  | IntV i64
  | FloatV f64
  | StringV string
  | ArrayV "addr list"
  | ObjectV "(string \<times> addr) list"
  | IntMapV "(i64 \<times> addr) list"
  | BinaryV "byte list"

fun type_of :: "payload \<Rightarrow> DataType" where
  "type_of NullV = TNull"
| "type_of (BoolV b) = TBool"
| "type_of (IntV i) = TInt"
| "type_of (FloatV d) = TFloat"
| "type_of (StringV s) = TString"
| "type_of (ArrayV xs) = TArray"
| "type_of (ObjectV m) = TObject"
| "type_of (IntMapV m) = TIntMap"
| "type_of (BinaryV bs) = TBinary"

fun children :: "payload \<Rightarrow> addr list" where
  "children (ArrayV xs) = xs"
| "children (ObjectV m) = map snd m"
| "children (IntMapV m) = map snd m"
| "children p = []"

record Cell =
  version :: "24 word"
  refcount :: u32
  payload :: payload
  epoch :: nat

record Heap =
  cells :: "addr \<Rightarrow> Cell option"
  next_addr :: addr

definition Heap_init :: Heap where
  "Heap_init = \<lparr>cells = Map.empty, next_addr = 0\<rparr>"

type_synonym 'a node_act = "(Heap, 'a) act"

definition cell_at :: "addr \<Rightarrow> Cell node_act" where
  "cell_at a h = (case cells h a of None \<Rightarrow> Crash Freed | Some c \<Rightarrow> Done (c, h))"

definition modify_cell :: "addr \<Rightarrow> (Cell \<Rightarrow> Cell) \<Rightarrow> unit node_act" where
  "modify_cell a f h = (case cells h a of
     None \<Rightarrow> Crash Freed
   | Some c \<Rightarrow> Done ((), h\<lparr>cells := (cells h)(a \<mapsto> f c)\<rparr>))"

text \<open>\<^verbatim>\<open>new (g_pool.Alloc()) DataNode()\<close> and the assignment of the member.\<close>

definition new_node :: "payload \<Rightarrow> addr node_act" where
  "new_node p h = Done (next_addr h,
     h\<lparr>cells := (cells h)(next_addr h \<mapsto> \<lparr>version = 0, refcount = 1, payload = p, epoch = 0\<rparr>),
       next_addr := Suc (next_addr h)\<rparr>)"

definition free_node :: "addr \<Rightarrow> unit node_act" where
  "free_node a h = (case cells h a of
     None \<Rightarrow> Crash Freed
   | Some c \<Rightarrow> Done ((), h\<lparr>cells := (cells h)(a := None)\<rparr>))"

section \<open>Factory methods\<close>

definition MakeNull :: "addr node_act" where
  "MakeNull = new_node NullV"

definition MakeBool :: "bool \<Rightarrow> addr node_act" where
  "MakeBool v = new_node (BoolV v)"

definition MakeInt :: "i64 \<Rightarrow> addr node_act" where
  "MakeInt v = new_node (IntV v)"

definition MakeFloat :: "f64 \<Rightarrow> addr node_act" where
  "MakeFloat v = new_node (FloatV v)"

definition MakeString :: "string \<Rightarrow> addr node_act" where
  "MakeString v = new_node (StringV (c_str v))"

definition MakeString_len :: "string \<Rightarrow> nat \<Rightarrow> addr node_act" where
  "MakeString_len v len = new_node (StringV (take len v))"

definition MakeArray :: "addr node_act" where
  "MakeArray = new_node (ArrayV [])"

definition MakeObject :: "addr node_act" where
  "MakeObject = new_node (ObjectV [])"

definition MakeIntMap :: "addr node_act" where
  "MakeIntMap = new_node (IntMapV [])"

definition MakeBinary :: "byte list \<Rightarrow> addr node_act" where
  "MakeBinary data = new_node (BinaryV data)"

section \<open>Reference counts\<close>

definition Incref :: "addr \<Rightarrow> unit node_act" where
  "Incref a = modify_cell a (\<lambda>c. c\<lparr>refcount := refcount c + 1\<rparr>)"

text \<open>A null pointer is None.  \<^verbatim>\<open>fetch_sub\<close> gives the count before the subtraction.\<close>

primrec Decref :: "nat \<Rightarrow> addr option \<Rightarrow> unit node_act" where
  "Decref 0 node = crash StackOverflow"
| "Decref (Suc k) node = (case node of
     None \<Rightarrow> ret ()
   | Some a \<Rightarrow>
       seq (cell_at a) (\<lambda>c.
       seq (modify_cell a (\<lambda>c. c\<lparr>refcount := refcount c - 1\<rparr>)) (\<lambda>_.
       if 1 < refcount c then ret ()
       else seq (for_each (\<lambda>child. Decref k (Some child)) (children (payload c))) (\<lambda>_.
            free_node a))))"

section \<open>Object helpers\<close>

definition ObjFind :: "addr \<Rightarrow> string \<Rightarrow> addr option node_act" where
  "ObjFind this key = seq (cell_at this) (\<lambda>c. case payload c of
     ObjectV m \<Rightarrow> ret (map_of m key)
   | _ \<Rightarrow> ret None)"

definition ObjContains :: "addr \<Rightarrow> string \<Rightarrow> bool node_act" where
  "ObjContains this key = seq (cell_at this) (\<lambda>c. case payload c of
     ObjectV m \<Rightarrow> ret (map_of m key \<noteq> None)
   | _ \<Rightarrow> ret False)"

text \<open>The assignment through an iterator to an entry that exists, and the insertion of a new entry,
  which moves others about.\<close>

definition obj_assign :: "addr \<Rightarrow> string \<Rightarrow> addr \<Rightarrow> unit node_act" where
  "obj_assign this key val = seq (cell_at this) (\<lambda>c. case payload c of
     ObjectV m \<Rightarrow> modify_cell this (\<lambda>c. c\<lparr>payload := ObjectV (AList.update key val m)\<rparr>)
   | _ \<Rightarrow> crash WrongMember)"

definition obj_emplace :: "layouts \<Rightarrow> addr \<Rightarrow> string \<Rightarrow> addr \<Rightarrow> unit node_act" where
  "obj_emplace L this key val = seq (cell_at this) (\<lambda>c. case payload c of
     ObjectV m \<Rightarrow>
       if map_of m key = None
       then modify_cell this (\<lambda>c. c\<lparr>payload := ObjectV (map_put (str_layout L) key val m), epoch := Suc (epoch c)\<rparr>)
       else ret ()
   | _ \<Rightarrow> crash WrongMember)"

definition bump_version :: "addr \<Rightarrow> unit node_act" where
  "bump_version this = modify_cell this (\<lambda>c. c\<lparr>version := version c + 1\<rparr>)"

definition ObjInsert :: "nat \<Rightarrow> layouts \<Rightarrow> addr \<Rightarrow> string \<Rightarrow> addr \<Rightarrow> unit node_act" where
  "ObjInsert k L this key val = seq (cell_at this) (\<lambda>c. case payload c of
     ObjectV m \<Rightarrow>
       seq (bump_version this) (\<lambda>_.
       case map_of m key of
         None \<Rightarrow> obj_emplace L this key val
       | Some old \<Rightarrow> seq (Decref k (Some old)) (\<lambda>_. obj_assign this key val))
   | _ \<Rightarrow> Decref k (Some val))"

definition obj_erase :: "layouts \<Rightarrow> addr \<Rightarrow> string \<Rightarrow> unit node_act" where
  "obj_erase L this key = seq (cell_at this) (\<lambda>c. case payload c of
     ObjectV m \<Rightarrow> modify_cell this (\<lambda>c. c\<lparr>payload := ObjectV (map_del (str_layout L) key m), epoch := Suc (epoch c)\<rparr>)
   | _ \<Rightarrow> crash WrongMember)"

definition ObjErase :: "nat \<Rightarrow> layouts \<Rightarrow> addr \<Rightarrow> string \<Rightarrow> bool node_act" where
  "ObjErase k L this key = seq (cell_at this) (\<lambda>c. case payload c of
     ObjectV m \<Rightarrow> (case map_of m key of
         None \<Rightarrow> ret False
       | Some old \<Rightarrow>
           seq (bump_version this) (\<lambda>_.
           seq (Decref k (Some old)) (\<lambda>_.
           seq (obj_erase L this key) (\<lambda>_. ret True))))
   | _ \<Rightarrow> ret False)"

definition ObjSize :: "addr \<Rightarrow> nat node_act" where
  "ObjSize this = seq (cell_at this) (\<lambda>c. case payload c of
     ObjectV m \<Rightarrow> ret (length m)
   | _ \<Rightarrow> ret 0)"

definition ObjClear :: "nat \<Rightarrow> addr \<Rightarrow> unit node_act" where
  "ObjClear k this = seq (cell_at this) (\<lambda>c. case payload c of
     ObjectV m \<Rightarrow>
       seq (bump_version this) (\<lambda>_.
       seq (for_each (\<lambda>(key, val). Decref k (Some val)) m) (\<lambda>_.
       modify_cell this (\<lambda>c. c\<lparr>payload := ObjectV [], epoch := Suc (epoch c)\<rparr>)))
   | _ \<Rightarrow> ret ())"

section \<open>IntMap helpers\<close>

definition IntMapFind :: "addr \<Rightarrow> i64 \<Rightarrow> addr option node_act" where
  "IntMapFind this key = seq (cell_at this) (\<lambda>c. case payload c of
     IntMapV m \<Rightarrow> ret (map_of m key)
   | _ \<Rightarrow> ret None)"

definition IntMapContains :: "addr \<Rightarrow> i64 \<Rightarrow> bool node_act" where
  "IntMapContains this key = seq (cell_at this) (\<lambda>c. case payload c of
     IntMapV m \<Rightarrow> ret (map_of m key \<noteq> None)
   | _ \<Rightarrow> ret False)"

definition intmap_assign :: "addr \<Rightarrow> i64 \<Rightarrow> addr \<Rightarrow> unit node_act" where
  "intmap_assign this key val = seq (cell_at this) (\<lambda>c. case payload c of
     IntMapV m \<Rightarrow> modify_cell this (\<lambda>c. c\<lparr>payload := IntMapV (AList.update key val m)\<rparr>)
   | _ \<Rightarrow> crash WrongMember)"

definition intmap_emplace :: "layouts \<Rightarrow> addr \<Rightarrow> i64 \<Rightarrow> addr \<Rightarrow> unit node_act" where
  "intmap_emplace L this key val = seq (cell_at this) (\<lambda>c. case payload c of
     IntMapV m \<Rightarrow>
       if map_of m key = None
       then modify_cell this (\<lambda>c. c\<lparr>payload := IntMapV (map_put (int_layout L) key val m), epoch := Suc (epoch c)\<rparr>)
       else ret ()
   | _ \<Rightarrow> crash WrongMember)"

definition IntMapInsert :: "nat \<Rightarrow> layouts \<Rightarrow> addr \<Rightarrow> i64 \<Rightarrow> addr \<Rightarrow> unit node_act" where
  "IntMapInsert k L this key val = seq (cell_at this) (\<lambda>c. case payload c of
     IntMapV m \<Rightarrow>
       seq (bump_version this) (\<lambda>_.
       case map_of m key of
         None \<Rightarrow> intmap_emplace L this key val
       | Some old \<Rightarrow> seq (Decref k (Some old)) (\<lambda>_. intmap_assign this key val))
   | _ \<Rightarrow> Decref k (Some val))"

definition intmap_erase :: "layouts \<Rightarrow> addr \<Rightarrow> i64 \<Rightarrow> unit node_act" where
  "intmap_erase L this key = seq (cell_at this) (\<lambda>c. case payload c of
     IntMapV m \<Rightarrow> modify_cell this (\<lambda>c. c\<lparr>payload := IntMapV (map_del (int_layout L) key m), epoch := Suc (epoch c)\<rparr>)
   | _ \<Rightarrow> crash WrongMember)"

definition IntMapErase :: "nat \<Rightarrow> layouts \<Rightarrow> addr \<Rightarrow> i64 \<Rightarrow> bool node_act" where
  "IntMapErase k L this key = seq (cell_at this) (\<lambda>c. case payload c of
     IntMapV m \<Rightarrow> (case map_of m key of
         None \<Rightarrow> ret False
       | Some old \<Rightarrow>
           seq (bump_version this) (\<lambda>_.
           seq (Decref k (Some old)) (\<lambda>_.
           seq (intmap_erase L this key) (\<lambda>_. ret True))))
   | _ \<Rightarrow> ret False)"

definition IntMapSize :: "addr \<Rightarrow> nat node_act" where
  "IntMapSize this = seq (cell_at this) (\<lambda>c. case payload c of
     IntMapV m \<Rightarrow> ret (length m)
   | _ \<Rightarrow> ret 0)"

definition IntMapClear :: "nat \<Rightarrow> addr \<Rightarrow> unit node_act" where
  "IntMapClear k this = seq (cell_at this) (\<lambda>c. case payload c of
     IntMapV m \<Rightarrow>
       seq (bump_version this) (\<lambda>_.
       seq (for_each (\<lambda>(key, val). Decref k (Some val)) m) (\<lambda>_.
       modify_cell this (\<lambda>c. c\<lparr>payload := IntMapV [], epoch := Suc (epoch c)\<rparr>)))
   | _ \<Rightarrow> ret ())"

section \<open>Array helpers\<close>

text \<open>\<^verbatim>\<open>node->Arr().push_back(val)\<close>, which nothing protects against a node of another type.\<close>

definition arr_push_back :: "addr \<Rightarrow> addr \<Rightarrow> unit node_act" where
  "arr_push_back this val = seq (cell_at this) (\<lambda>c. case payload c of
     ArrayV xs \<Rightarrow> modify_cell this (\<lambda>c. c\<lparr>payload := ArrayV (xs @ [val])\<rparr>)
   | _ \<Rightarrow> crash WrongMember)"

text \<open>An update of the vector of an array node.\<close>

definition arr_modify :: "addr \<Rightarrow> (addr list \<Rightarrow> addr list) \<Rightarrow> unit node_act" where
  "arr_modify this f = seq (cell_at this) (\<lambda>c. case payload c of
     ArrayV xs \<Rightarrow> modify_cell this (\<lambda>c. c\<lparr>payload := ArrayV (f xs)\<rparr>)
   | _ \<Rightarrow> crash WrongMember)"

definition ArrRemove :: "nat \<Rightarrow> addr \<Rightarrow> nat \<Rightarrow> bool node_act" where
  "ArrRemove k this index = seq (cell_at this) (\<lambda>c. case payload c of
     ArrayV xs \<Rightarrow>
       if length xs \<le> index then ret False
       else seq (Decref k (Some (xs ! index))) (\<lambda>_.
            seq (arr_modify this (\<lambda>xs. take index xs @ drop (Suc index) xs)) (\<lambda>_. ret True))
   | _ \<Rightarrow> ret False)"

definition ArrSet :: "nat \<Rightarrow> addr \<Rightarrow> nat \<Rightarrow> addr \<Rightarrow> unit node_act" where
  "ArrSet k this index val = seq (cell_at this) (\<lambda>c. case payload c of
     ArrayV xs \<Rightarrow>
       if length xs \<le> index then Decref k (Some val)
       else seq (Decref k (Some (xs ! index))) (\<lambda>_. arr_modify this (\<lambda>xs. xs[index := val]))
   | _ \<Rightarrow> Decref k (Some val))"

definition ArrClear :: "nat \<Rightarrow> addr \<Rightarrow> unit node_act" where
  "ArrClear k this = seq (cell_at this) (\<lambda>c. case payload c of
     ArrayV xs \<Rightarrow>
       seq (for_each (\<lambda>child. Decref k (Some child)) xs) (\<lambda>_. arr_modify this (\<lambda>xs. []))
   | _ \<Rightarrow> ret ())"

section \<open>Copying and comparing\<close>

primrec DeepCopy_at :: "nat \<Rightarrow> layouts \<Rightarrow> addr \<Rightarrow> addr node_act" where
  "DeepCopy_at 0 L this = crash StackOverflow"
| "DeepCopy_at (Suc k) L this = seq (cell_at this) (\<lambda>c. case payload c of
     NullV \<Rightarrow> MakeNull
   | BoolV b \<Rightarrow> MakeBool b
   | IntV i \<Rightarrow> MakeInt i
   | FloatV d \<Rightarrow> MakeFloat d
   | StringV s \<Rightarrow> MakeString s
   | ArrayV xs \<Rightarrow>
       seq MakeArray (\<lambda>n.
       seq (for_each (\<lambda>elem. seq (DeepCopy_at k L elem) (arr_push_back n)) xs) (\<lambda>_. ret n))
   | ObjectV m \<Rightarrow>
       seq MakeObject (\<lambda>n.
       seq (for_each (\<lambda>(key, val). seq (DeepCopy_at k L val) (ObjInsert k L n key)) m) (\<lambda>_. ret n))
   | IntMapV m \<Rightarrow>
       seq MakeIntMap (\<lambda>n.
       seq (for_each (\<lambda>(key, val). seq (DeepCopy_at k L val) (IntMapInsert k L n key)) m) (\<lambda>_. ret n))
   | BinaryV bs \<Rightarrow> MakeBinary bs)"

text \<open>A loop that ends with false at the first step that does.\<close>

primrec for_all :: "('x \<Rightarrow> ('s, bool) act) \<Rightarrow> 'x list \<Rightarrow> ('s, bool) act" where
  "for_all f [] = ret True"
| "for_all f (x # xs) = seq (f x) (\<lambda>b. if b then for_all f xs else ret False)"

primrec Equals_at :: "nat \<Rightarrow> addr \<Rightarrow> addr option \<Rightarrow> bool node_act" where
  "Equals_at 0 this other = crash StackOverflow"
| "Equals_at (Suc k) this other = (case other of
     None \<Rightarrow> ret False
   | Some b \<Rightarrow> seq (cell_at this) (\<lambda>c. seq (cell_at b) (\<lambda>d. case (payload c, payload d) of
       (NullV, NullV) \<Rightarrow> ret True
     | (BoolV x, BoolV y) \<Rightarrow> ret (x = y)
     | (IntV x, IntV y) \<Rightarrow> ret (x = y)
     | (FloatV x, FloatV y) \<Rightarrow> ret (f64_eq x y)
     | (StringV x, StringV y) \<Rightarrow> ret (x = y)
     | (ArrayV xs, ArrayV ys) \<Rightarrow>
         if length xs \<noteq> length ys then ret False
         else for_all (\<lambda>(x, y). Equals_at k x (Some y)) (zip xs ys)
     | (ObjectV m, ObjectV m') \<Rightarrow>
         if length m \<noteq> length m' then ret False
         else for_all (\<lambda>(key, val). case map_of m' key of
                None \<Rightarrow> ret False
              | Some val' \<Rightarrow> Equals_at k val (Some val')) m
     | (IntMapV m, IntMapV m') \<Rightarrow>
         if length m \<noteq> length m' then ret False
         else for_all (\<lambda>(key, val). case map_of m' key of
                None \<Rightarrow> ret False
              | Some val' \<Rightarrow> Equals_at k val (Some val')) m
     | (BinaryV x, BinaryV y) \<Rightarrow> ret (x = y)
     | _ \<Rightarrow> ret False)))"

section \<open>Merging\<close>

text \<open>One round of the loop of \<^verbatim>\<open>ObjMerge\<close>.  In the assignment to a new entry the copy is made
  before the entry, as C++17 has it.\<close>

definition obj_merge_entry :: "nat \<Rightarrow> layouts \<Rightarrow> addr \<Rightarrow> bool \<Rightarrow> string \<times> addr \<Rightarrow> unit node_act" where
  "obj_merge_entry k L this overwrite = (\<lambda>(key, val).
     seq (ObjFind this key) (\<lambda>it. case it of
       Some old \<Rightarrow>
         if overwrite
         then seq (Decref k (Some old)) (\<lambda>_. seq (DeepCopy_at k L val) (obj_assign this key))
         else ret ()
     | None \<Rightarrow> seq (DeepCopy_at k L val) (obj_emplace L this key)))"

definition ObjMerge :: "nat \<Rightarrow> layouts \<Rightarrow> addr \<Rightarrow> addr option \<Rightarrow> bool \<Rightarrow> unit node_act" where
  "ObjMerge k L this other overwrite = seq (cell_at this) (\<lambda>c. case (payload c, other) of
     (ObjectV m, Some b) \<Rightarrow> seq (cell_at b) (\<lambda>d. case payload d of
         ObjectV entries \<Rightarrow> for_each (obj_merge_entry k L this overwrite) entries
       | _ \<Rightarrow> ret ())
   | _ \<Rightarrow> ret ())"

definition intmap_merge_entry :: "nat \<Rightarrow> layouts \<Rightarrow> addr \<Rightarrow> bool \<Rightarrow> i64 \<times> addr \<Rightarrow> unit node_act" where
  "intmap_merge_entry k L this overwrite = (\<lambda>(key, val).
     seq (IntMapFind this key) (\<lambda>it. case it of
       Some old \<Rightarrow>
         if overwrite
         then seq (Decref k (Some old)) (\<lambda>_. seq (DeepCopy_at k L val) (intmap_assign this key))
         else ret ()
     | None \<Rightarrow> seq (DeepCopy_at k L val) (intmap_emplace L this key)))"

definition IntMapMerge :: "nat \<Rightarrow> layouts \<Rightarrow> addr \<Rightarrow> addr option \<Rightarrow> bool \<Rightarrow> unit node_act" where
  "IntMapMerge k L this other overwrite = seq (cell_at this) (\<lambda>c. case (payload c, other) of
     (IntMapV m, Some b) \<Rightarrow> seq (cell_at b) (\<lambda>d. case payload d of
         IntMapV entries \<Rightarrow> for_each (intmap_merge_entry k L this overwrite) entries
       | _ \<Rightarrow> ret ())
   | _ \<Rightarrow> ret ())"

definition ArrExtend :: "nat \<Rightarrow> layouts \<Rightarrow> addr \<Rightarrow> addr option \<Rightarrow> unit node_act" where
  "ArrExtend k L this other = seq (cell_at this) (\<lambda>c. case (payload c, other) of
     (ArrayV xs, Some b) \<Rightarrow> seq (cell_at b) (\<lambda>d. case payload d of
         ArrayV elems \<Rightarrow> for_each (\<lambda>elem. seq (DeepCopy_at k L elem) (arr_push_back this)) elems
       | _ \<Rightarrow> ret ())
   | _ \<Rightarrow> ret ())"

end
