(* ===== verification/Heap_Counts.thy ===== *)
theory Heap_Counts
  imports Data_Heap
begin

text \<open>
  What the reference counts of the nodes mean, and that every operation on nodes keeps it: the count
  of a node is the number of pointers to it, from containers and from outside (handles, iterators,
  pointers on the way), every pointer is to a node that exists, and a node without pointers is gone.
\<close>

section \<open>The invariant\<close>

definition kids :: "Cell \<Rightarrow> addr multiset" where
  "kids c = mset (children (payload c))"

fun payload_ok :: "payload \<Rightarrow> bool" where
  "payload_ok (ObjectV m) = distinct (map fst m)"
| "payload_ok (IntMapV m) = distinct (map fst m)"
| "payload_ok p = True"

text \<open>In the middle of an operation a container may hold pointers it no longer owns: the mask \<open>M\<close>
  says what such a node still owns.\<close>

definition view :: "(addr \<Rightarrow> addr multiset option) \<Rightarrow> addr \<Rightarrow> Cell \<Rightarrow> addr multiset" where
  "view M a c = (case M a of None \<Rightarrow> kids c | Some K \<Rightarrow> K)"

text \<open>All pointers to nodes: the ones from outside, \<open>R\<close>, and the ones in containers.\<close>

definition refs :: "(addr \<Rightarrow> addr multiset option) \<Rightarrow> addr multiset \<Rightarrow> Heap \<Rightarrow> addr multiset" where
  "refs M R h = R + (\<Sum>a \<in> dom (cells h). view M a (the (cells h a)))"

definition heap_ok :: "nat \<Rightarrow> (addr \<Rightarrow> addr multiset option) \<Rightarrow> addr multiset \<Rightarrow> Heap \<Rightarrow> bool" where
  "heap_ok n M R h \<longleftrightarrow>
     finite (dom (cells h)) \<and> (\<forall>a \<in> dom (cells h). a < next_addr h)
     \<and> (\<forall>a c. cells h a = Some c \<longrightarrow> unat (refcount c) = count (refs M R h) a \<and> payload_ok (payload c))
     \<and> set_mset (refs M R h) \<subseteq> dom (cells h)
     \<and> (\<forall>a. count (refs M R h) a \<le> n)
     \<and> dom M \<subseteq> dom (cells h)
     \<and> (\<forall>a \<in> dom (cells h). M a = None \<longrightarrow> a \<in># refs M R h)"

lemma heap_okD:
  assumes "heap_ok n M R h"
  shows "finite (dom (cells h))" "cells h a = Some c \<Longrightarrow> a < next_addr h"
    "cells h a = Some c \<Longrightarrow> unat (refcount c) = count (refs M R h) a"
    "cells h a = Some c \<Longrightarrow> payload_ok (payload c)"
    "a \<in># refs M R h \<Longrightarrow> \<exists>c. cells h a = Some c"
    "count (refs M R h) a \<le> n" "M a = Some K \<Longrightarrow> \<exists>c. cells h a = Some c"
    "cells h a = Some c \<Longrightarrow> M a = None \<Longrightarrow> a \<in># refs M R h"
  using assms unfolding heap_ok_def by (auto simp: subset_iff dom_def)

lemma heap_ok_init: "heap_ok n Map.empty {#} Heap_init"
  by (simp add: heap_ok_def refs_def Heap_init_def)

lemma refs_outside [simp]: "refs M (add_mset a R) h = add_mset a (refs M R h)"
  "refs M (R + S) h = S + refs M R h"
  by (simp_all add: refs_def)

lemma refs_in: "a \<in># R \<Longrightarrow> a \<in># refs M R h"
  by (simp add: refs_def)

lemma heap_ok_live: "heap_ok n M R h \<Longrightarrow> a \<in># R \<Longrightarrow> \<exists>c. cells h a = Some c"
  by (meson heap_okD(5) refs_in)

lemma view_simps [simp]: "M a = None \<Longrightarrow> view M a c = kids c" "M a = Some K \<Longrightarrow> view M a c = K"
  by (simp_all add: view_def)

lemma view_sub:
  assumes "finite (dom (cells h))" "cells h a = Some c"
  shows "view M a c \<subseteq># refs M R h"
proof -
  have "(\<Sum>a \<in> dom (cells h). view M a (the (cells h a)))
      = view M a c + (\<Sum>a \<in> dom (cells h) - {a}. view M a (the (cells h a)))"
    using assms by (subst sum.remove [of _ a]) auto
  then show ?thesis by (simp add: refs_def)
qed

lemma child_live:
  assumes "heap_ok n M R h" "cells h a = Some c" "M a = None" "b \<in> set (children (payload c))"
  shows "\<exists>c. cells h b = Some c"
proof -
  have "b \<in># view M a c" using assms(3,4) by (simp add: kids_def)
  then have "b \<in># refs M R h" using view_sub [OF heap_okD(1) [OF assms(1)] assms(2)] by (meson mset_subset_eqD)
  then show ?thesis by (rule heap_okD(5) [OF assms(1)])
qed

section \<open>How the pointers change\<close>

lemma refs_update:
  assumes "finite (dom (cells h))" "cells h a = Some c"
  shows "refs M R (h\<lparr>cells := (cells h)(a \<mapsto> c')\<rparr>) + view M a c = refs M R h + view M a c'"
proof -
  let ?s = "\<Sum>x \<in> dom (cells h) - {a}. view M x (the (cells h x))"
  have "(\<Sum>x \<in> dom (cells h). view M x (the (cells h x))) = view M a c + ?s"
    using assms by (subst sum.remove [of _ a]) auto
  moreover have "(\<Sum>x \<in> insert a (dom (cells h)). view M x (the (((cells h)(a \<mapsto> c')) x))) = view M a c' + ?s"
    using assms by (subst sum.insert_remove) (auto intro!: sum.cong)
  ultimately show ?thesis by (simp add: refs_def ac_simps)
qed

lemma refs_free:
  assumes "finite (dom (cells h))" "cells h a = Some c"
  shows "refs M R (h\<lparr>cells := (cells h)(a := None)\<rparr>) + view M a c = refs M R h"
proof -
  let ?s = "\<Sum>x \<in> dom (cells h) - {a}. view M x (the (cells h x))"
  have "(\<Sum>x \<in> dom (cells h). view M x (the (cells h x))) = view M a c + ?s"
    using assms by (subst sum.remove [of _ a]) auto
  moreover have "(\<Sum>x \<in> dom (cells h) - {a}. view M x (the (((cells h)(a := None)) x))) = ?s"
    by (intro sum.cong) auto
  ultimately show ?thesis by (simp add: refs_def ac_simps)
qed

lemma refs_new:
  assumes "finite (dom (cells h))" "cells h a = None"
  shows "refs M R (h\<lparr>cells := (cells h)(a \<mapsto> c), next_addr := k\<rparr>) = refs M R h + view M a c"
proof -
  have "(\<Sum>x \<in> dom (cells h). view M x (the (((cells h)(a \<mapsto> c)) x)))
      = (\<Sum>x \<in> dom (cells h). view M x (the (cells h x)))"
    using assms(2) by (intro sum.cong) auto
  then show ?thesis using assms by (simp add: refs_def domIff ac_simps)
qed

lemma refs_mask:
  assumes "finite (dom (cells h))" "cells h a = Some c"
  shows "refs (M(a \<mapsto> K)) R h + view M a c = refs M R h + K"
proof -
  have "(\<Sum>x \<in> dom (cells h). view M x (the (cells h x)))
      = view M a c + (\<Sum>x \<in> dom (cells h) - {a}. view M x (the (cells h x)))"
    using assms by (subst sum.remove [of _ a]) auto
  moreover have "(\<Sum>x \<in> dom (cells h). view (M(a \<mapsto> K)) x (the (cells h x)))
      = K + (\<Sum>x \<in> dom (cells h) - {a}. view M x (the (cells h x)))"
    using assms by (subst sum.remove [of _ a]) (auto simp: view_def intro!: sum.cong)
  ultimately show ?thesis by (simp add: refs_def ac_simps)
qed

lemma refs_same_kids:
  assumes "finite (dom (cells h))" "cells h a = Some c" "kids c' = kids c"
  shows "refs M R (h\<lparr>cells := (cells h)(a \<mapsto> c')\<rparr>) = refs M R h"
  using refs_update [OF assms(1,2), of M R c'] assms(3) by (simp add: view_def split: option.splits)

text \<open>An operation that moves pointers about without changing their number keeps the invariant.\<close>

lemma heap_ok_same_refs:
  assumes "heap_ok n M R h" "refs M' R' h' = refs M R h" "dom (cells h') = dom (cells h)"
    "next_addr h' = next_addr h" "dom M' \<subseteq> dom M \<union> set_mset (refs M R h)"
    "\<And>a. a \<in> dom (cells h) \<Longrightarrow> M' a = None \<Longrightarrow> M a = None \<or> a \<in># refs M R h"
    "\<And>a c'. cells h' a = Some c' \<Longrightarrow>
       (\<exists>c. cells h a = Some c \<and> refcount c' = refcount c) \<and> payload_ok (payload c')"
  shows "heap_ok n M' R' h'"
  unfolding heap_ok_def assms(2,3,4)
proof (intro conjI allI impI)
  fix a c assume "cells h' a = Some c"
  with assms(7) [OF this] show "unat (refcount c) = count (refs M R h) a" "payload_ok (payload c)"
    using heap_okD(3) [OF assms(1)] by auto
next
  show "dom M' \<subseteq> dom (cells h)" using assms(5) heap_okD(5,7) [OF assms(1)] by blast
next
  show "\<forall>a\<in>dom (cells h). M' a = None \<longrightarrow> a \<in># refs M R h"
    using assms(6) heap_okD(8) [OF assms(1)] by blast
qed (use heap_okD [OF assms(1)] in auto)

text \<open>The payload of a node is replaced: pointers go in from outside, or out.\<close>

lemma heap_ok_payload:
  assumes "heap_ok n M (R + I) h" "cells h a = Some c" "M a = None" "payload_ok (payload c')"
    "refcount c' = refcount c" "kids c' + J = kids c + I"
  shows "heap_ok n M (R + J) (h\<lparr>cells := (cells h)(a \<mapsto> c')\<rparr>)"
proof (rule heap_ok_same_refs [OF assms(1)])
  let ?h = "h\<lparr>cells := (cells h)(a \<mapsto> c')\<rparr>"
  have "refs M R ?h + kids c = refs M R h + kids c'"
    using refs_update [OF heap_okD(1) [OF assms(1)] assms(2), of M R c'] assms(3) by simp
  then have "(refs M R ?h + J) + kids c = (refs M R h + I) + kids c"
    using assms(6) by (metis add.assoc add.commute)
  then show "refs M (R + J) ?h = refs M (R + I) h" by (simp add: refs_def ac_simps)
qed (use assms heap_okD(4) [OF assms(1)] in \<open>auto split: if_splits\<close>)

text \<open>The same where a mask is taken off.\<close>

lemma heap_ok_unmask:
  assumes "heap_ok n (M(a \<mapsto> K)) (R + I) h" "cells h a = Some c" "M a = None" "payload_ok (payload c')"
    "refcount c' = refcount c" "kids c' + J = K + I" "a \<in># R"
  shows "heap_ok n M (R + J) (h\<lparr>cells := (cells h)(a \<mapsto> c')\<rparr>)"
proof (rule heap_ok_same_refs [OF assms(1)])
  let ?h = "h\<lparr>cells := (cells h)(a \<mapsto> c')\<rparr>"
  have fin: "finite (dom (cells h))" by (rule heap_okD(1) [OF assms(1)])
  have "refs M R ?h + kids c = refs M R h + kids c'"
    using refs_update [OF fin assms(2), of M R c'] assms(3) by simp
  moreover have "refs (M(a \<mapsto> K)) R h + kids c = refs M R h + K"
    using refs_mask [OF fin assms(2), of M K R] assms(3) by simp
  ultimately have "(refs M R ?h + J) + kids c = (refs (M(a \<mapsto> K)) R h + I) + kids c"
    using assms(6) by (metis (no_types, lifting) add.assoc add.commute)
  then show "refs M (R + J) ?h = refs (M(a \<mapsto> K)) (R + I) h" by (simp add: refs_def ac_simps)
  show "dom M \<subseteq> dom (M(a \<mapsto> K)) \<union> set_mset (refs (M(a \<mapsto> K)) (R + I) h)" by auto
  show "(M(a \<mapsto> K)) x = None \<or> x \<in># refs (M(a \<mapsto> K)) (R + I) h"
    if "x \<in> dom (cells h)" "M x = None" for x
    using that assms(7) refs_in [of a R] by (cases "x = a") auto
qed (use assms heap_okD(4) [OF assms(1)] in \<open>auto split: if_splits\<close>)

text \<open>A mask is put on, and the pointers it hides become pointers from outside.\<close>

lemma heap_ok_mask:
  assumes "heap_ok n M R h" "cells h a = Some c" "M a = None" "kids c = K + J"
  shows "heap_ok n (M(a \<mapsto> K)) (R + J) h"
proof (rule heap_ok_same_refs [OF assms(1)])
  have "refs (M(a \<mapsto> K)) R h + kids c = refs M R h + K"
    using refs_mask [OF heap_okD(1) [OF assms(1)] assms(2), of M K R] assms(3) by simp
  then have "(refs (M(a \<mapsto> K)) R h + J) + K = refs M R h + K"
    using assms(4) by (simp add: ac_simps)
  then show "refs (M(a \<mapsto> K)) (R + J) h = refs M R h" by (simp add: refs_def ac_simps)
  show "dom (M(a \<mapsto> K)) \<subseteq> dom M \<union> set_mset (refs M R h)"
    using heap_okD(8) [OF assms(1,2,3)] by auto
qed (use heap_okD(4) [OF assms(1)] in \<open>auto split: if_splits\<close>)

section \<open>Cells\<close>

lemma wp_cell_at: "cells h a = Some c \<Longrightarrow> wp (cell_at a) Q h \<longleftrightarrow> Q c h"
  by (simp add: wp_def cell_at_def)

lemma wp_modify_cell:
  "cells h a = Some c \<Longrightarrow> wp (modify_cell a f) Q h \<longleftrightarrow> Q () (h\<lparr>cells := (cells h)(a \<mapsto> f c)\<rparr>)"
  by (simp add: wp_def modify_cell_def)

lemma wp_free_node:
  "cells h a = Some c \<Longrightarrow> wp (free_node a) Q h \<longleftrightarrow> Q () (h\<lparr>cells := (cells h)(a := None)\<rparr>)"
  by (simp add: wp_def free_node_def)

lemma heap_ok_new:
  assumes "heap_ok n M R h" "1 \<le> n" "children p = []" "payload_ok p"
  shows "heap_ok n M (add_mset (next_addr h) R)
    (h\<lparr>cells := (cells h)(next_addr h \<mapsto> \<lparr>version = 0, refcount = 1, payload = p, epoch = e\<rparr>),
       next_addr := Suc (next_addr h)\<rparr>)"
    (is "heap_ok n M _ ?h")
proof -
  let ?a = "next_addr h" let ?c = "\<lparr>version = 0, refcount = 1, payload = p, epoch = e\<rparr>"
  have free: "cells h ?a = None" using heap_okD(2) [OF assms(1), of ?a] by (cases "cells h ?a") auto
  then have "M ?a = None" using heap_okD(7) [OF assms(1), of ?a] by (cases "M ?a") auto
  then have r: "refs M (add_mset ?a R) ?h = add_mset ?a (refs M R h)"
    using refs_new [OF heap_okD(1) [OF assms(1)] free, where c = ?c and k = "Suc ?a" and M = M and R = R] assms(3)
    by (simp add: kids_def)
  have nin: "?a \<notin># refs M R h" using heap_okD(5) [OF assms(1), of ?a] free by auto
  show ?thesis
    unfolding heap_ok_def r
  proof (intro conjI allI impI)
    fix a c assume c: "cells ?h a = Some c"
    show "unat (refcount c) = count (add_mset ?a (refs M R h)) a" "payload_ok (payload c)"
      using c nin heap_okD(3,4) [OF assms(1), of a c] assms(4)
      by (auto simp: not_in_iff split: if_splits)
  next
    show "count (add_mset ?a (refs M R h)) a \<le> n" for a
      using heap_okD(6) [OF assms(1), of a] nin assms(2) by (auto simp: not_in_iff)
  next
    show "\<forall>a\<in>dom (cells ?h). M a = None \<longrightarrow> a \<in># add_mset ?a (refs M R h)"
      using heap_okD(8) [OF assms(1)] by auto
  next
    show "\<forall>a\<in>dom (cells ?h). a < next_addr ?h"
      using heap_okD(2) [OF assms(1)] by (auto simp: less_Suc_eq)
  qed (use heap_okD(1,5,7) [OF assms(1)] in auto)
qed

section \<open>Counting up and down\<close>

lemma unat_Suc: "unat (w :: u32) + 1 < 2 ^ 32 \<Longrightarrow> unat (w + 1) = unat w + 1"
  by (simp add: unat_word_ariths)

lemma unat_pred: "0 < unat (w :: u32) \<Longrightarrow> unat (w - 1) = unat w - 1"
  by (metis One_nat_def less_irrefl unat_0 unat_minus_one)

lemma heap_ok_Incref:
  assumes "heap_ok n M R h" "cells h a = Some c" "Suc n < 2 ^ 32"
  shows "heap_ok (Suc n) M (add_mset a R) (h\<lparr>cells := (cells h)(a \<mapsto> c\<lparr>refcount := refcount c + 1\<rparr>)\<rparr>)"
    (is "heap_ok _ _ _ ?h")
proof -
  have r: "refs M (add_mset a R) ?h = add_mset a (refs M R h)"
    using refs_same_kids [OF heap_okD(1) [OF assms(1)] assms(2), of "c\<lparr>refcount := refcount c + 1\<rparr>" M R]
    by (simp add: kids_def)
  have "unat (refcount c) = count (refs M R h) a" "count (refs M R h) a \<le> n"
    using heap_okD(3,6) [OF assms(1)] assms(2) by auto
  then have rc: "unat (refcount c + 1) = count (add_mset a (refs M R h)) a"
    using unat_Suc [of "refcount c"] assms(3) by simp
  show ?thesis
    unfolding heap_ok_def r
    using heap_okD [OF assms(1)] assms(2) rc
    by (auto split: if_splits simp: le_SucI)
qed

text \<open>Only counts change, and nodes may go.\<close>

definition counts_only :: "Heap \<Rightarrow> Heap \<Rightarrow> bool" where
  "counts_only h h' \<longleftrightarrow> next_addr h' = next_addr h
     \<and> (\<forall>x c'. cells h' x = Some c' \<longrightarrow> (\<exists>c. cells h x = Some c \<and> payload c = payload c'
          \<and> version c = version c' \<and> epoch c = epoch c'))"

lemma counts_only_refl [simp]: "counts_only h h"
  by (simp add: counts_only_def)

lemma counts_only_trans: "counts_only h h1 \<Longrightarrow> counts_only h1 h2 \<Longrightarrow> counts_only h h2"
  unfolding counts_only_def by metis

lemma counts_only_payload:
  "counts_only h h' \<Longrightarrow> cells h' x = Some c' \<Longrightarrow> \<exists>c. cells h x = Some c \<and> payload c = payload c'
     \<and> version c = version c' \<and> epoch c = epoch c'"
  by (simp add: counts_only_def)

text \<open>A masked node must not be freed: a pointer from outside keeps it, or nothing points to it.\<close>

definition pinned :: "(addr \<Rightarrow> addr multiset option) \<Rightarrow> addr multiset \<Rightarrow> addr multiset \<Rightarrow> bool" where
  "pinned M R P \<longleftrightarrow> (\<forall>x \<in> dom M. x \<in># R \<or> x \<notin># P)"

lemma pinned_mono: "pinned M R P \<Longrightarrow> P' \<subseteq># P \<Longrightarrow> R \<subseteq># R' \<Longrightarrow> pinned M R' P'"
  unfolding pinned_def by (meson mset_subset_eqD)

lemma heap_ok_Decref_shared:
  assumes "heap_ok n M (add_mset a R) h" "cells h a = Some c" "1 < refcount c"
  shows "heap_ok n M R (h\<lparr>cells := (cells h)(a \<mapsto> c\<lparr>refcount := refcount c - 1\<rparr>)\<rparr>)"
    (is "heap_ok _ _ _ ?h")
proof -
  have r: "refs M R ?h = refs M R h"
    using refs_same_kids [OF heap_okD(1) [OF assms(1)] assms(2), of "c\<lparr>refcount := refcount c - 1\<rparr>" M R]
    by (simp add: kids_def)
  have "unat (refcount c) = Suc (count (refs M R h) a)"
    using heap_okD(3) [OF assms(1,2)] by simp
  moreover have "1 < unat (refcount c)" using assms(3) by (simp add: word_less_nat_alt)
  ultimately have rc: "unat (refcount c - 1) = count (refs M R h) a" "0 < count (refs M R h) a"
    using unat_pred [of "refcount c"] by simp_all
  then have a: "a \<in># refs M R h" by simp
  show ?thesis
    unfolding heap_ok_def r
  proof (intro conjI allI impI)
    show "count (refs M R h) x \<le> n" for x using heap_okD(6) [OF assms(1), of x] by (auto split: if_splits)
    show "\<forall>x \<in> dom (cells ?h). M x = None \<longrightarrow> x \<in># refs M R h"
      using heap_okD(8) [OF assms(1)] a by (auto split: if_splits)
  qed (use heap_okD [OF assms(1)] assms(2) rc in \<open>auto split: if_splits\<close>)
qed

text \<open>The last pointer to a node goes: the node owns nothing any more and what it owned is held from
  outside until it is dropped, too.\<close>

lemma heap_ok_Decref_last:
  assumes "heap_ok n M (add_mset a R) h" "cells h a = Some c" "\<not> 1 < refcount c"
    "pinned M R (refs M (add_mset a R) h)"
  defines "h1 \<equiv> h\<lparr>cells := (cells h)(a \<mapsto> c\<lparr>refcount := refcount c - 1\<rparr>)\<rparr>"
  shows "heap_ok n (M(a \<mapsto> {#})) (R + kids c) h1" "M a = None"
    "a \<notin># refs (M(a \<mapsto> {#})) (R + kids c) h1"
    "refs (M(a \<mapsto> {#})) (R + kids c) h1 = refs M R h"
proof -
  have fin: "finite (dom (cells h))" by (rule heap_okD(1) [OF assms(1)])
  have cnt: "unat (refcount c) = Suc (count (refs M R h) a)" using heap_okD(3) [OF assms(1,2)] by simp
  moreover have "unat (refcount c) \<le> 1" using assms(3) by (simp add: word_less_nat_alt)
  ultimately have one: "unat (refcount c) = 1" "a \<notin># refs M R h" by (auto simp: not_in_iff)
  show M: "M a = None"
  proof (rule ccontr)
    assume "M a \<noteq> None"
    then have "a \<in># R" using assms(4) by (auto simp: pinned_def)
    with one(2) show False by (simp add: refs_in)
  qed
  have "refs (M(a \<mapsto> {#})) R h + kids c = refs M R h"
    using refs_mask [OF fin assms(2), of M "{#}" R] M by simp
  moreover have "refs (M(a \<mapsto> {#})) R h1 = refs (M(a \<mapsto> {#})) R h"
    unfolding h1_def by (rule refs_same_kids [OF fin assms(2)]) (simp add: kids_def)
  ultimately show r: "refs (M(a \<mapsto> {#})) (R + kids c) h1 = refs M R h" by (simp add: refs_def ac_simps)
  with one(2) show "a \<notin># refs (M(a \<mapsto> {#})) (R + kids c) h1" by simp
  have rc: "unat (refcount c - 1) = count (refs M R h) a"
    using cnt one by (simp add: unat_pred)
  show "heap_ok n (M(a \<mapsto> {#})) (R + kids c) h1"
    unfolding heap_ok_def r
  proof (intro conjI allI impI)
    show "count (refs M R h) x \<le> n" for x using heap_okD(6) [OF assms(1), of x] by (auto split: if_splits)
    show "\<forall>x \<in> dom (cells h1). (M(a \<mapsto> {#})) x = None \<longrightarrow> x \<in># refs M R h"
      using heap_okD(8) [OF assms(1)] assms(2) by (auto simp: h1_def split: if_splits)
  qed (use heap_okD [OF assms(1)] assms(2) rc in \<open>auto simp: h1_def split: if_splits\<close>)
qed

lemma heap_ok_free:
  assumes "heap_ok n (M(a \<mapsto> {#})) R h" "M a = None" "a \<notin># refs (M(a \<mapsto> {#})) R h"
  shows "heap_ok n M R (h\<lparr>cells := (cells h)(a := None)\<rparr>)"
    "refs M R (h\<lparr>cells := (cells h)(a := None)\<rparr>) = refs (M(a \<mapsto> {#})) R h"
proof -
  let ?h = "h\<lparr>cells := (cells h)(a := None)\<rparr>"
  obtain c where c: "cells h a = Some c" using heap_okD(7) [OF assms(1), of a "{#}"] by auto
  have fin: "finite (dom (cells h))" by (rule heap_okD(1) [OF assms(1)])
  have "refs M R ?h + kids c = refs M R h" using refs_free [OF fin c, of M R] assms(2) by simp
  moreover have "refs (M(a \<mapsto> {#})) R h + kids c = refs M R h"
    using refs_mask [OF fin c, of M "{#}" R] assms(2) by simp
  ultimately show r: "refs M R ?h = refs (M(a \<mapsto> {#})) R h" by (metis add_right_cancel)
  show "heap_ok n M R ?h"
    unfolding heap_ok_def r
  proof (intro conjI allI impI)
    show "dom M \<subseteq> dom (cells ?h)" using heap_okD(7) [OF assms(1)] assms(2) by (fastforce simp: dom_def)
    show "set_mset (refs (M(a \<mapsto> {#})) R h) \<subseteq> dom (cells ?h)"
    proof
      fix x assume x: "x \<in># refs (M(a \<mapsto> {#})) R h"
      with assms(3) have "x \<noteq> a" by auto
      with heap_okD(5) [OF assms(1) x] show "x \<in> dom (cells ?h)" by auto
    qed
  qed (use heap_okD [OF assms(1)] in \<open>auto split: if_splits\<close>)
qed

text \<open>Dropping a pointer: the counts stay exact, only counts change in the nodes that stay, and no node
  is touched after it was freed.\<close>

lemma Decref_ok:
  assumes "heap_ok n M (add_mset a R) h" "pinned M R (refs M (add_mset a R) h)"
  shows "wp (Decref k (Some a)) (\<lambda>_ h'. heap_ok n M R h' \<and> counts_only h h'
    \<and> refs M R h' \<subseteq># refs M (add_mset a R) h) h"
  using assms
proof (induction k arbitrary: a M R h)
  case (Suc k)
  obtain c where c: "cells h a = Some c" using heap_ok_live [OF Suc.prems(1), of a] by auto
  let ?h1 = "h\<lparr>cells := (cells h)(a \<mapsto> c\<lparr>refcount := refcount c - 1\<rparr>)\<rparr>"
  let ?M = "M(a \<mapsto> {#})"
  have co1: "counts_only h ?h1"
    using c by (auto simp: counts_only_def)
  have fin: "finite (dom (cells h))" by (rule heap_okD(1) [OF Suc.prems(1)])
  show ?case
  proof (cases "1 < refcount c")
    case True
    have "refs M R ?h1 = refs M R h" by (rule refs_same_kids [OF fin c]) (simp add: kids_def)
    then show ?thesis
      using heap_ok_Decref_shared [OF Suc.prems(1) c True] co1 True
      by (simp add: wp_cell_at [OF c] wp_modify_cell [OF c])
  next
    case False
    note last = heap_ok_Decref_last [OF Suc.prems(1) c False Suc.prems(2)]
    define I where "I ys h' \<longleftrightarrow> heap_ok n ?M (R + mset ys) h' \<and> counts_only h h'
      \<and> refs ?M (R + mset ys) h' \<subseteq># refs M R h" for ys h'
    have notin: "a \<notin># refs M R h" using last(3) unfolding last(4) .
    have "wp (for_each (\<lambda>child. Decref k (Some child)) (children (payload c))) (\<lambda>_. I []) ?h1"
    proof (rule wp_for_each [where I = I])
      show "I (children (payload c)) ?h1"
        using last(1,4) co1 by (simp add: I_def kids_def)
    next
      fix y ys h' assume "I (y # ys) h'"
      then have i: "heap_ok n ?M (add_mset y (R + mset ys)) h'" "counts_only h h'"
        "refs ?M (add_mset y (R + mset ys)) h' \<subseteq># refs M R h"
        by (simp_all add: I_def)
      have "pinned ?M (R + mset ys) (refs ?M (add_mset y (R + mset ys)) h')"
      proof -
        have "pinned ?M R (refs M R h)"
          using Suc.prems(2) notin unfolding pinned_def by auto
        then show ?thesis by (rule pinned_mono [OF _ i(3)]) simp
      qed
      from Suc.IH [OF i(1) this] show "wp (Decref k (Some y)) (\<lambda>_. I ys) h'"
        unfolding I_def
        by (rule wp_mono) (meson i(2,3) counts_only_trans subset_mset.order_trans)
    qed
    then have "wp (for_each (\<lambda>child. Decref k (Some child)) (children (payload c)))
      (\<lambda>_. wp (free_node a) (\<lambda>_ h'. heap_ok n M R h' \<and> counts_only h h'
          \<and> refs M R h' \<subseteq># refs M (add_mset a R) h)) ?h1"
    proof (rule wp_mono)
      fix x h' assume "I [] h'"
      then have i: "heap_ok n ?M R h'" "counts_only h h'" "refs ?M R h' \<subseteq># refs M R h"
        by (simp_all add: I_def)
      have "a \<notin># refs ?M R h'" using i(3) notin by (meson mset_subset_eqD)
      note f = heap_ok_free [OF i(1) last(2) this]
      obtain c' where c': "cells h' a = Some c'" using heap_okD(7) [OF i(1), of a "{#}"] by auto
      have "counts_only h (h'\<lparr>cells := (cells h')(a := None)\<rparr>)"
        using i(2) by (simp add: counts_only_def)
      then show "wp (free_node a) (\<lambda>_ h'. heap_ok n M R h' \<and> counts_only h h'
          \<and> refs M R h' \<subseteq># refs M (add_mset a R) h) h'"
        using f i(3) unfolding wp_free_node [OF c'] by (auto intro: subset_mset.order_trans)
    qed
    then show ?thesis using False by (simp add: wp_cell_at [OF c] wp_modify_cell [OF c])
  qed
qed simp

text \<open>The recursion is never deeper than there are nodes, so that with enough stack it ends.\<close>

lemma Decref_returns:
  assumes "heap_ok n M (add_mset a R) h" "pinned M R (refs M (add_mset a R) h)"
    "card (dom (cells h) - dom M) < k"
  shows "\<exists>h'. Decref k (Some a) h = Done ((), h')"
  using assms
proof (induction k arbitrary: a M R h)
  case (Suc k)
  obtain c where c: "cells h a = Some c" using heap_ok_live [OF Suc.prems(1), of a] by auto
  let ?h1 = "h\<lparr>cells := (cells h)(a \<mapsto> c\<lparr>refcount := refcount c - 1\<rparr>)\<rparr>"
  let ?M = "M(a \<mapsto> {#})"
  have fin: "finite (dom (cells h))" by (rule heap_okD(1) [OF Suc.prems(1)])
  have step: "Decref (Suc k) (Some a) h =
    (if 1 < refcount c then Done ((), ?h1)
     else seq (for_each (\<lambda>child. Decref k (Some child)) (children (payload c))) (\<lambda>_. free_node a) ?h1)"
    using c by (simp add: seq_def cell_at_def modify_cell_def)
  show ?case
  proof (cases "1 < refcount c")
    case False
    note last = heap_ok_Decref_last [OF Suc.prems(1) c False Suc.prems(2)]
    have notin: "a \<notin># refs M R h" using last(3) unfolding last(4) .
    have pin: "pinned ?M R (refs M R h)" using Suc.prems(2) notin unfolding pinned_def by auto
    have small: "card (dom (cells h) - dom ?M) < k"
    proof -
      have "dom (cells h) - dom ?M = (dom (cells h) - dom M) - {a}" by auto
      moreover have "a \<in> dom (cells h) - dom M" using c last(2) by auto
      ultimately have "card (dom (cells h) - dom ?M) < card (dom (cells h) - dom M)"
        using fin by (metis card_Diff1_less finite_Diff)
      then show ?thesis using Suc.prems(3) by simp
    qed
    have "\<exists>h''. for_each (\<lambda>child. Decref k (Some child)) ys h' = Done ((), h'') \<and> heap_ok n ?M R h''"
      if "heap_ok n ?M (R + mset ys) h'" "counts_only h h'" "refs ?M (R + mset ys) h' \<subseteq># refs M R h" for ys h'
      using that
    proof (induction ys arbitrary: h')
      case (Cons y ys)
      have e: "R + mset (y # ys) = add_mset y (R + mset ys)" by simp
      note i = Cons.prems(1,3) [unfolded e]
      have p: "pinned ?M (R + mset ys) (refs ?M (add_mset y (R + mset ys)) h')"
        by (rule pinned_mono [OF pin i(2)]) simp
      have "dom (cells h') \<subseteq> dom (cells h)"
        using Cons.prems(2) by (auto simp: counts_only_def dom_def)
      then have "card (dom (cells h') - dom ?M) \<le> card (dom (cells h) - dom ?M)"
        using fin by (intro card_mono) auto
      with small have "card (dom (cells h') - dom ?M) < k" by linarith
      from Suc.IH [OF i(1) p this] obtain h2 where h2: "Decref k (Some y) h' = Done ((), h2)" by blast
      from wp_DoneD [OF Decref_ok [OF i(1) p] h2]
      have "heap_ok n ?M (R + mset ys) h2" "counts_only h h2" "refs ?M (R + mset ys) h2 \<subseteq># refs M R h"
        using Cons.prems(2) i(2) by (meson counts_only_trans subset_mset.order_trans)+
      from Cons.IH [OF this] h2 show ?case by auto
    qed auto
    moreover have "counts_only h ?h1" using c by (auto simp: counts_only_def)
    ultimately obtain h2 where h2: "for_each (\<lambda>child. Decref k (Some child)) (children (payload c)) ?h1 = Done ((), h2)"
      "heap_ok n ?M R h2"
      using last(1,4) by (metis kids_def subset_mset.order_refl)
    moreover obtain c' where "cells h2 a = Some c'" using heap_okD(7) [OF h2(2), of a "{#}"] by auto
    ultimately show ?thesis using False unfolding step by (auto simp: seq_def free_node_def)
  qed (simp add: step del: Decref.simps)
qed simp

text \<open>An array with one number.\<close>

definition sample_heap :: Heap where
  "sample_heap = \<lparr>cells = [0 \<mapsto> \<lparr>version = 0, refcount = 1, payload = IntV 5, epoch = 0\<rparr>,
     1 \<mapsto> \<lparr>version = 0, refcount = 1, payload = ArrayV [0], epoch = 0\<rparr>], next_addr = 2\<rparr>"

lemma sample_heap_ok: "heap_ok 5 Map.empty {#1#} sample_heap"
proof -
  have d: "dom (cells sample_heap) = {0, 1}" by (auto simp: sample_heap_def split: if_splits)
  have r: "refs Map.empty {#1#} sample_heap = {#0, 1#}"
    unfolding refs_def d by (simp add: sample_heap_def kids_def)
  show ?thesis unfolding heap_ok_def r d by (auto simp: sample_heap_def split: if_splits)
qed

text \<open>C14: Dropping a pointer ends, when the stack has a frame for each node: afterwards the
  count of each node is again the number of pointers to it, the nodes without pointers are gone and
  the others hold what they held.\<close>

theorem Decref_counts:
  assumes "heap_ok n Map.empty (add_mset a R) h" "card (dom (cells h)) < k"
  shows "\<exists>h'. Decref k (Some a) h = Done ((), h') \<and> heap_ok n Map.empty R h' \<and> counts_only h h'"
proof -
  have p: "pinned Map.empty R (refs Map.empty (add_mset a R) h)" by (simp add: pinned_def)
  from Decref_returns [OF assms(1) p] assms(2)
  obtain h' where h': "Decref k (Some a) h = Done ((), h')" by auto
  from wp_DoneD [OF Decref_ok [OF assms(1) p] h'] h' show ?thesis by blast
qed

theorem Decref_counts_witness:
  "\<exists>h'. Decref 3 (Some 1) sample_heap = Done ((), h') \<and> heap_ok 5 Map.empty {#} h' \<and> counts_only sample_heap h'"
proof (rule Decref_counts [OF sample_heap_ok])
  have "dom (cells sample_heap) = {0, 1}" by (auto simp: sample_heap_def split: if_splits)
  then show "card (dom (cells sample_heap)) < 3" by simp
qed

end
