(* ===== verification/Heap_Ops.thy ===== *)
theory Heap_Ops
  imports Heap_Counts
begin

text \<open>
  The operations on containers and the reference counts: each of them takes the pointers it is given,
  drops the ones it replaces, and leaves every count exact.  What objects and integer maps have in
  common is proved once, for an interface that both implement.
\<close>

abbreviation counted :: "nat \<Rightarrow> addr multiset \<Rightarrow> Heap \<Rightarrow> bool" where
  "counted n R h \<equiv> heap_ok n Map.empty R h"

section \<open>What an operation leaves alone\<close>

text \<open>Nodes that stay hold what they held.\<close>

definition same_node :: "Cell \<Rightarrow> Cell \<Rightarrow> bool" where
  "same_node c c' \<longleftrightarrow> payload c' = payload c \<and> version c' = version c \<and> epoch c' = epoch c"

lemma same_node_refl [simp]: "same_node c c"
  by (simp add: same_node_def)

text \<open>At most the node \<open>a\<close> changes, and not its type; nodes may go and new ones appear.\<close>

definition touches :: "addr \<Rightarrow> Heap \<Rightarrow> Heap \<Rightarrow> bool" where
  "touches a h h' \<longleftrightarrow> next_addr h \<le> next_addr h'
     \<and> (\<forall>x c'. x < next_addr h \<longrightarrow> cells h' x = Some c' \<longrightarrow>
          (\<exists>c. cells h x = Some c \<and> (x \<noteq> a \<longrightarrow> same_node c c')
             \<and> type_of (payload c') = type_of (payload c)))"

text \<open>Nodes keep their types.\<close>

definition evolves :: "Heap \<Rightarrow> Heap \<Rightarrow> bool" where
  "evolves h h' \<longleftrightarrow> next_addr h \<le> next_addr h'
     \<and> (\<forall>x c'. x < next_addr h \<longrightarrow> cells h' x = Some c' \<longrightarrow>
          (\<exists>c. cells h x = Some c \<and> type_of (payload c') = type_of (payload c)))"

text \<open>All nodes that were there are there unchanged.\<close>

definition extends :: "Heap \<Rightarrow> Heap \<Rightarrow> bool" where
  "extends h h' \<longleftrightarrow> next_addr h \<le> next_addr h' \<and> (\<forall>x < next_addr h. cells h' x = cells h x)"

lemma touches_refl [simp]: "touches a h h"
  by (simp add: touches_def)

lemma touches_trans:
  assumes "touches a h h1" "touches a h1 h2"
  shows "touches a h h2"
  unfolding touches_def
proof (intro conjI allI impI)
  show "next_addr h \<le> next_addr h2" using assms by (auto simp: touches_def)
  fix x c2 assume x: "x < next_addr h" "cells h2 x = Some c2"
  then have "x < next_addr h1" using assms(1) by (simp add: touches_def)
  with assms(2) x(2) obtain c1 where "cells h1 x = Some c1" "x \<noteq> a \<longrightarrow> same_node c1 c2"
    "type_of (payload c2) = type_of (payload c1)" unfolding touches_def by blast
  moreover from this(1) assms(1) x(1) obtain c where "cells h x = Some c" "x \<noteq> a \<longrightarrow> same_node c c1"
    "type_of (payload c1) = type_of (payload c)" unfolding touches_def by blast
  ultimately show "\<exists>c. cells h x = Some c \<and> (x \<noteq> a \<longrightarrow> same_node c c2)
      \<and> type_of (payload c2) = type_of (payload c)" by (auto simp: same_node_def)
qed

lemma extends_refl [simp]: "extends h h"
  by (simp add: extends_def)

lemma extends_trans: "extends h h1 \<Longrightarrow> extends h1 h2 \<Longrightarrow> extends h h2"
  unfolding extends_def by auto

lemma extends_touches: "extends h h' \<Longrightarrow> touches a h h'"
  by (auto simp: extends_def touches_def)

lemma counts_only_touches: "counts_only h h' \<Longrightarrow> touches a h h'"
  unfolding counts_only_def touches_def same_node_def by fastforce

lemma touches_update:
  "cells h a = Some c \<Longrightarrow> type_of (payload c') = type_of (payload c) \<Longrightarrow>
    touches a h (h\<lparr>cells := (cells h)(a \<mapsto> c')\<rparr>)"
  by (simp add: touches_def)

lemma touches_evolves: "touches a h h' \<Longrightarrow> evolves h h'"
  unfolding touches_def evolves_def by blast

lemma evolves_refl [simp]: "evolves h h"
  by (simp add: evolves_def)

lemma evolves_trans:
  assumes "evolves h h1" "evolves h1 h2"
  shows "evolves h h2"
  unfolding evolves_def
proof (intro conjI allI impI)
  show "next_addr h \<le> next_addr h2" using assms by (auto simp: evolves_def)
  fix x c2 assume x: "x < next_addr h" "cells h2 x = Some c2"
  then have "x < next_addr h1" using assms(1) by (simp add: evolves_def)
  with assms(2) x(2) obtain c1 where "cells h1 x = Some c1"
    "type_of (payload c2) = type_of (payload c1)" unfolding evolves_def by blast
  with assms(1) x(1) show "\<exists>c. cells h x = Some c \<and> type_of (payload c2) = type_of (payload c)"
    unfolding evolves_def by fastforce
qed

lemma touches_cell:
  "touches a h h' \<Longrightarrow> x < next_addr h \<Longrightarrow> x \<noteq> a \<Longrightarrow> cells h' x = Some c' \<Longrightarrow>
    \<exists>c. cells h x = Some c \<and> same_node c c'"
  unfolding touches_def by blast

section \<open>Dropping pointers\<close>

lemma drop_ok:
  assumes "counted n (add_mset a R) h"
  shows "wp (Decref k (Some a)) (\<lambda>_ h'. counted n R h' \<and> counts_only h h') h"
  by (rule wp_mono [OF Decref_ok [OF assms]]) (auto simp: pinned_def)

lemma drop_touches:
  assumes "counted n (add_mset a R) h"
  shows "wp (Decref k (Some a)) (\<lambda>_ h'. counted n R h' \<and> touches this h h') h"
  by (rule wp_mono [OF drop_ok [OF assms]]) (auto intro: counts_only_touches)

text \<open>A node that is held from outside gives up some of the nodes it owns: it is still there, with the
  payload it had, and owns the rest.\<close>

lemma drop_children:
  assumes "counted n R h" "this \<in># R" "cells h this = Some c" "kids c = K + mset olds"
  shows "wp (for_each (\<lambda>x. Decref k (Some x)) olds) (\<lambda>_ h'.
    heap_ok n [this \<mapsto> K] R h' \<and> counts_only h h'
    \<and> (\<exists>c'. cells h' this = Some c' \<and> same_node c c')) h"
proof (rule wp_for_each [where I = "\<lambda>ys h'. heap_ok n [this \<mapsto> K] (R + mset ys) h' \<and> counts_only h h'"])
  show "heap_ok n [this \<mapsto> K] (R + mset olds) h \<and> counts_only h h"
    using heap_ok_mask [OF assms(1,3) _ assms(4)] by simp
next
  fix y ys h' assume i: "heap_ok n [this \<mapsto> K] (R + mset (y # ys)) h' \<and> counts_only h h'"
  then have "heap_ok n [this \<mapsto> K] (add_mset y (R + mset ys)) h'" by simp
  from Decref_ok [OF this] show "wp (Decref k (Some y))
      (\<lambda>_ h'. heap_ok n [this \<mapsto> K] (R + mset ys) h' \<and> counts_only h h') h'"
    by (rule wp_mono) (use i assms(2) in \<open>auto simp: pinned_def intro: counts_only_trans\<close>)
next
  fix h' assume i: "heap_ok n [this \<mapsto> K] (R + mset []) h' \<and> counts_only h h'"
  then obtain c' where c': "cells h' this = Some c'"
    using heap_okD(7) [of n "[this \<mapsto> K]" R h' this K] by auto
  with i assms(3) counts_only_payload [of h h' this c'] have "same_node c c'" by (auto simp: same_node_def)
  with i c' show "heap_ok n [this \<mapsto> K] R h' \<and> counts_only h h'
      \<and> (\<exists>c'. cells h' this = Some c' \<and> same_node c c')" by simp
qed

lemma drop_child:
  assumes "counted n R h" "this \<in># R" "cells h this = Some c" "kids c = add_mset old K"
  shows "wp (Decref k (Some old)) (\<lambda>_ h'. heap_ok n [this \<mapsto> K] R h' \<and> counts_only h h'
    \<and> (\<exists>c'. cells h' this = Some c' \<and> same_node c c')) h"
  using drop_children [OF assms(1-3), of K "[old]" k] assms(4) by simp

section \<open>Members of a node, in place\<close>

lemma unmask_ok:
  assumes "heap_ok n [this \<mapsto> K] (R + I) h" "this \<in># R" "cells h this = Some c" "payload_ok (payload c')"
    "refcount c' = refcount c" "kids c' + J = K + I"
  shows "counted n (R + J) (h\<lparr>cells := (cells h)(this \<mapsto> c')\<rparr>)"
  using heap_ok_unmask [where M = Map.empty, OF assms(1,3) _ assms(4,5,6,2)] by simp

lemma wp_bump:
  assumes "heap_ok n M R h" "cells h this = Some c"
    "\<And>h'. heap_ok n M R h' \<Longrightarrow> h' = h\<lparr>cells := (cells h)(this \<mapsto> c\<lparr>version := version c + 1\<rparr>)\<rparr> \<Longrightarrow> Q () h'"
  shows "wp (bump_version this) Q h"
proof -
  let ?h = "h\<lparr>cells := (cells h)(this \<mapsto> c\<lparr>version := version c + 1\<rparr>)\<rparr>"
  have r: "refs M R ?h = refs M R h"
    by (rule refs_same_kids [OF heap_okD(1) [OF assms(1)] assms(2)]) (simp add: kids_def)
  have "heap_ok n M R ?h"
    by (rule heap_ok_same_refs [OF assms(1) r])
      (use assms(2) heap_okD(4,8) [OF assms(1)] in \<open>auto split: if_splits\<close>)
  then show ?thesis unfolding bump_version_def wp_modify_cell [OF assms(2)] by (rule assms(3)) simp
qed

lemma arr_push_back_ok:
  assumes "heap_ok n M (add_mset v R) h" "cells h this = Some c" "payload c = ArrayV xs" "M this = None"
  shows "wp (arr_push_back this v) (\<lambda>_ h'. heap_ok n M R h'
    \<and> h' = h\<lparr>cells := (cells h)(this \<mapsto> c\<lparr>payload := ArrayV (xs @ [v])\<rparr>)\<rparr>) h"
proof -
  let ?c = "c\<lparr>payload := ArrayV (xs @ [v])\<rparr>"
  have "heap_ok n M (R + {#v#}) h" using assms(1) by simp
  from heap_ok_payload [OF this assms(2,4), of ?c "{#}"] assms(3)
  have "heap_ok n M R (h\<lparr>cells := (cells h)(this \<mapsto> ?c)\<rparr>)" by (simp add: kids_def)
  then show ?thesis using assms(3)
    by (simp add: arr_push_back_def wp_cell_at [OF assms(2)] wp_modify_cell [OF assms(2)])
qed

lemma map_put_update: "map_of m key = Some old \<Longrightarrow> map_put lay key v m = AList.update key v m"
  unfolding map_put_def by (metis map_of_eq_None_iff option.distinct(1))

section \<open>The interface of a map member\<close>

locale node_map =
  fixes con :: "('k \<times> addr) list \<Rightarrow> payload"
    and lay :: "layouts \<Rightarrow> 'k list \<Rightarrow> 'k list"
    and fnd :: "addr \<Rightarrow> 'k \<Rightarrow> addr option node_act"
    and asg :: "addr \<Rightarrow> 'k \<Rightarrow> addr \<Rightarrow> unit node_act"
    and emp :: "layouts \<Rightarrow> addr \<Rightarrow> 'k \<Rightarrow> addr \<Rightarrow> unit node_act"
    and ins :: "nat \<Rightarrow> layouts \<Rightarrow> addr \<Rightarrow> 'k \<Rightarrow> addr \<Rightarrow> unit node_act"
    and ers :: "layouts \<Rightarrow> addr \<Rightarrow> 'k \<Rightarrow> unit node_act"
    and del :: "nat \<Rightarrow> layouts \<Rightarrow> addr \<Rightarrow> 'k \<Rightarrow> bool node_act"
    and clr :: "nat \<Rightarrow> addr \<Rightarrow> unit node_act"
  assumes con_eq: "con m = con m' \<longleftrightarrow> m = m'"
    and con_children: "children (con m) = map snd m"
    and con_ok: "payload_ok (con m) \<longleftrightarrow> distinct (map fst m)"
    and con_type: "type_of p = type_of (con []) \<longleftrightarrow> (\<exists>m. p = con m)"
    and lay_ok: "layouts_ok L \<Longrightarrow> layout_ok (lay L)"
    and fnd_con: "cells h a = Some c \<Longrightarrow> payload c = con m \<Longrightarrow> fnd a key h = Done (map_of m key, h)"
    and fnd_other: "cells h a = Some c \<Longrightarrow> (\<forall>m. payload c \<noteq> con m) \<Longrightarrow> fnd a key h = Done (None, h)"
    and asg_con: "cells h a = Some c \<Longrightarrow> payload c = con m \<Longrightarrow>
      asg a key v h = Done ((), h\<lparr>cells := (cells h)(a \<mapsto> c\<lparr>payload := con (AList.update key v m)\<rparr>)\<rparr>)"
    and emp_con: "cells h a = Some c \<Longrightarrow> payload c = con m \<Longrightarrow> map_of m key = None \<Longrightarrow>
      emp L a key v h = Done ((), h\<lparr>cells := (cells h)(a \<mapsto>
        c\<lparr>payload := con (map_put (lay L) key v m), epoch := Suc (epoch c)\<rparr>)\<rparr>)"
    and emp_old: "cells h a = Some c \<Longrightarrow> payload c = con m \<Longrightarrow> map_of m key \<noteq> None \<Longrightarrow>
      emp L a key v h = Done ((), h)"
    and ins_con: "cells h a = Some c \<Longrightarrow> payload c = con m \<Longrightarrow>
      ins k L a key v h = seq (bump_version a) (\<lambda>_. case map_of m key of
         None \<Rightarrow> emp L a key v
       | Some old \<Rightarrow> seq (Decref k (Some old)) (\<lambda>_. asg a key v)) h"
    and ins_other: "cells h a = Some c \<Longrightarrow> (\<forall>m. payload c \<noteq> con m) \<Longrightarrow>
      ins k L a key v h = Decref k (Some v) h"
    and ers_con: "cells h a = Some c \<Longrightarrow> payload c = con m \<Longrightarrow>
      ers L a key h = Done ((), h\<lparr>cells := (cells h)(a \<mapsto>
        c\<lparr>payload := con (map_del (lay L) key m), epoch := Suc (epoch c)\<rparr>)\<rparr>)"
    and del_con: "cells h a = Some c \<Longrightarrow> payload c = con m \<Longrightarrow>
      del k L a key h = (case map_of m key of None \<Rightarrow> ret False
       | Some old \<Rightarrow> seq (bump_version a) (\<lambda>_. seq (Decref k (Some old)) (\<lambda>_. seq (ers L a key) (\<lambda>_. ret True)))) h"
    and del_other: "cells h a = Some c \<Longrightarrow> (\<forall>m. payload c \<noteq> con m) \<Longrightarrow> del k L a key h = Done (False, h)"
    and clr_con: "cells h a = Some c \<Longrightarrow> payload c = con m \<Longrightarrow>
      clr k a h = seq (bump_version a) (\<lambda>_. seq (for_each (\<lambda>x. Decref k (Some x)) (map snd m)) (\<lambda>_.
        modify_cell a (\<lambda>c. c\<lparr>payload := con [], epoch := Suc (epoch c)\<rparr>))) h"
    and clr_other: "cells h a = Some c \<Longrightarrow> (\<forall>m. payload c \<noteq> con m) \<Longrightarrow> clr k a h = Done ((), h)"
begin

lemma kids_con: "payload c = con m \<Longrightarrow> kids c = mset (map snd m)"
  by (simp add: kids_def con_children)

lemma con_distinct: "heap_ok n M R h \<Longrightarrow> cells h a = Some c \<Longrightarrow> payload c = con m \<Longrightarrow> distinct (map fst m)"
  using heap_okD(4) [of n M R h a c] by (simp add: con_ok)

lemma con_types: "type_of (con m) = type_of (con m')"
  using con_type by metis

text \<open>A new entry takes a pointer from outside.\<close>

lemma emp_ok:
  assumes "heap_ok n M (add_mset v R) h" "cells h this = Some c" "payload c = con m" "M this = None"
    "map_of m key = None" "layouts_ok L"
  shows "wp (emp L this key v) (\<lambda>_ h'. heap_ok n M R h' \<and> h' = h\<lparr>cells := (cells h)(this \<mapsto>
    c\<lparr>payload := con (map_put (lay L) key v m), epoch := Suc (epoch c)\<rparr>)\<rparr>) h"
proof -
  let ?c = "c\<lparr>payload := con (map_put (lay L) key v m), epoch := Suc (epoch c)\<rparr>"
  note d = con_distinct [OF assms(1-3)]
  have "heap_ok n M (R + {#v#}) h" using assms(1) by simp
  from heap_ok_payload [OF this assms(2,4), of ?c "{#}"] assms(3,5)
    values_put [OF lay_ok [OF assms(6)] d assms(5), of v] map_put_distinct [OF lay_ok [OF assms(6)] d]
  have "heap_ok n M R (h\<lparr>cells := (cells h)(this \<mapsto> ?c)\<rparr>)"
    by (simp add: kids_def con_children con_ok)
  then show ?thesis by (simp add: wp_def emp_con [OF assms(2,3,5)])
qed

text \<open>The assignment to an entry whose old pointer was dropped.\<close>

lemma asg_ok:
  assumes "heap_ok n [this \<mapsto> K] (add_mset v R) h" "this \<in># R" "cells h this = Some c" "payload c = con m"
    "map_of m key = Some old" "mset (map snd m) = add_mset old K"
  shows "wp (asg this key v) (\<lambda>_ h'. counted n R h' \<and> h' = h\<lparr>cells := (cells h)(this \<mapsto>
    c\<lparr>payload := con (AList.update key v m)\<rparr>)\<rparr>) h"
proof -
  let ?c = "c\<lparr>payload := con (AList.update key v m)\<rparr>"
  note d = con_distinct [OF assms(1,3,4)]
  have "heap_ok n [this \<mapsto> K] (R + {#v#}) h" using assms(1) by simp
  moreover have "kids ?c = add_mset v K"
    using values_update [OF assms(5), of v] assms(6) by (simp add: kids_def con_children)
  ultimately have "counted n R (h\<lparr>cells := (cells h)(this \<mapsto> ?c)\<rparr>)"
    using unmask_ok [of n this K R "{#v#}" h c ?c "{#}"] assms(2,3) d
    by (simp add: con_ok distinct_update)
  then show ?thesis by (simp add: wp_def asg_con [OF assms(3,4)])
qed

lemma put_new_ok:
  assumes "counted n (add_mset v R) h" "cells h this = Some c" "payload c = con m" "map_of m key = None"
    "layouts_ok L"
  shows "wp (emp L this key v) (\<lambda>_ h'. counted n R h' \<and> touches this h h' \<and> (\<exists>c'. cells h' this = Some c'
    \<and> same_node (c\<lparr>payload := con (map_put (lay L) key v m), epoch := Suc (epoch c)\<rparr>) c')) h"
  using emp_ok [OF assms(1-3) _ assms(4,5)]
  by (rule wp_mono) (use assms(3) in \<open>auto intro!: touches_update [OF assms(2)] con_types\<close>)

lemma put_old_ok:
  assumes "counted n (add_mset v R) h" "this \<in># R" "cells h this = Some c" "payload c = con m"
    "map_of m key = Some old"
  shows "wp (Decref k (Some old)) (\<lambda>_. wp (asg this key v) (\<lambda>_ h'. counted n R h' \<and> touches this h h'
    \<and> (\<exists>c'. cells h' this = Some c' \<and> same_node (c\<lparr>payload := con (AList.update key v m)\<rparr>) c'))) h"
proof -
  let ?K = "mset (map snd m) - {#old#}"
  have kids: "kids c = add_mset old ?K" unfolding kids_con [OF assms(4)] by (rule values_has [OF assms(5)])
  have "wp (Decref k (Some old)) (\<lambda>_ h'. heap_ok n [this \<mapsto> ?K] (add_mset v R) h'
      \<and> counts_only h h' \<and> (\<exists>c'. cells h' this = Some c' \<and> same_node c c')) h"
    by (rule drop_child [OF assms(1) _ assms(3) kids]) (use assms(2) in simp)
  then show ?thesis
  proof (rule wp_mono)
    fix x h2
    assume "heap_ok n [this \<mapsto> ?K] (add_mset v R) h2 \<and> counts_only h h2
      \<and> (\<exists>c'. cells h2 this = Some c' \<and> same_node c c')"
    then obtain c2 where i: "heap_ok n [this \<mapsto> ?K] (add_mset v R) h2"
      "counts_only h h2" "cells h2 this = Some c2" "same_node c c2" by blast
    have m2: "payload c2 = con m" using i(4) assms(4) by (simp add: same_node_def)
    have "touches this h2 (h2\<lparr>cells := (cells h2)(this \<mapsto> c2\<lparr>payload := con (AList.update key v m)\<rparr>)\<rparr>)"
      by (rule touches_update [OF i(3)]) (use con_types m2 in simp)
    with counts_only_touches [OF i(2), of this]
    have "touches this h (h2\<lparr>cells := (cells h2)(this \<mapsto> c2\<lparr>payload := con (AList.update key v m)\<rparr>)\<rparr>)"
      by (rule touches_trans)
    with asg_ok [OF i(1) assms(2) i(3) m2 assms(5) values_has [OF assms(5)]] i(4)
    show "wp (asg this key v) (\<lambda>_ h'. counted n R h' \<and> touches this h h'
      \<and> (\<exists>c'. cells h' this = Some c' \<and> same_node (c\<lparr>payload := con (AList.update key v m)\<rparr>) c')) h2"
      by (auto elim!: wp_mono simp: same_node_def)
  qed
qed

text \<open>What the node holds after an insertion.\<close>

definition inserted :: "layouts \<Rightarrow> 'k \<Rightarrow> addr \<Rightarrow> ('k \<times> addr) list \<Rightarrow> Cell \<Rightarrow> Cell" where
  "inserted L key v m c = c\<lparr>version := version c + 1, payload := con (map_put (lay L) key v m),
     epoch := (if map_of m key = None then Suc (epoch c) else epoch c)\<rparr>"

lemma ins_ok:
  assumes "counted n (add_mset v R) h" "this \<in># R" "cells h this = Some c" "layouts_ok L"
  shows "wp (ins k L this key v) (\<lambda>_ h'. counted n R h' \<and> touches this h h'
    \<and> (\<forall>m. payload c = con m \<longrightarrow> (\<exists>c'. cells h' this = Some c' \<and> same_node (inserted L key v m c) c'))) h"
proof (cases "\<exists>m. payload c = con m")
  case False
  show ?thesis
  proof (rule wp_by [where m' = "Decref k (Some v)"])
    show "ins k L this key v h = Decref k (Some v) h" using False by (intro ins_other [OF assms(3)]) blast
  qed (rule wp_mono [OF drop_ok [OF assms(1)]], use False in \<open>auto intro: counts_only_touches\<close>)
next
  case True
  then obtain m where m: "payload c = con m" ..
  have only: "(\<forall>m'. payload c = con m' \<longrightarrow> P m') \<longleftrightarrow> P m" for P using m con_eq by auto
  let ?c = "c\<lparr>version := version c + 1\<rparr>"
  let ?put = "case map_of m key of
         None \<Rightarrow> emp L this key v
       | Some old \<Rightarrow> seq (Decref k (Some old)) (\<lambda>_. asg this key v)"
  let ?Q = "\<lambda>_ h'. counted n R h' \<and> touches this h h'
    \<and> (\<exists>c'. cells h' this = Some c' \<and> same_node (inserted L key v m c) c')"
  have "wp (bump_version this) (\<lambda>_. wp ?put ?Q) h"
  proof (rule wp_bump [OF assms(1,3)])
    fix h1 assume h1: "counted n (add_mset v R) h1" "h1 = h\<lparr>cells := (cells h)(this \<mapsto> ?c)\<rparr>"
    have c1: "cells h1 this = Some ?c" "payload ?c = con m" by (simp_all add: m h1(2))
    have "touches this h h1" unfolding h1(2) by (rule touches_update [OF assms(3)]) simp
    then have t: "touches this h1 h' \<Longrightarrow> touches this h h'" for h' using touches_trans by blast
    show "wp ?put ?Q h1"
    proof (cases "map_of m key")
      case None
      with put_new_ok [OF h1(1) c1 None assms(4)] show ?thesis
        by (auto elim!: wp_mono simp: inserted_def intro: t)
    next
      case (Some old)
      with put_old_ok [OF h1(1) assms(2) c1 Some, of k] show ?thesis
        by (auto elim!: wp_mono simp: inserted_def map_put_update intro: t)
    qed
  qed
  then have "wp (seq (bump_version this) (\<lambda>_. ?put)) ?Q h" by simp
  then show ?thesis unfolding only by (simp add: wp_def ins_con [OF assms(3) m] del: wp_seq)
qed

text \<open>Without the change of the count: an insertion under a new key into a node nobody else can see.\<close>

lemma ins_new:
  assumes "cells h this = Some c" "payload c = con m" "map_of m key = None"
  shows "ins k L this key v h = Done ((), h\<lparr>cells := (cells h)(this \<mapsto> inserted L key v m c)\<rparr>)"
proof -
  let ?h = "h\<lparr>cells := (cells h)(this \<mapsto> c\<lparr>version := version c + 1\<rparr>)\<rparr>"
  have "bump_version this h = Done ((), ?h)" using assms(1) by (simp add: bump_version_def modify_cell_def)
  moreover have "emp L this key v ?h = Done ((), h\<lparr>cells := (cells h)(this \<mapsto> inserted L key v m c)\<rparr>)"
    using emp_con [of ?h this "c\<lparr>version := version c + 1\<rparr>" m key L v] assms(2,3)
    by (simp add: inserted_def)
  ultimately show ?thesis unfolding ins_con [OF assms(1,2)] using assms(3) by (simp add: seq_def)
qed

lemma heap_ok_inserted:
  assumes "heap_ok n M (add_mset v R) h" "cells h this = Some c" "payload c = con m" "M this = None"
    "map_of m key = None" "layouts_ok L"
  shows "heap_ok n M R (h\<lparr>cells := (cells h)(this \<mapsto> inserted L key v m c)\<rparr>)"
proof -
  note d = con_distinct [OF assms(1-3)]
  have "heap_ok n M (R + {#v#}) h" using assms(1) by simp
  from heap_ok_payload [OF this assms(2,4), of "inserted L key v m c" "{#}"] assms(3,5)
    values_put [OF lay_ok [OF assms(6)] d assms(5), of v] map_put_distinct [OF lay_ok [OF assms(6)] d]
  show ?thesis by (simp add: kids_def con_children con_ok inserted_def)
qed

lemma del_ok:
  assumes "counted n R h" "this \<in># R" "cells h this = Some c" "layouts_ok L"
  shows "wp (del k L this key) (\<lambda>b h'. counted n R h' \<and> touches this h h'
    \<and> (\<forall>m. payload c = con m \<longrightarrow> b = (map_of m key \<noteq> None) \<and> (b \<longrightarrow> (\<exists>c'. cells h' this = Some c'
        \<and> same_node (c\<lparr>version := version c + 1, payload := con (map_del (lay L) key m), epoch := Suc (epoch c)\<rparr>) c')))) h"
proof (cases "\<exists>m old. payload c = con m \<and> map_of m key = Some old")
  case False
  then have "del k L this key h = Done (False, h)"
    using del_other [OF assms(3)] del_con [OF assms(3)]
    by (cases "\<exists>m. payload c = con m") (fastforce split: option.split)+
  with assms(1) False show ?thesis by (auto simp: wp_def)
next
  case True
  then obtain m old where m: "payload c = con m" and old: "map_of m key = Some old" by blast
  have only: "(\<forall>m'. payload c = con m' \<longrightarrow> P m') \<longleftrightarrow> P m" for P using m con_eq by auto
  let ?c = "c\<lparr>version := version c + 1\<rparr>" and ?K = "mset (map snd m) - {#old#}"
  let ?f = "\<lambda>c. c\<lparr>payload := con (map_del (lay L) key m), epoch := Suc (epoch c)\<rparr>"
  let ?Q = "\<lambda>_ h'. counted n R h' \<and> touches this h h' \<and> (\<exists>c'. cells h' this = Some c' \<and> same_node (?f ?c) c')"
  have "wp (bump_version this) (\<lambda>_. wp (Decref k (Some old)) (\<lambda>_. wp (ers L this key) ?Q)) h"
  proof (rule wp_bump [OF assms(1,3)])
    fix h1 assume h1: "counted n R h1" "h1 = h\<lparr>cells := (cells h)(this \<mapsto> ?c)\<rparr>"
    have c1: "cells h1 this = Some ?c" "payload ?c = con m" by (simp_all add: m h1(2))
    have kids: "kids ?c = add_mset old ?K" unfolding kids_con [OF c1(2)] by (rule values_has [OF old])
    show "wp (Decref k (Some old)) (\<lambda>_. wp (ers L this key) ?Q) h1"
    proof (rule wp_mono [OF drop_child [OF h1(1) assms(2) c1(1) kids]])
      fix x h2
      assume "heap_ok n [this \<mapsto> ?K] R h2 \<and> counts_only h1 h2 \<and> (\<exists>c'. cells h2 this = Some c' \<and> same_node ?c c')"
      then obtain c2 where i: "heap_ok n [this \<mapsto> ?K] R h2" "counts_only h1 h2" "cells h2 this = Some c2"
        "same_node ?c c2" by blast
      have m2: "payload c2 = con m" using i(4) m by (simp add: same_node_def)
      note d = con_distinct [OF i(1,3) m2]
      have "mset (map snd (map_del (lay L) key m)) = ?K"
        using values_del [OF lay_ok [OF assms(4)] d old] by (metis add_mset_remove_trivial)
      then have "counted n R (h2\<lparr>cells := (cells h2)(this \<mapsto> ?f c2)\<rparr>)"
        using unmask_ok [of n this ?K R "{#}" h2 c2 "?f c2" "{#}"] i(1,3) assms(2)
          map_del_distinct [OF lay_ok [OF assms(4)] d]
        by (simp add: kids_def con_children con_ok)
      moreover have "touches this h h1" unfolding h1(2) by (rule touches_update [OF assms(3)]) simp
      moreover have "touches this h2 (h2\<lparr>cells := (cells h2)(this \<mapsto> ?f c2)\<rparr>)"
        by (rule touches_update [OF i(3)]) (use con_types m2 in simp)
      ultimately have "?Q () (h2\<lparr>cells := (cells h2)(this \<mapsto> ?f c2)\<rparr>)"
        using counts_only_touches [OF i(2), of this] i(4)
        by (auto simp: same_node_def intro: touches_trans)
      then show "wp (ers L this key) ?Q h2" by (simp add: wp_def ers_con [OF i(3) m2])
    qed
  qed
  note main = this
  let ?prog = "seq (bump_version this) (\<lambda>_. seq (Decref k (Some old)) (\<lambda>_.
      seq (ers L this key) (\<lambda>_. ret True)))"
  show ?thesis unfolding only
  proof (rule wp_by [where m' = ?prog])
    show "del k L this key h = ?prog h" by (simp only: del_con [OF assms(3) m] old option.case)
  qed (use main old in simp)
qed

lemma clr_ok:
  assumes "counted n R h" "this \<in># R" "cells h this = Some c"
  shows "wp (clr k this) (\<lambda>_ h'. counted n R h' \<and> touches this h h'
    \<and> (\<forall>m. payload c = con m \<longrightarrow> (\<exists>c'. cells h' this = Some c'
        \<and> same_node (c\<lparr>version := version c + 1, payload := con [], epoch := Suc (epoch c)\<rparr>) c'))) h"
proof (cases "\<exists>m. payload c = con m")
  case False
  then have "clr k this h = Done ((), h)" by (intro clr_other [OF assms(3)]) blast
  with assms(1) False show ?thesis by (auto simp: wp_def)
next
  case True
  then obtain m where m: "payload c = con m" ..
  have only: "(\<forall>m'. payload c = con m' \<longrightarrow> P m') \<longleftrightarrow> P m" for P using m con_eq by auto
  let ?c = "c\<lparr>version := version c + 1\<rparr>"
  let ?f = "\<lambda>c. c\<lparr>payload := con [], epoch := Suc (epoch c)\<rparr>"
  let ?Q = "\<lambda>_ h'. counted n R h' \<and> touches this h h' \<and> (\<exists>c'. cells h' this = Some c' \<and> same_node (?f ?c) c')"
  have "wp (bump_version this) (\<lambda>_. wp (for_each (\<lambda>x. Decref k (Some x)) (map snd m)) (\<lambda>_. wp (modify_cell this ?f) ?Q)) h"
  proof (rule wp_bump [OF assms(1,3)])
    fix h1 assume h1: "counted n R h1" "h1 = h\<lparr>cells := (cells h)(this \<mapsto> ?c)\<rparr>"
    have c1: "cells h1 this = Some ?c" "payload ?c = con m" by (simp_all add: m h1(2))
    have kids: "kids ?c = {#} + mset (map snd m)" using kids_con [OF c1(2)] by simp
    show "wp (for_each (\<lambda>x. Decref k (Some x)) (map snd m)) (\<lambda>_. wp (modify_cell this ?f) ?Q) h1"
    proof (rule wp_mono [OF drop_children [OF h1(1) assms(2) c1(1) kids]])
      fix x h2
      assume "heap_ok n [this \<mapsto> {#}] R h2 \<and> counts_only h1 h2 \<and> (\<exists>c'. cells h2 this = Some c' \<and> same_node ?c c')"
      then obtain c2 where i: "heap_ok n [this \<mapsto> {#}] R h2" "counts_only h1 h2" "cells h2 this = Some c2"
        "same_node ?c c2" by blast
      have m2: "payload c2 = con m" using i(4) m by (simp add: same_node_def)
      have "counted n R (h2\<lparr>cells := (cells h2)(this \<mapsto> ?f c2)\<rparr>)"
        using unmask_ok [of n this "{#}" R "{#}" h2 c2 "?f c2" "{#}"] i(1,3) assms(2)
        by (simp add: kids_def con_children con_ok)
      moreover have "touches this h h1" unfolding h1(2) by (rule touches_update [OF assms(3)]) simp
      moreover have "touches this h2 (h2\<lparr>cells := (cells h2)(this \<mapsto> ?f c2)\<rparr>)"
        by (rule touches_update [OF i(3)]) (use con_types m2 in simp)
      ultimately have "?Q () (h2\<lparr>cells := (cells h2)(this \<mapsto> ?f c2)\<rparr>)"
        using counts_only_touches [OF i(2), of this] i(4)
        by (auto simp: same_node_def intro: touches_trans)
      then show "wp (modify_cell this ?f) ?Q h2" by (simp add: wp_modify_cell [OF i(3)])
    qed
  qed
  then have "wp (seq (bump_version this) (\<lambda>_. seq (for_each (\<lambda>x. Decref k (Some x)) (map snd m)) (\<lambda>_.
      modify_cell this ?f))) ?Q h" by simp
  then show ?thesis unfolding only by (simp add: wp_def clr_con [OF assms(3) m] del: wp_seq)
qed

end

section \<open>Objects and integer maps\<close>

lemma for_each_values: "for_each (\<lambda>(key, val). f val) m = for_each f (map snd m)"
  by (induction m) (auto simp: case_prod_unfold)

interpretation om: node_map ObjectV str_layout ObjFind obj_assign obj_emplace ObjInsert obj_erase ObjErase ObjClear
  by unfold_locales (auto simp: layouts_ok_def ObjFind_def obj_assign_def obj_emplace_def ObjInsert_def
      ObjErase_def ObjClear_def obj_erase_def seq_def cell_at_def modify_cell_def for_each_values bump_version_def
      split: payload.splits option.splits run.splits elim!: type_of.elims)

interpretation im: node_map IntMapV int_layout IntMapFind intmap_assign intmap_emplace IntMapInsert intmap_erase IntMapErase IntMapClear
  by unfold_locales (auto simp: layouts_ok_def IntMapFind_def intmap_assign_def intmap_emplace_def IntMapInsert_def
      IntMapErase_def IntMapClear_def intmap_erase_def seq_def cell_at_def modify_cell_def for_each_values bump_version_def
      split: payload.splits option.splits run.splits elim!: type_of.elims)

section \<open>Arrays\<close>

lemma mset_nth_del: "i < length xs \<Longrightarrow> mset xs = add_mset (xs ! i) (mset (take i xs @ drop (Suc i) xs))"
  by (subst id_take_nth_drop) auto

lemma mset_list_update: "i < length xs \<Longrightarrow> mset (xs[i := v]) = add_mset v (mset (take i xs @ drop (Suc i) xs))"
  by (subst upd_conv_take_nth_drop) auto

lemma arr_modify_ok:
  assumes "heap_ok n [this \<mapsto> K] (R + I) h" "this \<in># R" "cells h this = Some c" "payload c = ArrayV xs"
    "mset (f xs) = K + I"
  shows "wp (arr_modify this f) (\<lambda>_ h'. counted n R h' \<and> touches this h h'
    \<and> (\<exists>c'. cells h' this = Some c' \<and> same_node (c\<lparr>payload := ArrayV (f xs)\<rparr>) c')) h"
proof -
  have "counted n R (h\<lparr>cells := (cells h)(this \<mapsto> c\<lparr>payload := ArrayV (f xs)\<rparr>)\<rparr>)"
    using unmask_ok [OF assms(1-3), of "c\<lparr>payload := ArrayV (f xs)\<rparr>" "{#}"] assms(5) by (simp add: kids_def)
  moreover have "touches this h (h\<lparr>cells := (cells h)(this \<mapsto> c\<lparr>payload := ArrayV (f xs)\<rparr>)\<rparr>)"
    by (rule touches_update [OF assms(3)]) (simp add: assms(4))
  ultimately show ?thesis using assms(4)
    by (simp add: arr_modify_def wp_cell_at [OF assms(3)] wp_modify_cell [OF assms(3)])
qed

text \<open>The pointers of an array that an operation drops, and the vector it writes afterwards.\<close>

lemma arr_replace_ok:
  assumes "counted n (R + I) h" "this \<in># R" "cells h this = Some c" "payload c = ArrayV xs"
    "mset xs = K + mset olds" "mset (f xs) = K + I"
  shows "wp (for_each (\<lambda>x. Decref k (Some x)) olds) (\<lambda>_. wp (arr_modify this f)
    (\<lambda>_ h'. counted n R h' \<and> touches this h h'
      \<and> (\<exists>c'. cells h' this = Some c' \<and> same_node (c\<lparr>payload := ArrayV (f xs)\<rparr>) c'))) h"
proof -
  have "kids c = K + mset olds" using assms(4,5) by (simp add: kids_def)
  then have "wp (for_each (\<lambda>x. Decref k (Some x)) olds) (\<lambda>_ h'. heap_ok n [this \<mapsto> K] (R + I) h'
      \<and> counts_only h h' \<and> (\<exists>c'. cells h' this = Some c' \<and> same_node c c')) h"
    by (intro drop_children [OF assms(1) _ assms(3)]) (use assms(2) in simp_all)
  then show ?thesis
  proof (rule wp_mono)
    fix x h2
    assume "heap_ok n [this \<mapsto> K] (R + I) h2 \<and> counts_only h h2 \<and> (\<exists>c'. cells h2 this = Some c' \<and> same_node c c')"
    then obtain c2 where i: "heap_ok n [this \<mapsto> K] (R + I) h2" "counts_only h h2" "cells h2 this = Some c2"
      "same_node c c2" by blast
    then have "payload c2 = ArrayV xs" using assms(4) by (simp add: same_node_def)
    from arr_modify_ok [where f = f, OF i(1) assms(2) i(3) this assms(6)] i(4) counts_only_touches [OF i(2), of this]
    show "wp (arr_modify this f) (\<lambda>_ h'. counted n R h' \<and> touches this h h'
        \<and> (\<exists>c'. cells h' this = Some c' \<and> same_node (c\<lparr>payload := ArrayV (f xs)\<rparr>) c')) h2"
      by (auto elim!: wp_mono simp: same_node_def intro: touches_trans)
  qed
qed

lemma ArrRemove_ok:
  assumes "counted n R h" "this \<in># R" "cells h this = Some c"
  shows "wp (ArrRemove k this i) (\<lambda>b h'. counted n R h' \<and> touches this h h'
    \<and> (\<forall>xs. payload c = ArrayV xs \<longrightarrow> b = (i < length xs) \<and> (b \<longrightarrow> (\<exists>c'. cells h' this = Some c'
        \<and> same_node (c\<lparr>payload := ArrayV (take i xs @ drop (Suc i) xs)\<rparr>) c')))) h"
proof (cases "\<exists>xs. payload c = ArrayV xs \<and> i < length xs")
  case True
  then obtain xs where xs: "payload c = ArrayV xs" "i < length xs" by blast
  from arr_replace_ok [where I = "{#}" and olds = "[xs ! i]" and k = k and n = n
      and f = "\<lambda>xs. take i xs @ drop (Suc i) xs" and K = "mset (take i xs @ drop (Suc i) xs)",
      OF _ assms(2,3) xs(1)]
  show ?thesis using assms(1) xs mset_nth_del [OF xs(2)]
    by (auto simp: ArrRemove_def wp_cell_at [OF assms(3)] elim!: wp_mono)
next
  case False
  with assms(1) show ?thesis
    by (auto simp: ArrRemove_def wp_cell_at [OF assms(3)] split: payload.splits)
qed

lemma ArrSet_ok:
  assumes "counted n (add_mset v R) h" "this \<in># R" "cells h this = Some c"
  shows "wp (ArrSet k this i v) (\<lambda>_ h'. counted n R h' \<and> touches this h h'
    \<and> (\<forall>xs. payload c = ArrayV xs \<longrightarrow> i < length xs \<longrightarrow> (\<exists>c'. cells h' this = Some c'
        \<and> same_node (c\<lparr>payload := ArrayV (xs[i := v])\<rparr>) c'))) h"
proof (cases "\<exists>xs. payload c = ArrayV xs \<and> i < length xs")
  case True
  then obtain xs where xs: "payload c = ArrayV xs" "i < length xs" by blast
  from arr_replace_ok [where I = "{#v#}" and olds = "[xs ! i]" and k = k and n = n
      and f = "\<lambda>xs. xs[i := v]" and K = "mset (take i xs @ drop (Suc i) xs)", OF _ assms(2,3) xs(1)]
  show ?thesis using assms(1) xs mset_nth_del [OF xs(2)] mset_list_update [OF xs(2), of v]
    by (auto simp: ArrSet_def wp_cell_at [OF assms(3)] elim!: wp_mono)
next
  case False
  with drop_touches [OF assms(1), of k this] show ?thesis
    by (auto simp: ArrSet_def wp_cell_at [OF assms(3)] split: payload.splits)
qed

lemma ArrClear_ok:
  assumes "counted n R h" "this \<in># R" "cells h this = Some c"
  shows "wp (ArrClear k this) (\<lambda>_ h'. counted n R h' \<and> touches this h h'
    \<and> (\<forall>xs. payload c = ArrayV xs \<longrightarrow> (\<exists>c'. cells h' this = Some c' \<and> same_node (c\<lparr>payload := ArrayV []\<rparr>) c'))) h"
proof (cases "\<exists>xs. payload c = ArrayV xs")
  case True
  then obtain xs where xs: "payload c = ArrayV xs" ..
  from arr_replace_ok [where I = "{#}" and olds = xs and k = k and n = n and f = "\<lambda>xs. []" and K = "{#}", OF _ assms(2,3) xs]
  show ?thesis using assms(1) xs by (auto simp: ArrClear_def wp_cell_at [OF assms(3)] elim!: wp_mono)
next
  case False
  with assms(1) show ?thesis by (auto simp: ArrClear_def wp_cell_at [OF assms(3)] split: payload.splits)
qed

section \<open>New nodes\<close>

lemma wp_new_node:
  assumes "heap_ok n M R h" "1 \<le> n" "children p = []" "payload_ok p"
  shows "wp (new_node p) (\<lambda>a h'. a = next_addr h \<and> heap_ok n M (add_mset a R) h' \<and> extends h h'
    \<and> cells h' a = Some \<lparr>version = 0, refcount = 1, payload = p, epoch = 0\<rparr> \<and> next_addr h < next_addr h') h"
  using heap_ok_new [OF assms, of 0] by (simp add: wp_def new_node_def extends_def)

lemmas make_defs = MakeNull_def MakeBool_def MakeInt_def MakeFloat_def MakeString_def MakeString_len_def
  MakeArray_def MakeObject_def MakeIntMap_def MakeBinary_def

section \<open>Copying\<close>

text \<open>A set of nodes that can be read while the nodes of a mask are in disorder.\<close>

definition readable :: "(addr \<Rightarrow> addr multiset option) \<Rightarrow> addr set \<Rightarrow> Heap \<Rightarrow> bool" where
  "readable M S h \<longleftrightarrow> (\<forall>a \<in> S. M a = None \<and> (\<exists>c. cells h a = Some c \<and> set (children (payload c)) \<subseteq> S))"

lemma readable_extends:
  assumes "readable M S h" "extends h h'" "heap_ok n M R h"
  shows "readable M S h'"
  unfolding readable_def
proof
  fix a assume "a \<in> S"
  with assms(1) obtain c where c: "M a = None" "cells h a = Some c" "set (children (payload c)) \<subseteq> S"
    unfolding readable_def by blast
  moreover have "a < next_addr h" by (rule heap_okD(2) [OF assms(3) c(2)])
  ultimately show "M a = None \<and> (\<exists>c. cells h' a = Some c \<and> set (children (payload c)) \<subseteq> S)"
    using assms(2) by (auto simp: extends_def)
qed

lemma readable_all: "counted n R h \<Longrightarrow> readable Map.empty (dom (cells h)) h"
  unfolding readable_def by (auto dest: child_live)

text \<open>One step of a loop that builds a container out of copies: the copy goes into the new node.\<close>

definition copying :: "nat \<Rightarrow> (addr \<Rightarrow> addr multiset option) \<Rightarrow> addr multiset \<Rightarrow> Heap \<Rightarrow> addr \<Rightarrow> Heap \<Rightarrow> bool" where
  "copying n M R h a h' \<longleftrightarrow> heap_ok n M (add_mset a R) h' \<and> extends h h' \<and> next_addr h \<le> a \<and> M a = None"

lemma extends_update:
  "extends h h' \<Longrightarrow> next_addr h \<le> a \<Longrightarrow> extends h (h'\<lparr>cells := (cells h')(a \<mapsto> c)\<rparr>)"
  by (simp add: extends_def)

lemma fresh_unmasked:
  assumes "heap_ok n M R h" "next_addr h \<le> a"
  shows "M a = None"
  using heap_okD(2,7) [OF assms(1), of a] assms(2) by (cases "M a") force+

context node_map
begin

text \<open>The loop that copies the entries of a map, given what the recursive call does.\<close>

lemma copy_loop:
  assumes copy: "\<And>b R h'. heap_ok n M R h' \<Longrightarrow> extends h h' \<Longrightarrow> b \<in> S \<Longrightarrow>
      wp (copy b) (\<lambda>a' h''. heap_ok n M (add_mset a' R) h'' \<and> extends h' h'' \<and> next_addr h' \<le> a') h'"
    and init: "copying n M R h a h1" "cells h1 a = Some c" "payload c = con m0"
    and keys: "distinct (map fst m0 @ map fst m)" "snd ` set m \<subseteq> S" "layouts_ok L"
  shows "wp (for_each (\<lambda>(key, val). seq (copy val) (ins k L a key)) m) (\<lambda>_. copying n M R h a) h1"
proof (rule wp_for_each [where I = "\<lambda>ys h'. copying n M R h a h' \<and> snd ` set ys \<subseteq> S \<and> (\<exists>c m'. cells h' a = Some c
      \<and> payload c = con m' \<and> distinct (map fst m' @ map fst ys))"])
  fix p ys h'
  assume "copying n M R h a h' \<and> snd ` set (p # ys) \<subseteq> S \<and> (\<exists>c m'. cells h' a = Some c
      \<and> payload c = con m' \<and> distinct (map fst m' @ map fst (p # ys)))"
  then obtain key val c m' where i: "heap_ok n M (add_mset a R) h'" "extends h h'" "next_addr h \<le> a" "M a = None"
    "p = (key, val)" "val \<in> S" "snd ` set ys \<subseteq> S" "cells h' a = Some c" "payload c = con m'"
    "distinct (map fst m' @ key # map fst ys)"
    by (cases p) (auto simp: copying_def)
  have "wp (copy val) (\<lambda>v. wp (ins k L a key v) (\<lambda>_ h'. copying n M R h a h' \<and> snd ` set ys \<subseteq> S \<and> (\<exists>c m'. cells h' a = Some c
      \<and> payload c = con m' \<and> distinct (map fst m' @ map fst ys)))) h'"
  proof (rule wp_mono [OF copy [OF i(1,2,6)]])
    fix v h2 assume "heap_ok n M (add_mset v (add_mset a R)) h2 \<and> extends h' h2 \<and> next_addr h' \<le> v"
    then have v: "heap_ok n M (add_mset v (add_mset a R)) h2" "extends h' h2" by simp_all
    have a: "a < next_addr h'" by (rule heap_okD(2) [OF i(1,8)])
    with v(2) i(8) have c2: "cells h2 a = Some c" by (simp add: extends_def)
    have none: "map_of m' key = None" using i(10) by (simp add: map_of_eq_None_iff)
    let ?h = "h2\<lparr>cells := (cells h2)(a \<mapsto> inserted L key v m' c)\<rparr>"
    have "heap_ok n M (add_mset a R) ?h" by (rule heap_ok_inserted [OF v(1) c2 i(9,4) none keys(3)])
    moreover have "extends h ?h"
      by (rule extends_update [OF extends_trans [OF i(2) v(2)] i(3)])
    moreover have "distinct (map fst (map_put (lay L) key v m') @ map fst ys)"
    proof -
      have d: "distinct (map fst m')" using i(10) by simp
      have "mset (map fst (map_put (lay L) key v m')) = mset (key # map fst m')"
        using map_put_mset [OF lay_ok [OF keys(3)] d, of key v] none by (simp add: map_of_eq_None_iff)
      then have "mset (map fst (map_put (lay L) key v m') @ map fst ys) = mset (map fst m' @ key # map fst ys)"
        by simp
      with i(10) show ?thesis by (metis mset_eq_imp_distinct_iff)
    qed
    ultimately show "wp (ins k L a key v) (\<lambda>_ h'. copying n M R h a h' \<and> snd ` set ys \<subseteq> S \<and> (\<exists>c m'. cells h' a = Some c
      \<and> payload c = con m' \<and> distinct (map fst m' @ map fst ys))) h2"
      using i(3,4,7) by (simp add: wp_def ins_new [OF c2 i(9) none] copying_def inserted_def con_eq)
  qed
  then show "wp (case p of (key, val) \<Rightarrow> seq (copy val) (ins k L a key)) (\<lambda>_ h'. copying n M R h a h'
      \<and> snd ` set ys \<subseteq> S \<and> (\<exists>c m'. cells h' a = Some c \<and> payload c = con m' \<and> distinct (map fst m' @ map fst ys))) h'"
    by (simp add: i(5))
qed (use init keys in auto)

end

lemma copy_array_loop:
  assumes copy: "\<And>b R h'. heap_ok n M R h' \<Longrightarrow> extends h h' \<Longrightarrow> b \<in> S \<Longrightarrow>
      wp (copy b) (\<lambda>a' h''. heap_ok n M (add_mset a' R) h'' \<and> extends h' h'' \<and> next_addr h' \<le> a') h'"
    and init: "copying n M R h a h1" "cells h1 a = Some c" "payload c = ArrayV ys0" "set xs \<subseteq> S"
  shows "wp (for_each (\<lambda>elem. seq (copy elem) (arr_push_back a)) xs) (\<lambda>_. copying n M R h a) h1"
proof (rule wp_for_each [where I = "\<lambda>ys h'. copying n M R h a h' \<and> set ys \<subseteq> S
      \<and> (\<exists>c zs. cells h' a = Some c \<and> payload c = ArrayV zs)"])
  fix x ys h'
  assume "copying n M R h a h' \<and> set (x # ys) \<subseteq> S \<and> (\<exists>c zs. cells h' a = Some c \<and> payload c = ArrayV zs)"
  then obtain c zs where i: "heap_ok n M (add_mset a R) h'" "extends h h'" "next_addr h \<le> a" "M a = None"
    "x \<in> S" "set ys \<subseteq> S" "cells h' a = Some c" "payload c = ArrayV zs"
    by (auto simp: copying_def)
  have "wp (copy x) (\<lambda>v. wp (arr_push_back a v) (\<lambda>_ h'. copying n M R h a h' \<and> set ys \<subseteq> S
      \<and> (\<exists>c zs. cells h' a = Some c \<and> payload c = ArrayV zs))) h'"
  proof (rule wp_mono [OF copy [OF i(1,2,5)]])
    fix v h2 assume "heap_ok n M (add_mset v (add_mset a R)) h2 \<and> extends h' h2 \<and> next_addr h' \<le> v"
    then have v: "heap_ok n M (add_mset v (add_mset a R)) h2" "extends h' h2" by simp_all
    have "a < next_addr h'" by (rule heap_okD(2) [OF i(1,7)])
    with v(2) i(7) have c2: "cells h2 a = Some c" by (simp add: extends_def)
    from arr_push_back_ok [OF v(1) c2 i(8,4)]
    show "wp (arr_push_back a v) (\<lambda>_ h'. copying n M R h a h' \<and> set ys \<subseteq> S
        \<and> (\<exists>c zs. cells h' a = Some c \<and> payload c = ArrayV zs)) h2"
      by (rule wp_mono) (use i(3,4,6) extends_update [OF extends_trans [OF i(2) v(2)] i(3)] in \<open>auto simp: copying_def\<close>)
  qed
  then show "wp (seq (copy x) (arr_push_back a)) (\<lambda>_ h'. copying n M R h a h' \<and> set ys \<subseteq> S
      \<and> (\<exists>c zs. cells h' a = Some c \<and> payload c = ArrayV zs)) h'" by simp
qed (use init in auto)

text \<open>A copy leaves everything as it is, and its root is a new pointer from outside.\<close>

lemma DeepCopy_ok:
  assumes "heap_ok n M R h" "1 \<le> n" "readable M S h" "a \<in> S" "layouts_ok L"
  shows "wp (DeepCopy_at k L a) (\<lambda>a' h'. heap_ok n M (add_mset a' R) h' \<and> extends h h' \<and> next_addr h \<le> a') h"
  using assms(1,3,4)
proof (induction k arbitrary: a R h)
  case (Suc k)
  then obtain c where c: "cells h a = Some c" "set (children (payload c)) \<subseteq> S" unfolding readable_def by blast
  have IH: "wp (DeepCopy_at k L b) (\<lambda>a' h''. heap_ok n M (add_mset a' R') h'' \<and> extends h' h'' \<and> next_addr h' \<le> a') h'"
    if "heap_ok n M R' h'" "extends h h'" "b \<in> S" for b R' h'
    using Suc.IH [OF that(1) readable_extends [OF Suc.prems(2) that(2) Suc.prems(1)] that(3)] .
  have new: "wp (new_node p) (\<lambda>a' h'. copying n M R h a' h' \<and> (\<exists>c. cells h' a' = Some c \<and> payload c = p)) h"
    if "children p = []" "payload_ok p" for p
    by (rule wp_mono [OF wp_new_node [OF Suc.prems(1) assms(2) that]])
      (auto simp: copying_def fresh_unmasked [OF Suc.prems(1)])
  have d: "payload_ok (payload c)" by (rule heap_okD(4) [OF Suc.prems(1) c(1)])
  have "wp (DeepCopy_at (Suc k) L a) (copying n M R h) h"
  proof (cases "payload c")
    case (ArrayV xs)
    show ?thesis using ArrayV c(2)
      by (auto simp: wp_cell_at [OF c(1)] make_defs intro!: wp_mono [OF new [of "ArrayV []"]]
          copy_array_loop [OF IH])
  next
    case (ObjectV m)
    show ?thesis using ObjectV c(2) d assms(5)
      by (auto simp: wp_cell_at [OF c(1)] make_defs intro!: wp_mono [OF new [of "ObjectV []"]]
          om.copy_loop [OF IH, where ?m0.0 = "[]"])
  next
    case (IntMapV m)
    show ?thesis using IntMapV c(2) d assms(5)
      by (auto simp: wp_cell_at [OF c(1)] make_defs intro!: wp_mono [OF new [of "IntMapV []"]]
          im.copy_loop [OF IH, where ?m0.0 = "[]"])
  qed (auto simp: wp_cell_at [OF c(1)] make_defs intro!: wp_mono [OF new])
  then show ?case by (rule wp_mono) (simp add: copying_def)
qed simp

end
