(* ===== verification/Heap_Merge.thy ===== *)
theory Heap_Merge
  imports Heap_Ops
begin

text \<open>
  Merging one container into another.  With overwriting, the old value of an entry is dropped before
  the new one is copied, so that for a moment the container holds a pointer to nothing: that is safe
  as long as the container is not part of what is copied, and a use after free otherwise.
\<close>

section \<open>What can be reached\<close>

definition child_of :: "Heap \<Rightarrow> addr rel" where
  "child_of h = {(a, b). \<exists>c. cells h a = Some c \<and> b \<in> set (children (payload c))}"

definition reach :: "Heap \<Rightarrow> addr \<Rightarrow> addr set" where
  "reach h a = (child_of h)\<^sup>* `` {a}"

lemma reach_refl [simp, intro]: "a \<in> reach h a"
  by (simp add: reach_def)

lemma reach_step: "x \<in> reach h a \<Longrightarrow> cells h x = Some c \<Longrightarrow> y \<in> set (children (payload c)) \<Longrightarrow> y \<in> reach h a"
  by (auto simp: reach_def child_of_def intro: rtrancl_into_rtrancl)

lemma reach_child: "cells h a = Some c \<Longrightarrow> y \<in> set (children (payload c)) \<Longrightarrow> y \<in> reach h a"
  by (rule reach_step [OF reach_refl])

text \<open>What is reached from a node that is held stays, as long as the node that changes is not part of it.\<close>

lemma reach_kept:
  assumes "counted n R h" "heap_ok n' M R' h'" "touches this h h'" "b \<in># R" "b \<in># R'"
    "this \<notin> reach h b" "dom M \<subseteq> {this}" "x \<in> reach h b"
  shows "\<exists>c c'. cells h x = Some c \<and> cells h' x = Some c' \<and> same_node c c'"
proof -
  have live: "\<exists>c. cells h x = Some c \<and> x < next_addr h" if "\<exists>c. cells h x = Some c" for x
    using that heap_okD(2) [OF assms(1)] by blast
  have *: "\<exists>c c'. cells h x = Some c \<and> cells h' x = Some c' \<and> same_node c c'"
    if "cells h x = Some c" "cells h' x = Some c'" "x \<in> reach h b" for x c c'
  proof -
    have "x \<noteq> this" using that(3) assms(6) by blast
    with touches_cell [OF assms(3) heap_okD(2) [OF assms(1) that(1)] _ that(2)] that show ?thesis by auto
  qed
  have "(b, x) \<in> (child_of h)\<^sup>*" using assms(8) by (simp add: reach_def)
  then show ?thesis
  proof (induction rule: rtrancl_induct)
    case base
    show ?case using heap_ok_live [OF assms(1,4)] heap_ok_live [OF assms(2,5)] * by blast
  next
    case (step y z)
    obtain c c' where c: "cells h y = Some c" "cells h' y = Some c'" "same_node c c'" using step.IH by blast
    have y: "y \<in> reach h b" using step.hyps(1) by (simp add: reach_def)
    have z: "z \<in> set (children (payload c))" using step.hyps(2) c(1) by (auto simp: child_of_def)
    have "M y = None" using y assms(6,7) by auto
    moreover have "z \<in> set (children (payload c'))" using z c(3) by (simp add: same_node_def)
    ultimately have "\<exists>d. cells h' z = Some d" by (rule child_live [OF assms(2) c(2)])
    moreover have "\<exists>d. cells h z = Some d" by (rule child_live [OF assms(1) c(1) _ z]) simp
    moreover have "z \<in> reach h b" by (rule reach_step [OF y c(1) z])
    ultimately show ?case using * by blast
  qed
qed

lemma reach_readable:
  assumes "counted n R h" "heap_ok n' M R' h'" "touches this h h'" "b \<in># R" "b \<in># R'"
    "this \<notin> reach h b" "dom M \<subseteq> {this}"
  shows "readable M (reach h b) h'"
  unfolding readable_def
proof
  fix x assume x: "x \<in> reach h b"
  obtain c c' where c: "cells h x = Some c" "cells h' x = Some c'" "same_node c c'"
    using reach_kept [OF assms x] by blast
  have "set (children (payload c)) \<subseteq> reach h b" using reach_step [OF x c(1)] by blast
  moreover have "M x = None" using x assms(6,7) by auto
  ultimately show "M x = None \<and> (\<exists>c. cells h' x = Some c \<and> set (children (payload c)) \<subseteq> reach h b)"
    using c by (auto simp: same_node_def)
qed

section \<open>The loop\<close>

locale node_merge = node_map con lay fnd asg emp ins ers del clr
  for con :: "('k \<times> addr) list \<Rightarrow> payload" and lay fnd asg emp ins ers del clr +
  fixes entry :: "nat \<Rightarrow> layouts \<Rightarrow> addr \<Rightarrow> bool \<Rightarrow> 'k \<times> addr \<Rightarrow> unit node_act"
    and mrg :: "nat \<Rightarrow> layouts \<Rightarrow> addr \<Rightarrow> addr option \<Rightarrow> bool \<Rightarrow> unit node_act"
  assumes entry_eq: "entry k L this ow (key, val) = seq (fnd this key) (\<lambda>it. case it of
       Some old \<Rightarrow>
         if ow then seq (Decref k (Some old)) (\<lambda>_. seq (DeepCopy_at k L val) (asg this key)) else ret ()
     | None \<Rightarrow> seq (DeepCopy_at k L val) (emp L this key))"
    and mrg_con: "cells h this = Some c \<Longrightarrow> payload c = con m \<Longrightarrow> cells h b = Some d \<Longrightarrow> payload d = con es \<Longrightarrow>
      mrg k L this (Some b) ow h = for_each (entry k L this ow) es h"
    and mrg_other: "cells h this = Some c \<Longrightarrow> cells h b = Some d \<Longrightarrow>
      (\<forall>m. payload c \<noteq> con m) \<or> (\<forall>m. payload d \<noteq> con m) \<Longrightarrow> mrg k L this (Some b) ow h = Done ((), h)"
begin

lemma entry_new_ok:
  assumes "counted n R h" "1 \<le> n" "cells h this = Some c" "payload c = con m"
    "map_of m key = None" "cells h val = Some d" "layouts_ok L"
  shows "wp (DeepCopy_at k L val) (\<lambda>v. wp (emp L this key v) (\<lambda>_ h'. counted n R h' \<and> touches this h h'
    \<and> (\<exists>c' m'. cells h' this = Some c' \<and> payload c' = con m'))) h"
proof -
  have "val \<in> dom (cells h)" using assms(6) by blast
  from DeepCopy_ok [OF assms(1,2) readable_all [OF assms(1)] this assms(7)] show ?thesis
  proof (rule wp_mono)
    fix v h2 assume "counted n (add_mset v R) h2 \<and> extends h h2 \<and> next_addr h \<le> v"
    then have v: "counted n (add_mset v R) h2" "extends h h2" by simp_all
    then have "cells h2 this = Some c"
      using heap_okD(2) [OF assms(1,3)] assms(3) by (simp add: extends_def)
    from put_new_ok [OF v(1) this assms(4,5,7)] extends_touches [OF v(2), of this]
    show "wp (emp L this key v) (\<lambda>_ h'. counted n R h' \<and> touches this h h'
        \<and> (\<exists>c' m'. cells h' this = Some c' \<and> payload c' = con m')) h2"
      by (auto elim!: wp_mono simp: same_node_def intro: touches_trans)
  qed
qed

lemma entry_old_ok:
  assumes "counted n R h" "1 \<le> n" "this \<in># R" "b \<in># R" "cells h this = Some c" "payload c = con m"
    "map_of m key = Some old" "this \<notin> reach h b" "val \<in> reach h b" "layouts_ok L"
  shows "wp (Decref k (Some old)) (\<lambda>_. wp (DeepCopy_at k L val) (\<lambda>v. wp (asg this key v)
    (\<lambda>_ h'. counted n R h' \<and> touches this h h' \<and> (\<exists>c' m'. cells h' this = Some c' \<and> payload c' = con m')))) h"
proof -
  let ?K = "mset (map snd m) - {#old#}"
  have kids: "kids c = add_mset old ?K" unfolding kids_con [OF assms(6)] by (rule values_has [OF assms(7)])
  show ?thesis
  proof (rule wp_mono [OF drop_child [OF assms(1,3,5) kids]])
    fix x h2
    assume "heap_ok n [this \<mapsto> ?K] R h2 \<and> counts_only h h2 \<and> (\<exists>c'. cells h2 this = Some c' \<and> same_node c c')"
    then obtain c2 where i: "heap_ok n [this \<mapsto> ?K] R h2" "counts_only h h2" "cells h2 this = Some c2"
      "same_node c c2" by blast
    have m2: "payload c2 = con m" using i(4) assms(6) by (simp add: same_node_def)
    have t2: "touches this h h2" by (rule counts_only_touches [OF i(2)])
    have "readable [this \<mapsto> ?K] (reach h b) h2"
      by (rule reach_readable [OF assms(1) i(1) t2 assms(4,4,8)]) simp
    from DeepCopy_ok [OF i(1) assms(2) this assms(9,10)]
    show "wp (DeepCopy_at k L val) (\<lambda>v. wp (asg this key v) (\<lambda>_ h'. counted n R h' \<and> touches this h h'
        \<and> (\<exists>c' m'. cells h' this = Some c' \<and> payload c' = con m'))) h2"
    proof (rule wp_mono)
      fix v h3 assume "heap_ok n [this \<mapsto> ?K] (add_mset v R) h3 \<and> extends h2 h3 \<and> next_addr h2 \<le> v"
      then have v: "heap_ok n [this \<mapsto> ?K] (add_mset v R) h3" "extends h2 h3" by simp_all
      have c3: "cells h3 this = Some c2"
        using heap_okD(2) [OF i(1,3)] i(3) v(2) by (simp add: extends_def)
      let ?h = "h3\<lparr>cells := (cells h3)(this \<mapsto> c2\<lparr>payload := con (AList.update key v m)\<rparr>)\<rparr>"
      have "touches this h3 ?h" by (rule touches_update [OF c3]) (use con_types m2 in simp)
      then have "touches this h ?h"
        using t2 extends_touches [OF v(2), of this] touches_trans by blast
      with asg_ok [OF v(1) assms(3) c3 m2 assms(7) values_has [OF assms(7)]]
      show "wp (asg this key v) (\<lambda>_ h'. counted n R h' \<and> touches this h h'
          \<and> (\<exists>c' m'. cells h' this = Some c' \<and> payload c' = con m')) h3"
        by (auto elim!: wp_mono)
    qed
  qed
qed

text \<open>Reachability survives the rounds of the loop.\<close>

lemma reach_still:
  assumes "counted n R h" "counted n R h'" "touches this h h'" "b \<in># R" "this \<notin> reach h b"
  shows "reach h' b = reach h b"
proof -
  note kept = reach_kept [OF assms(1,2,3,4,4,5)]
  have sub: "x \<in> reach h' b" if "x \<in> reach h b" for x
  proof -
    have "(b, x) \<in> (child_of h)\<^sup>*" using that by (simp add: reach_def)
    then show ?thesis
    proof (induction rule: rtrancl_induct)
      case (step y z)
      have "y \<in> reach h b" using step.hyps(1) by (simp add: reach_def)
      from kept [OF _ this] step.hyps(2) show ?case
        by (auto simp: child_of_def same_node_def intro: reach_step [OF step.IH])
    qed simp
  qed
  have "x \<in> reach h b" if "x \<in> reach h' b" for x
  proof -
    have "(b, x) \<in> (child_of h')\<^sup>*" using that by (simp add: reach_def)
    then show ?thesis
    proof (induction rule: rtrancl_induct)
      case (step y z)
      from kept [OF _ step.IH] step.hyps(2) show ?case
        by (auto simp: child_of_def same_node_def intro: reach_step [OF step.IH])
    qed simp
  qed
  with sub show ?thesis by blast
qed

lemma mrg_ok:
  assumes "counted n R h" "1 \<le> n" "this \<in># R" "b \<in># R" "this \<noteq> b" "layouts_ok L"
    "ow \<Longrightarrow> this \<notin> reach h b"
  shows "wp (mrg k L this (Some b) ow) (\<lambda>_ h'. counted n R h' \<and> touches this h h') h"
proof -
  obtain c d where c: "cells h this = Some c" and d: "cells h b = Some d"
    using heap_ok_live [OF assms(1,3)] heap_ok_live [OF assms(1,4)] by blast
  show ?thesis
  proof (cases "(\<exists>m. payload c = con m) \<and> (\<exists>es. payload d = con es)")
    case False
    then have "mrg k L this (Some b) ow h = Done ((), h)" by (intro mrg_other [OF c d]) blast
    with assms(1) show ?thesis by (simp add: wp_def)
  next
    case True
    then obtain m es where m: "payload c = con m" and es: "payload d = con es" by blast
    let ?I = "\<lambda>ys h'. counted n R h' \<and> touches this h h' \<and> (\<exists>c' m'. cells h' this = Some c' \<and> payload c' = con m')
      \<and> snd ` set ys \<subseteq> set (children (payload d))"
    have "wp (for_each (entry k L this ow) es) (\<lambda>_ h'. counted n R h' \<and> touches this h h') h"
    proof (rule wp_for_each [where I = ?I])
      show "?I es h" using assms(1) c m es by (auto simp: con_children)
    next
      fix p :: "'k \<times> addr" and ys h' assume "?I (p # ys) h'"
      then obtain key val c' m' where i: "counted n R h'" "touches this h h'" "p = (key, val)"
        "cells h' this = Some c'" "payload c' = con m'" "val \<in> set (children (payload d))"
        "snd ` set ys \<subseteq> set (children (payload d))" by (cases p) auto
      obtain d' where d': "cells h' b = Some d'" using heap_ok_live [OF i(1) assms(4)] by blast
      have same: "same_node d d'"
        using touches_cell [OF i(2) heap_okD(2) [OF assms(1) d] assms(5) [symmetric] d'] d by auto
      have val: "val \<in> set (children (payload d'))" using i(6) same by (simp add: same_node_def)
      then obtain e where e: "cells h' val = Some e" using child_live [OF i(1) d'] by auto
      have t: "touches this h' h'' \<Longrightarrow> touches this h h''" for h'' using i(2) touches_trans by blast
      have r: "this \<notin> reach h' b" if ow
        using reach_still [OF assms(1) i(1,2) assms(4)] assms(7) that by blast
      have "fnd this key h' = Done (map_of m' key, h')" by (rule fnd_con [OF i(4,5)])
      then have "wp (entry k L this ow (key, val)) (\<lambda>_. ?I ys) h' \<longleftrightarrow> wp (case map_of m' key of
          Some old \<Rightarrow> if ow then seq (Decref k (Some old)) (\<lambda>_. seq (DeepCopy_at k L val) (asg this key)) else ret ()
        | None \<Rightarrow> seq (DeepCopy_at k L val) (emp L this key)) (\<lambda>_. ?I ys) h'"
        by (simp add: entry_eq wp_Done)
      also have \<dots>
      proof (cases "map_of m' key")
        case None
        with entry_new_ok [OF i(1) assms(2) i(4,5) None e assms(6), of k] i(7) show ?thesis
          by (auto elim!: wp_mono intro: t)
      next
        case (Some old)
        show ?thesis
        proof (cases ow)
          case True
          with Some entry_old_ok [OF i(1) assms(2,3,4) i(4,5) Some r [OF True] reach_child [OF d' val] assms(6), of k] i(7)
          show ?thesis by (auto elim!: wp_mono intro: t)
        next
          case False
          with Some i show ?thesis by auto
        qed
      qed
      finally show "wp (entry k L this ow p) (\<lambda>_. ?I ys) h'" by (simp add: i(3))
    qed simp
    then show ?thesis by (simp add: wp_def mrg_con [OF c m d es])
  qed
qed

end

interpretation om: node_merge ObjectV str_layout ObjFind obj_assign obj_emplace ObjInsert obj_erase ObjErase
  ObjClear obj_merge_entry ObjMerge
  by unfold_locales (auto simp: obj_merge_entry_def ObjMerge_def seq_def cell_at_def split: payload.splits)

interpretation im: node_merge IntMapV int_layout IntMapFind intmap_assign intmap_emplace IntMapInsert intmap_erase
  IntMapErase IntMapClear intmap_merge_entry IntMapMerge
  by unfold_locales (auto simp: intmap_merge_entry_def IntMapMerge_def seq_def cell_at_def split: payload.splits)

lemma ArrExtend_ok:
  assumes "counted n R h" "1 \<le> n" "this \<in># R" "b \<in># R" "this \<noteq> b" "layouts_ok L"
  shows "wp (ArrExtend k L this (Some b)) (\<lambda>_ h'. counted n R h' \<and> touches this h h') h"
proof -
  obtain c d where c: "cells h this = Some c" and d: "cells h b = Some d"
    using heap_ok_live [OF assms(1,3)] heap_ok_live [OF assms(1,4)] by blast
  show ?thesis
  proof (cases "(\<exists>xs. payload c = ArrayV xs) \<and> (\<exists>ys. payload d = ArrayV ys)")
    case False
    with assms(1) show ?thesis
      by (auto simp: ArrExtend_def wp_cell_at [OF c] wp_cell_at [OF d] split: payload.splits)
  next
    case True
    then obtain xs es where xs: "payload c = ArrayV xs" and es: "payload d = ArrayV es" by blast
    let ?I = "\<lambda>ys h'. counted n R h' \<and> touches this h h' \<and> (\<exists>c' xs. cells h' this = Some c' \<and> payload c' = ArrayV xs)
      \<and> set ys \<subseteq> set (children (payload d))"
    have "wp (for_each (\<lambda>elem. seq (DeepCopy_at k L elem) (arr_push_back this)) es)
      (\<lambda>_ h'. counted n R h' \<and> touches this h h') h"
    proof (rule wp_for_each [where I = ?I])
      show "?I es h" using assms(1) c xs es by auto
    next
      fix val ys h' assume "?I (val # ys) h'"
      then obtain c' zs where i: "counted n R h'" "touches this h h'"
        "cells h' this = Some c'" "payload c' = ArrayV zs" "val \<in> set (children (payload d))"
        "set ys \<subseteq> set (children (payload d))" by auto
      obtain d' where d': "cells h' b = Some d'" using heap_ok_live [OF i(1) assms(4)] by blast
      have "same_node d d'"
        using touches_cell [OF i(2) heap_okD(2) [OF assms(1) d] assms(5) [symmetric] d'] d by auto
      then have "val \<in> set (children (payload d'))" using i(5) by (simp add: same_node_def)
      then have "val \<in> dom (cells h')" using child_live [OF i(1) d'] by auto
      from DeepCopy_ok [OF i(1) assms(2) readable_all [OF i(1)] this assms(6)]
      have "wp (DeepCopy_at k L val) (\<lambda>v. wp (arr_push_back this v) (\<lambda>_. ?I ys)) h'"
      proof (rule wp_mono)
        fix v h2 assume "counted n (add_mset v R) h2 \<and> extends h' h2 \<and> next_addr h' \<le> v"
        then have v: "counted n (add_mset v R) h2" "extends h' h2" by simp_all
        then have c2: "cells h2 this = Some c'"
          using heap_okD(2) [OF i(1,3)] i(3) by (simp add: extends_def)
        have "touches this h2 (h2\<lparr>cells := (cells h2)(this \<mapsto> c'\<lparr>payload := ArrayV (zs @ [v])\<rparr>)\<rparr>)"
          by (rule touches_update [OF c2]) (simp add: i(4))
        then have "touches this h (h2\<lparr>cells := (cells h2)(this \<mapsto> c'\<lparr>payload := ArrayV (zs @ [v])\<rparr>)\<rparr>)"
          using i(2) extends_touches [OF v(2), of this] touches_trans by blast
        with arr_push_back_ok [OF v(1) c2 i(4)] i(6) show "wp (arr_push_back this v) (\<lambda>_. ?I ys) h2"
          by (auto elim!: wp_mono)
      qed
      then show "wp (seq (DeepCopy_at k L val) (arr_push_back this)) (\<lambda>_. ?I ys) h'" by simp
    qed simp
    then show ?thesis using xs es by (simp add: ArrExtend_def wp_cell_at [OF c] wp_cell_at [OF d])
  qed
qed

end
