(* ===== verification/Data_Handle.thy ===== *)
theory Data_Handle
  imports Heap_Merge Json_Text
begin

text \<open>
  The class behind a script's Json handle (\<^verbatim>\<open>src/data/data_handle.h\<close>,
  \<^verbatim>\<open>data_handle.cpp\<close>): a pointer to a node, the getters with their coercions and defaults, and
  the setters; and the iterators over objects and integer maps (\<^verbatim>\<open>data_iterator.cpp\<close>).
\<close>

section \<open>Types of nodes as scripts see them\<close>

datatype Async2DataType =
    JSON_TYPE_NONE | JSON_TYPE_NULL | JSON_TYPE_BOOL | JSON_TYPE_NUMBER | JSON_TYPE_STRING
  | JSON_TYPE_ARRAY | JSON_TYPE_OBJECT | JSON_TYPE_BINARY | JSON_TYPE_INTOBJECT

fun enum_value :: "Async2DataType \<Rightarrow> i32" where
  "enum_value JSON_TYPE_NONE = 0"
| "enum_value JSON_TYPE_NULL = 1"
| "enum_value JSON_TYPE_BOOL = 2"
| "enum_value JSON_TYPE_NUMBER = 3"
| "enum_value JSON_TYPE_STRING = 4"
| "enum_value JSON_TYPE_ARRAY = 5"
| "enum_value JSON_TYPE_OBJECT = 6"
| "enum_value JSON_TYPE_BINARY = 7"
| "enum_value JSON_TYPE_INTOBJECT = 8"

fun type_shown :: "DataType \<Rightarrow> Async2DataType" where
  "type_shown TNull = JSON_TYPE_NULL"
| "type_shown TBool = JSON_TYPE_BOOL"
| "type_shown TInt = JSON_TYPE_NUMBER"
| "type_shown TFloat = JSON_TYPE_NUMBER"
| "type_shown TString = JSON_TYPE_STRING"
| "type_shown TArray = JSON_TYPE_ARRAY"
| "type_shown TObject = JSON_TYPE_OBJECT"
| "type_shown TIntMap = JSON_TYPE_INTOBJECT"
| "type_shown TBinary = JSON_TYPE_BINARY"

definition NodeToType :: "addr option \<Rightarrow> Async2DataType node_act" where
  "NodeToType n = (case n of
     None \<Rightarrow> ret JSON_TYPE_NONE
   | Some a \<Rightarrow> seq (cell_at a) (\<lambda>c. ret (type_shown (type_of (payload c)))))"

section \<open>Handles\<close>

record DataHandle =
  node :: "addr option"

text \<open>A method body that returns \<open>d\<close> at once when the handle holds no node.\<close>

definition with_node :: "DataHandle \<Rightarrow> 'a \<Rightarrow> (addr \<Rightarrow> 'a node_act) \<Rightarrow> 'a node_act" where
  "with_node dh d f = (case node dh of None \<Rightarrow> ret d | Some n \<Rightarrow> f n)"

definition DataHandle_delete :: "nat \<Rightarrow> DataHandle \<Rightarrow> unit node_act" where
  "DataHandle_delete k dh = Decref k (node dh)"

definition DataHandle_CreateObject :: "DataHandle node_act" where
  "DataHandle_CreateObject = seq MakeObject (\<lambda>n. ret \<lparr>node = Some n\<rparr>)"

definition DataHandle_CreateArray :: "DataHandle node_act" where
  "DataHandle_CreateArray = seq MakeArray (\<lambda>n. ret \<lparr>node = Some n\<rparr>)"

definition DataHandle_CreateIntMap :: "DataHandle node_act" where
  "DataHandle_CreateIntMap = seq MakeIntMap (\<lambda>n. ret \<lparr>node = Some n\<rparr>)"

definition GetType :: "DataHandle \<Rightarrow> Async2DataType node_act" where
  "GetType dh = NodeToType (node dh)"

definition ObjectSize :: "DataHandle \<Rightarrow> nat node_act" where
  "ObjectSize dh = with_node dh 0 ObjSize"

definition ArrayLength :: "DataHandle \<Rightarrow> nat node_act" where
  "ArrayLength dh = with_node dh 0 (\<lambda>n. seq (cell_at n) (\<lambda>c. case payload c of
     ArrayV xs \<Rightarrow> ret (length xs)
   | _ \<Rightarrow> ret 0))"

definition HasKey :: "DataHandle \<Rightarrow> string \<Rightarrow> bool node_act" where
  "HasKey dh key = with_node dh False (\<lambda>n. ObjContains n key)"

subsection \<open>Coercions\<close>

fun coerce_int :: "payload \<Rightarrow> i64 node_act" where
  "coerce_int (IntV i) = ret i"
| "coerce_int (FloatV d) = (case i64_of_f64 d of Some i \<Rightarrow> ret i | None \<Rightarrow> crash BadCast)"
| "coerce_int (BoolV b) = ret (if b then 1 else 0)"
| "coerce_int _ = ret 0"

fun coerce_float :: "payload \<Rightarrow> f64 node_act" where
  "coerce_float (FloatV d) = ret d"
| "coerce_float (IntV i) = ret (f64_of_i64 i)"
| "coerce_float (BoolV b) = ret (if b then f64_of_i64 1 else f64_of_i64 0)"
| "coerce_float _ = ret (f64_of_i64 0)"

fun coerce_bool :: "payload \<Rightarrow> bool node_act" where
  "coerce_bool (BoolV b) = ret b"
| "coerce_bool (IntV i) = ret (i \<noteq> 0)"
| "coerce_bool (FloatV d) = ret (\<not> f64_is_zero d)"
| "coerce_bool _ = ret False"

fun coerce_string :: "payload \<Rightarrow> string node_act" where
  "coerce_string (StringV s) = ret (c_str s)"
| "coerce_string _ = ret ''''"

definition coerce_at :: "'a \<Rightarrow> (payload \<Rightarrow> 'a node_act) \<Rightarrow> addr option \<Rightarrow> 'a node_act" where
  "coerce_at d f v = (case v of None \<Rightarrow> ret d | Some a \<Rightarrow> seq (cell_at a) (\<lambda>c. f (payload c)))"

subsection \<open>Object getters\<close>

definition GetString :: "DataHandle \<Rightarrow> string \<Rightarrow> string node_act" where
  "GetString dh key = with_node dh '''' (\<lambda>n. seq (ObjFind n key) (coerce_at '''' coerce_string))"

definition GetInt :: "DataHandle \<Rightarrow> string \<Rightarrow> i64 node_act" where
  "GetInt dh key = with_node dh 0 (\<lambda>n. seq (ObjFind n key) (coerce_at 0 coerce_int))"

definition GetFloat :: "DataHandle \<Rightarrow> string \<Rightarrow> f64 node_act" where
  "GetFloat dh key = with_node dh 0 (\<lambda>n. seq (ObjFind n key) (coerce_at 0 coerce_float))"

definition GetBool :: "DataHandle \<Rightarrow> string \<Rightarrow> bool node_act" where
  "GetBool dh key = with_node dh False (\<lambda>n. seq (ObjFind n key) (coerce_at False coerce_bool))"

text \<open>A child of a given type, or null.\<close>

definition only_type :: "DataType \<Rightarrow> addr option \<Rightarrow> addr option node_act" where
  "only_type t v = (case v of
     None \<Rightarrow> ret None
   | Some a \<Rightarrow> seq (cell_at a) (\<lambda>c. ret (if type_of (payload c) = t then Some a else None)))"

definition GetObjectNode :: "DataHandle \<Rightarrow> string \<Rightarrow> addr option node_act" where
  "GetObjectNode dh key = with_node dh None (\<lambda>n. seq (ObjFind n key) (only_type TObject))"

definition GetArrayNode :: "DataHandle \<Rightarrow> string \<Rightarrow> addr option node_act" where
  "GetArrayNode dh key = with_node dh None (\<lambda>n. seq (ObjFind n key) (only_type TArray))"

definition GetMemberNode :: "DataHandle \<Rightarrow> string \<Rightarrow> addr option node_act" where
  "GetMemberNode dh key = with_node dh None (\<lambda>n. ObjFind n key)"

text \<open>The element of an array node, null where there is none.\<close>

definition arr_elem :: "addr \<Rightarrow> nat \<Rightarrow> addr option node_act" where
  "arr_elem n index = seq (cell_at n) (\<lambda>c. case payload c of
     ArrayV xs \<Rightarrow> ret (if index < length xs then Some (xs ! index) else None)
   | _ \<Rightarrow> ret None)"

definition ArrayGetMemberNode :: "DataHandle \<Rightarrow> nat \<Rightarrow> addr option node_act" where
  "ArrayGetMemberNode dh index = with_node dh None (\<lambda>n. arr_elem n index)"

definition IntMapGetMemberNode :: "DataHandle \<Rightarrow> i64 \<Rightarrow> addr option node_act" where
  "IntMapGetMemberNode dh key = with_node dh None (\<lambda>n. IntMapFind n key)"

definition MemberType :: "DataHandle \<Rightarrow> string \<Rightarrow> Async2DataType node_act" where
  "MemberType dh key = with_node dh JSON_TYPE_NONE (\<lambda>n. seq (ObjFind n key) NodeToType)"

definition ArrayMemberType :: "DataHandle \<Rightarrow> nat \<Rightarrow> Async2DataType node_act" where
  "ArrayMemberType dh index = with_node dh JSON_TYPE_NONE (\<lambda>n. seq (arr_elem n index) NodeToType)"

definition IntMapMemberType :: "DataHandle \<Rightarrow> i64 \<Rightarrow> Async2DataType node_act" where
  "IntMapMemberType dh key = with_node dh JSON_TYPE_NONE (\<lambda>n. seq (IntMapFind n key) NodeToType)"

definition AsInt :: "DataHandle \<Rightarrow> i64 node_act" where
  "AsInt dh = coerce_at 0 coerce_int (node dh)"

definition AsFloat :: "DataHandle \<Rightarrow> f64 node_act" where
  "AsFloat dh = coerce_at 0 coerce_float (node dh)"

definition AsBool :: "DataHandle \<Rightarrow> bool node_act" where
  "AsBool dh = coerce_at False coerce_bool (node dh)"

definition AsString :: "DataHandle \<Rightarrow> string node_act" where
  "AsString dh = coerce_at '''' coerce_string (node dh)"

subsection \<open>Array getters\<close>

definition ArrayGetString :: "DataHandle \<Rightarrow> nat \<Rightarrow> string node_act" where
  "ArrayGetString dh index = with_node dh '''' (\<lambda>n. seq (arr_elem n index) (coerce_at '''' coerce_string))"

definition ArrayGetInt :: "DataHandle \<Rightarrow> nat \<Rightarrow> i64 node_act" where
  "ArrayGetInt dh index = with_node dh 0 (\<lambda>n. seq (arr_elem n index) (coerce_at 0 coerce_int))"

definition ArrayGetFloat :: "DataHandle \<Rightarrow> nat \<Rightarrow> f64 node_act" where
  "ArrayGetFloat dh index = with_node dh 0 (\<lambda>n. seq (arr_elem n index) (coerce_at 0 coerce_float))"

definition ArrayGetBool :: "DataHandle \<Rightarrow> nat \<Rightarrow> bool node_act" where
  "ArrayGetBool dh index = with_node dh False (\<lambda>n. seq (arr_elem n index) (coerce_at False coerce_bool))"

definition ArrayGetNode :: "DataHandle \<Rightarrow> nat \<Rightarrow> addr option node_act" where
  "ArrayGetNode dh index = with_node dh None (\<lambda>n. arr_elem n index)"

subsection \<open>IntMap getters\<close>

definition IntMapGetString :: "DataHandle \<Rightarrow> i64 \<Rightarrow> string node_act" where
  "IntMapGetString dh key = with_node dh '''' (\<lambda>n. seq (IntMapFind n key) (coerce_at '''' coerce_string))"

definition IntMapGetInt :: "DataHandle \<Rightarrow> i64 \<Rightarrow> i64 node_act" where
  "IntMapGetInt dh key = with_node dh 0 (\<lambda>n. seq (IntMapFind n key) (coerce_at 0 coerce_int))"

definition IntMapGetFloat :: "DataHandle \<Rightarrow> i64 \<Rightarrow> f64 node_act" where
  "IntMapGetFloat dh key = with_node dh 0 (\<lambda>n. seq (IntMapFind n key) (coerce_at 0 coerce_float))"

definition IntMapGetBool :: "DataHandle \<Rightarrow> i64 \<Rightarrow> bool node_act" where
  "IntMapGetBool dh key = with_node dh False (\<lambda>n. seq (IntMapFind n key) (coerce_at False coerce_bool))"

definition IntMapGetObjectNode :: "DataHandle \<Rightarrow> i64 \<Rightarrow> addr option node_act" where
  "IntMapGetObjectNode dh key = with_node dh None (\<lambda>n. seq (IntMapFind n key) (only_type TObject))"

definition IntMapGetArrayNode :: "DataHandle \<Rightarrow> i64 \<Rightarrow> addr option node_act" where
  "IntMapGetArrayNode dh key = with_node dh None (\<lambda>n. seq (IntMapFind n key) (only_type TArray))"

subsection \<open>Setters\<close>

text \<open>A setter that does nothing when the node is not of the type it is for; the value is made first
  and handed over.\<close>

definition set_member :: "DataType \<Rightarrow> DataHandle \<Rightarrow> addr node_act \<Rightarrow> (addr \<Rightarrow> addr \<Rightarrow> unit node_act) \<Rightarrow> unit node_act" where
  "set_member t dh mk put = with_node dh () (\<lambda>n. seq (cell_at n) (\<lambda>c.
     if type_of (payload c) \<noteq> t then ret () else seq mk (put n)))"

definition IntMapSetString :: "nat \<Rightarrow> layouts \<Rightarrow> DataHandle \<Rightarrow> i64 \<Rightarrow> string \<Rightarrow> unit node_act" where
  "IntMapSetString k L dh key val = set_member TIntMap dh (MakeString val) (\<lambda>n. IntMapInsert k L n key)"

definition IntMapSetInt :: "nat \<Rightarrow> layouts \<Rightarrow> DataHandle \<Rightarrow> i64 \<Rightarrow> i64 \<Rightarrow> unit node_act" where
  "IntMapSetInt k L dh key val = set_member TIntMap dh (MakeInt val) (\<lambda>n. IntMapInsert k L n key)"

definition IntMapSetFloat :: "nat \<Rightarrow> layouts \<Rightarrow> DataHandle \<Rightarrow> i64 \<Rightarrow> f64 \<Rightarrow> unit node_act" where
  "IntMapSetFloat k L dh key val = set_member TIntMap dh (MakeFloat val) (\<lambda>n. IntMapInsert k L n key)"

definition IntMapSetBool :: "nat \<Rightarrow> layouts \<Rightarrow> DataHandle \<Rightarrow> i64 \<Rightarrow> bool \<Rightarrow> unit node_act" where
  "IntMapSetBool k L dh key val = set_member TIntMap dh (MakeBool val) (\<lambda>n. IntMapInsert k L n key)"

definition IntMapSetNull :: "nat \<Rightarrow> layouts \<Rightarrow> DataHandle \<Rightarrow> i64 \<Rightarrow> unit node_act" where
  "IntMapSetNull k L dh key = set_member TIntMap dh MakeNull (\<lambda>n. IntMapInsert k L n key)"

definition DataHandle_IntMapRemoveKey :: "nat \<Rightarrow> layouts \<Rightarrow> DataHandle \<Rightarrow> i64 \<Rightarrow> bool node_act" where
  "DataHandle_IntMapRemoveKey k L dh key = with_node dh False (\<lambda>n. IntMapErase k L n key)"

definition DataHandle_IntMapClear :: "nat \<Rightarrow> DataHandle \<Rightarrow> unit node_act" where
  "DataHandle_IntMapClear k dh = with_node dh () (IntMapClear k)"

definition DataHandle_IntMapMerge :: "nat \<Rightarrow> layouts \<Rightarrow> DataHandle \<Rightarrow> addr option \<Rightarrow> bool \<Rightarrow> unit node_act" where
  "DataHandle_IntMapMerge k L dh other ow = with_node dh () (\<lambda>n. case other of
     None \<Rightarrow> ret ()
   | Some b \<Rightarrow> IntMapMerge k L n (Some b) ow)"

definition DataHandle_IntMapSize :: "DataHandle \<Rightarrow> nat node_act" where
  "DataHandle_IntMapSize dh = with_node dh 0 IntMapSize"

definition IntMapHasKey :: "DataHandle \<Rightarrow> i64 \<Rightarrow> bool node_act" where
  "IntMapHasKey dh key = with_node dh False (\<lambda>n. IntMapContains n key)"

definition RemoveKey :: "nat \<Rightarrow> layouts \<Rightarrow> DataHandle \<Rightarrow> string \<Rightarrow> bool node_act" where
  "RemoveKey k L dh key = with_node dh False (\<lambda>n. ObjErase k L n key)"

definition ObjectClear :: "nat \<Rightarrow> DataHandle \<Rightarrow> unit node_act" where
  "ObjectClear k dh = with_node dh () (ObjClear k)"

definition ObjectMerge :: "nat \<Rightarrow> layouts \<Rightarrow> DataHandle \<Rightarrow> addr option \<Rightarrow> bool \<Rightarrow> unit node_act" where
  "ObjectMerge k L dh other ow = with_node dh () (\<lambda>n. case other of
     None \<Rightarrow> ret ()
   | Some b \<Rightarrow> ObjMerge k L n (Some b) ow)"

definition ArrayRemove :: "nat \<Rightarrow> DataHandle \<Rightarrow> nat \<Rightarrow> bool node_act" where
  "ArrayRemove k dh index = with_node dh False (\<lambda>n. ArrRemove k n index)"

definition ArraySetString :: "nat \<Rightarrow> DataHandle \<Rightarrow> nat \<Rightarrow> string \<Rightarrow> unit node_act" where
  "ArraySetString k dh index val = with_node dh () (\<lambda>n. seq (MakeString val) (ArrSet k n index))"

definition ArraySetInt :: "nat \<Rightarrow> DataHandle \<Rightarrow> nat \<Rightarrow> i64 \<Rightarrow> unit node_act" where
  "ArraySetInt k dh index val = with_node dh () (\<lambda>n. seq (MakeInt val) (ArrSet k n index))"

definition ArraySetFloat :: "nat \<Rightarrow> DataHandle \<Rightarrow> nat \<Rightarrow> f64 \<Rightarrow> unit node_act" where
  "ArraySetFloat k dh index val = with_node dh () (\<lambda>n. seq (MakeFloat val) (ArrSet k n index))"

definition ArraySetBool :: "nat \<Rightarrow> DataHandle \<Rightarrow> nat \<Rightarrow> bool \<Rightarrow> unit node_act" where
  "ArraySetBool k dh index val = with_node dh () (\<lambda>n. seq (MakeBool val) (ArrSet k n index))"

definition ArraySetNull :: "nat \<Rightarrow> DataHandle \<Rightarrow> nat \<Rightarrow> unit node_act" where
  "ArraySetNull k dh index = with_node dh () (\<lambda>n. seq MakeNull (ArrSet k n index))"

definition ArrayClear :: "nat \<Rightarrow> DataHandle \<Rightarrow> unit node_act" where
  "ArrayClear k dh = with_node dh () (ArrClear k)"

definition ArrayExtend :: "nat \<Rightarrow> layouts \<Rightarrow> DataHandle \<Rightarrow> addr option \<Rightarrow> unit node_act" where
  "ArrayExtend k L dh other = with_node dh () (\<lambda>n. case other of
     None \<Rightarrow> ret ()
   | Some b \<Rightarrow> ArrExtend k L n (Some b))"

definition SetString :: "nat \<Rightarrow> layouts \<Rightarrow> DataHandle \<Rightarrow> string \<Rightarrow> string \<Rightarrow> unit node_act" where
  "SetString k L dh key val = set_member TObject dh (MakeString val) (\<lambda>n. ObjInsert k L n key)"

definition SetInt :: "nat \<Rightarrow> layouts \<Rightarrow> DataHandle \<Rightarrow> string \<Rightarrow> i64 \<Rightarrow> unit node_act" where
  "SetInt k L dh key val = set_member TObject dh (MakeInt val) (\<lambda>n. ObjInsert k L n key)"

definition SetFloat :: "nat \<Rightarrow> layouts \<Rightarrow> DataHandle \<Rightarrow> string \<Rightarrow> f64 \<Rightarrow> unit node_act" where
  "SetFloat k L dh key val = set_member TObject dh (MakeFloat val) (\<lambda>n. ObjInsert k L n key)"

definition SetBool :: "nat \<Rightarrow> layouts \<Rightarrow> DataHandle \<Rightarrow> string \<Rightarrow> bool \<Rightarrow> unit node_act" where
  "SetBool k L dh key val = set_member TObject dh (MakeBool val) (\<lambda>n. ObjInsert k L n key)"

definition SetNull :: "nat \<Rightarrow> layouts \<Rightarrow> DataHandle \<Rightarrow> string \<Rightarrow> unit node_act" where
  "SetNull k L dh key = set_member TObject dh MakeNull (\<lambda>n. ObjInsert k L n key)"

definition ArrayAppendString :: "DataHandle \<Rightarrow> string \<Rightarrow> unit node_act" where
  "ArrayAppendString dh val = set_member TArray dh (MakeString val) arr_push_back"

definition ArrayAppendInt :: "DataHandle \<Rightarrow> i64 \<Rightarrow> unit node_act" where
  "ArrayAppendInt dh val = set_member TArray dh (MakeInt val) arr_push_back"

definition ArrayAppendFloat :: "DataHandle \<Rightarrow> f64 \<Rightarrow> unit node_act" where
  "ArrayAppendFloat dh val = set_member TArray dh (MakeFloat val) arr_push_back"

definition ArrayAppendBool :: "DataHandle \<Rightarrow> bool \<Rightarrow> unit node_act" where
  "ArrayAppendBool dh val = set_member TArray dh (MakeBool val) arr_push_back"

definition ArrayAppendNull :: "DataHandle \<Rightarrow> unit node_act" where
  "ArrayAppendNull dh = set_member TArray dh MakeNull arr_push_back"

subsection \<open>Text\<close>

text \<open>The tree a recursive reader of a node sees.\<close>

primrec collect :: "('x \<Rightarrow> ('s, 'y) act) \<Rightarrow> 'x list \<Rightarrow> ('s, 'y list) act" where
  "collect f [] = ret []"
| "collect f (x # xs) = seq (f x) (\<lambda>y. seq (collect f xs) (\<lambda>ys. ret (y # ys)))"

primrec read_tree :: "nat \<Rightarrow> addr \<Rightarrow> DataNode node_act" where
  "read_tree 0 a = crash StackOverflow"
| "read_tree (Suc k) a = seq (cell_at a) (\<lambda>c. case payload c of
     NullV \<Rightarrow> ret NullN
   | BoolV b \<Rightarrow> ret (BoolN b)
   | IntV i \<Rightarrow> ret (IntN i)
   | FloatV d \<Rightarrow> ret (FloatN d)
   | StringV s \<Rightarrow> ret (StringN s)
   | ArrayV xs \<Rightarrow> seq (collect (read_tree k) xs) (\<lambda>ts. ret (ArrayN ts))
   | ObjectV m \<Rightarrow> seq (collect (\<lambda>(key, v). read_tree k v) m) (\<lambda>ts. ret (ObjectN (zip (map fst m) ts)))
   | IntMapV m \<Rightarrow> seq (collect (\<lambda>(key, v). read_tree k v) m) (\<lambda>ts. ret (IntMapN (zip (map fst m) ts)))
   | BinaryV bs \<Rightarrow> ret (BinaryN bs))"

text \<open>\<^verbatim>\<open>Serialize\<close> copies at most \<open>maxlen - 1\<close> characters into the buffer and ends them with a NUL:
  its result is what it wrote.\<close>

definition Serialize :: "nat \<Rightarrow> DataHandle \<Rightarrow> nat \<Rightarrow> bool \<Rightarrow> string option node_act" where
  "Serialize k dh maxlen pretty = with_node dh None (\<lambda>n.
     if maxlen = 0 then ret None
     else seq (read_tree k n) (\<lambda>t. ret (Some (take (maxlen - 1) (DataSerializeJson t pretty)))))"

definition SerializeToString :: "nat \<Rightarrow> DataHandle \<Rightarrow> bool \<Rightarrow> string node_act" where
  "SerializeToString k dh pretty = with_node dh '''' (\<lambda>n.
     seq (read_tree k n) (\<lambda>t. ret (DataSerializeJson t pretty)))"

definition CopyNodeForSend :: "nat \<Rightarrow> layouts \<Rightarrow> DataHandle \<Rightarrow> addr node_act" where
  "CopyNodeForSend k L dh = (case node dh of
     None \<Rightarrow> crash NullDeref
   | Some n \<Rightarrow> DeepCopy_at k L n)"

section \<open>Iterators\<close>

datatype IteratorType = ObjectIter | IntMapIter

text \<open>The position stands for the iterator of the hash table: an index into the order of iteration,
  valid as long as the epoch of the node is the one it was made in.\<close>

record DataIterator =
  itype :: IteratorType
  inode :: addr
  iversion :: u32
  ipos :: nat
  iepoch :: nat
  obj_key :: "string option"
  intmap_key :: i64
  ivalue :: "addr option"

definition DataIterator_Create :: "IteratorType \<Rightarrow> DataType \<Rightarrow> addr option \<Rightarrow> DataIterator option node_act" where
  "DataIterator_Create it t n = (case n of
     None \<Rightarrow> ret None
   | Some a \<Rightarrow> seq (cell_at a) (\<lambda>c.
       if type_of (payload c) \<noteq> t then ret None
       else seq (Incref a) (\<lambda>_. ret (Some \<lparr>itype = it, inode = a, iversion = ucast (version c), ipos = 0,
         iepoch = epoch c, obj_key = None, intmap_key = 0, ivalue = None\<rparr>))))"

definition DataIterator_CreateObject :: "addr option \<Rightarrow> DataIterator option node_act" where
  "DataIterator_CreateObject = DataIterator_Create ObjectIter TObject"

definition DataIterator_CreateIntMap :: "addr option \<Rightarrow> DataIterator option node_act" where
  "DataIterator_CreateIntMap = DataIterator_Create IntMapIter TIntMap"

definition DataIterator_delete :: "nat \<Rightarrow> DataIterator \<Rightarrow> unit node_act" where
  "DataIterator_delete k it = Decref k (Some (inode it))"

definition Next :: "DataIterator \<Rightarrow> (bool \<times> DataIterator) node_act" where
  "Next it = seq (cell_at (inode it)) (\<lambda>c.
     if ucast (version c) \<noteq> iversion it then ret (False, it)
     else if epoch c \<noteq> iepoch it then crash BadIterator
     else case (itype it, payload c) of
       (ObjectIter, ObjectV m) \<Rightarrow>
         if length m \<le> ipos it then ret (False, it)
         else ret (True, it\<lparr>obj_key := Some (fst (m ! ipos it)), ivalue := Some (snd (m ! ipos it)),
                ipos := Suc (ipos it)\<rparr>)
     | (IntMapIter, IntMapV m) \<Rightarrow>
         if length m \<le> ipos it then ret (False, it)
         else ret (True, it\<lparr>intmap_key := fst (m ! ipos it), ivalue := Some (snd (m ! ipos it)),
                ipos := Suc (ipos it)\<rparr>)
     | _ \<Rightarrow> crash WrongMember)"

definition ObjectKey :: "DataIterator \<Rightarrow> string" where
  "ObjectKey it = (case obj_key it of None \<Rightarrow> '''' | Some key \<Rightarrow> c_str key)"

definition IntMapKey :: "DataIterator \<Rightarrow> i64" where
  "IntMapKey it = intmap_key it"

end
