(* ===== verification/Json_Parse.thy ===== *)
theory Json_Parse
  imports Heap_Merge
begin

text \<open>
  The JSON parser (\<^verbatim>\<open>od_to_node\<close>, \<^verbatim>\<open>od_to_node_doc\<close> and \<^verbatim>\<open>DataParseJson\<close> of
  \<^verbatim>\<open>src/data/data_node.cpp\<close>).  The text is read by simdjson, a third-party library: what its
  on-demand interface gives for a text is a parameter, and \<open>od_value\<close> is the shape of what it can
  give.  The code walks that value and builds nodes.
\<close>

section \<open>Model\<close>

text \<open>What the calls on an on-demand value return, None where a call reports an error: the kind of the
  value and the result of the getter the code calls for that kind, of the three getters for a number.\<close>

datatype od_value =
    OdError
  | OdNull "bool option"
  | OdBool "bool option"
  | OdNumber "i64 option" "u64 option" "f64 option"
  | OdString "string option"
  | OdArray "od_value option list option"
  | OdObject "(string option \<times> od_value) option list option"

definition kMaxParseDepth :: nat where
  "kMaxParseDepth = 1024"

text \<open>\<^verbatim>\<open>{ DataNode::Decref(node); return nullptr; }\<close>\<close>

definition od_fail :: "nat \<Rightarrow> addr \<Rightarrow> addr option node_act" where
  "od_fail k node = seq (Decref k (Some node)) (\<lambda>_. ret None)"

text \<open>The loops over the elements of an array and the fields of an object; \<open>conv\<close> is the recursive call.\<close>

primrec od_elements :: "nat \<Rightarrow> (od_value \<Rightarrow> addr option node_act) \<Rightarrow> addr \<Rightarrow> od_value option list \<Rightarrow> addr option node_act" where
  "od_elements k conv node [] = ret (Some node)"
| "od_elements k conv node (child # rest) = (case child of
     None \<Rightarrow> od_fail k node
   | Some v \<Rightarrow> seq (conv v) (\<lambda>child_node. case child_node of
       None \<Rightarrow> od_fail k node
     | Some c \<Rightarrow> seq (arr_push_back node c) (\<lambda>_. od_elements k conv node rest)))"

primrec od_fields :: "nat \<Rightarrow> layouts \<Rightarrow> (od_value \<Rightarrow> addr option node_act) \<Rightarrow> addr \<Rightarrow>
    (string option \<times> od_value) option list \<Rightarrow> addr option node_act" where
  "od_fields k L conv node [] = ret (Some node)"
| "od_fields k L conv node (field # rest) = (case field of
     None \<Rightarrow> od_fail k node
   | Some (key, v) \<Rightarrow> (case key of
       None \<Rightarrow> od_fail k node
     | Some kv \<Rightarrow> seq (conv v) (\<lambda>val_node. case val_node of
         None \<Rightarrow> od_fail k node
       | Some c \<Rightarrow> seq (obj_emplace L node kv c) (\<lambda>_. od_fields k L conv node rest))))"

lemma od_elements_cong [fundef_cong]:
  "xs = ys \<Longrightarrow> (\<And>v. Some v \<in> set ys \<Longrightarrow> f v = g v) \<Longrightarrow> od_elements k f node xs = od_elements k g node ys"
  by (induction xs arbitrary: ys) (auto split: option.splits)

lemma od_fields_cong [fundef_cong]:
  "xs = ys \<Longrightarrow> (\<And>key v. Some (key, v) \<in> set ys \<Longrightarrow> f v = g v) \<Longrightarrow> od_fields k L f node xs = od_fields k L g node ys"
proof (induction xs arbitrary: ys)
  case (Cons x xs)
  have "od_fields k L f node xs = od_fields k L g node xs"
    using Cons.IH [of xs] Cons.prems by (metis list.set_intros(2))
  moreover have "f v = g v" if "x = Some (key, v)" for key v
    using Cons.prems(1) that by (intro Cons.prems(2) [of key]) auto
  ultimately show ?case using Cons.prems(1) by (auto split: option.splits)
qed simp

lemma od_element_size: "Some v \<in> set xs \<Longrightarrow> size v < Suc (size_option (size_list (size_option size)) (Some xs))"
  by (induction xs) auto

lemma od_field_size:
  "Some (key, v) \<in> set xs \<Longrightarrow> size v < Suc (size_option (size_list (size_option (size_prod (\<lambda>_. 0) size))) (Some xs))"
  by (induction xs) auto

function od_to_node :: "nat \<Rightarrow> layouts \<Rightarrow> od_value \<Rightarrow> nat \<Rightarrow> addr option node_act" where
  "od_to_node k L val depth =
     (if kMaxParseDepth < depth then ret None
      else case val of
        OdError \<Rightarrow> ret None
      | OdNull r \<Rightarrow> (case r of None \<Rightarrow> ret None | Some b \<Rightarrow> seq MakeNull (\<lambda>n. ret (Some n)))
      | OdBool r \<Rightarrow> (case r of None \<Rightarrow> ret None | Some b \<Rightarrow> seq (MakeBool b) (\<lambda>n. ret (Some n)))
      | OdNumber i u d \<Rightarrow> (case i of
            Some x \<Rightarrow> seq (MakeInt x) (\<lambda>n. ret (Some n))
          | None \<Rightarrow> (case u of
              Some x \<Rightarrow> seq (MakeInt x) (\<lambda>n. ret (Some n))
            | None \<Rightarrow> (case d of None \<Rightarrow> ret None | Some x \<Rightarrow> seq (MakeFloat x) (\<lambda>n. ret (Some n)))))
      | OdString sv \<Rightarrow> (case sv of
            None \<Rightarrow> ret None
          | Some s \<Rightarrow> seq (MakeString_len s (length s)) (\<lambda>n. ret (Some n)))
      | OdArray arr \<Rightarrow> seq MakeArray (\<lambda>node. case arr of
            None \<Rightarrow> od_fail k node
          | Some vs \<Rightarrow> od_elements k (\<lambda>v. od_to_node k L v (depth + 1)) node vs)
      | OdObject obj \<Rightarrow> seq MakeObject (\<lambda>node. case obj of
            None \<Rightarrow> od_fail k node
          | Some fs \<Rightarrow> od_fields k L (\<lambda>v. od_to_node k L v (depth + 1)) node fs))"
  by pat_completeness auto
termination
  by (relation "measure (\<lambda>(k, L, val, depth). size val)")
    (use od_element_size od_field_size in \<open>fastforce+\<close>)

declare od_to_node.simps [simp del]

definition od_to_node_doc :: "nat \<Rightarrow> layouts \<Rightarrow> od_value \<Rightarrow> addr option node_act" where
  "od_to_node_doc k L doc = (case doc of
     OdError \<Rightarrow> ret None
   | OdNull r \<Rightarrow> (case r of
         None \<Rightarrow> ret None
       | Some b \<Rightarrow> if b then seq MakeNull (\<lambda>n. ret (Some n)) else ret None)
   | OdBool r \<Rightarrow> (case r of None \<Rightarrow> ret None | Some b \<Rightarrow> seq (MakeBool b) (\<lambda>n. ret (Some n)))
   | OdNumber i u d \<Rightarrow> (case i of
         Some x \<Rightarrow> seq (MakeInt x) (\<lambda>n. ret (Some n))
       | None \<Rightarrow> (case u of
           Some x \<Rightarrow> seq (MakeInt x) (\<lambda>n. ret (Some n))
         | None \<Rightarrow> (case d of None \<Rightarrow> ret None | Some x \<Rightarrow> seq (MakeFloat x) (\<lambda>n. ret (Some n)))))
   | OdString sv \<Rightarrow> (case sv of
         None \<Rightarrow> ret None
       | Some s \<Rightarrow> seq (MakeString_len s (length s)) (\<lambda>n. ret (Some n)))
   | OdArray arr \<Rightarrow> seq MakeArray (\<lambda>node. case arr of
         None \<Rightarrow> od_fail k node
       | Some vs \<Rightarrow> od_elements k (\<lambda>v. od_to_node k L v 1) node vs)
   | OdObject obj \<Rightarrow> seq MakeObject (\<lambda>node. case obj of
         None \<Rightarrow> od_fail k node
       | Some fs \<Rightarrow> od_fields k L (\<lambda>v. od_to_node k L v 1) node fs))"

text \<open>\<open>iterate\<close> is simdjson: an error message or the document.  The result has the text left in
  \<^verbatim>\<open>error_out\<close>, None where nothing is written to it.\<close>

definition DataParseJson :: "nat \<Rightarrow> layouts \<Rightarrow> (string \<Rightarrow> string + od_value) \<Rightarrow> string \<Rightarrow>
    (addr option \<times> string option) node_act" where
  "DataParseJson k L iterate data =
     (if data = [] then ret (None, None)
      else case iterate data of
        Inl msg \<Rightarrow> ret (None, Some msg)
      | Inr doc \<Rightarrow> seq (od_to_node_doc k L doc) (\<lambda>n. ret (n, None)))"

section \<open>Counts\<close>

definition ptr :: "addr option \<Rightarrow> addr multiset" where
  "ptr r = (case r of None \<Rightarrow> {#} | Some a \<Rightarrow> {#a#})"

lemma ptr_simps [simp]: "ptr None = {#}" "ptr (Some a) = {#a#}"
  by (simp_all add: ptr_def)

text \<open>Nothing but new nodes is written to.\<close>

definition keeps :: "Heap \<Rightarrow> Heap \<Rightarrow> bool" where
  "keeps h h' \<longleftrightarrow> next_addr h \<le> next_addr h'
     \<and> (\<forall>x c'. x < next_addr h \<longrightarrow> cells h' x = Some c' \<longrightarrow> (\<exists>c. cells h x = Some c \<and> same_node c c'))"

lemma keeps_refl [simp]: "keeps h h"
  by (simp add: keeps_def)

lemma keeps_cell: "keeps h h' \<Longrightarrow> x < next_addr h \<Longrightarrow> cells h' x = Some c' \<Longrightarrow> \<exists>c. cells h x = Some c \<and> same_node c c'"
  by (simp add: keeps_def)

lemma keeps_touches:
  assumes "keeps h h1" "touches a h1 h2" "next_addr h \<le> a"
  shows "keeps h h2"
  unfolding keeps_def
proof (intro conjI allI impI)
  show "next_addr h \<le> next_addr h2" using assms(1,2) by (auto simp: keeps_def touches_def)
  fix x c2 assume x: "x < next_addr h" "cells h2 x = Some c2"
  moreover have "x < next_addr h1" "x \<noteq> a" using assms(1,3) x(1) by (auto simp: keeps_def)
  ultimately obtain c1 where c1: "cells h1 x = Some c1" "same_node c1 c2"
    using touches_cell [OF assms(2)] by blast
  with keeps_cell [OF assms(1) x(1) c1(1)] show "\<exists>c. cells h x = Some c \<and> same_node c c2"
    by (auto simp: same_node_def)
qed

lemma keeps_counts_only: "keeps h h1 \<Longrightarrow> counts_only h1 h2 \<Longrightarrow> keeps h h2"
  using keeps_touches [OF _ counts_only_touches order_refl] by blast

lemma keeps_extends: "extends h h' \<Longrightarrow> keeps h h'"
  by (auto simp: extends_def keeps_def)

lemma keeps_trans:
  assumes "keeps h h1" "keeps h1 h2"
  shows "keeps h h2"
  unfolding keeps_def
proof (intro conjI allI impI)
  show "next_addr h \<le> next_addr h2" using assms by (auto simp: keeps_def)
  fix x c2 assume x: "x < next_addr h" "cells h2 x = Some c2"
  moreover have "x < next_addr h1" using assms(1) x(1) by (auto simp: keeps_def)
  ultimately obtain c1 where c1: "cells h1 x = Some c1" "same_node c1 c2"
    using keeps_cell [OF assms(2)] by blast
  with keeps_cell [OF assms(1) x(1) c1(1)] show "\<exists>c. cells h x = Some c \<and> same_node c c2"
    by (auto simp: same_node_def)
qed

lemma keeps_evolves: "keeps h h' \<Longrightarrow> evolves h h'"
  unfolding keeps_def evolves_def same_node_def by metis

text \<open>No object of the value has two fields with the same key.\<close>

definition distinct_fields :: "(string option \<times> od_value) option list \<Rightarrow> bool" where
  "distinct_fields fs \<longleftrightarrow> distinct (concat (map (\<lambda>f. case f of Some (Some key, v) \<Rightarrow> [key] | _ \<Rightarrow> []) fs))"

function unique_keys :: "od_value \<Rightarrow> bool" where
  "unique_keys val = (case val of
     OdArray (Some vs) \<Rightarrow> (\<forall>v \<in> set vs. case v of None \<Rightarrow> True | Some x \<Rightarrow> unique_keys x)
   | OdObject (Some fs) \<Rightarrow> distinct_fields fs \<and> (\<forall>f \<in> set fs. case f of None \<Rightarrow> True | Some (key, x) \<Rightarrow> unique_keys x)
   | _ \<Rightarrow> True)"
  by pat_completeness auto
termination
  by (relation "measure size") (use od_element_size od_field_size in \<open>fastforce+\<close>)

declare unique_keys.simps [simp del]

text \<open>What a conversion does to the counts: its result is a new pointer from outside, and pointers
  \<open>K\<close> may be lost, but not when keys are unique.\<close>

definition lossy :: "nat \<Rightarrow> addr multiset \<Rightarrow> bool \<Rightarrow> addr option \<Rightarrow> Heap \<Rightarrow> bool" where
  "lossy n R unique r h \<longleftrightarrow> (\<exists>K. counted n (R + ptr r + K) h \<and> (unique \<longrightarrow> K = {#}))"

lemma lossy_exact: "counted n (R + ptr r) h \<Longrightarrow> lossy n R u r h"
  unfolding lossy_def by (intro exI [of _ "{#}"]) simp

lemma lossy_add: "lossy n (R + K) u r h \<Longrightarrow> (u' \<Longrightarrow> K = {#} \<and> u) \<Longrightarrow> lossy n R u' r h"
  unfolding lossy_def by (metis add.assoc add.commute empty_neutral(2))

definition converts :: "nat \<Rightarrow> addr option node_act \<Rightarrow> bool \<Rightarrow> bool" where
  "converts n m unique \<longleftrightarrow> (\<forall>R h. counted n R h \<longrightarrow> wp m (\<lambda>r h'. lossy n R unique r h' \<and> keeps h h') h)"

lemma od_fail_ok:
  assumes "counted n (add_mset node R) h" "keeps h0 h"
  shows "wp (od_fail k node) (\<lambda>r h'. lossy n R u r h' \<and> keeps h0 h') h"
  using drop_ok [OF assms(1), of k]
  by (auto simp: od_fail_def elim!: wp_mono intro: keeps_counts_only [OF assms(2)] lossy_exact)

lemma live_keeps:
  assumes "counted n R h" "counted n' R' h'" "a \<in># R" "a \<in># R'" "keeps h h'"
  shows "\<exists>c c'. cells h a = Some c \<and> cells h' a = Some c' \<and> same_node c c'"
proof -
  obtain c c' where "cells h a = Some c" "cells h' a = Some c'"
    using heap_ok_live [OF assms(1,3)] heap_ok_live [OF assms(2,4)] by blast
  with keeps_cell [OF assms(5) heap_okD(2) [OF assms(1)]] show ?thesis by blast
qed

text \<open>The recursive call of a loop, and what comes after it: the node that is being built is still
  there with what it had.\<close>

lemma converts_then:
  assumes "converts n cv u" "counted n (add_mset node R) h" "keeps h0 h" "cells h node = Some c"
    and fail: "\<And>K h1. counted n (add_mset node (R + K)) h1 \<Longrightarrow> keeps h0 h1 \<Longrightarrow> (u \<Longrightarrow> K = {#}) \<Longrightarrow>
      wp (f None) Q h1"
    and go: "\<And>a K h1 c1. counted n (add_mset a (add_mset node (R + K))) h1 \<Longrightarrow> keeps h0 h1 \<Longrightarrow> (u \<Longrightarrow> K = {#}) \<Longrightarrow>
      cells h1 node = Some c1 \<Longrightarrow> same_node c c1 \<Longrightarrow> wp (f (Some a)) Q h1"
  shows "wp (seq cv f) Q h"
proof -
  have "wp cv (\<lambda>r h1. lossy n (add_mset node R) u r h1 \<and> keeps h h1) h"
    using assms(1,2) unfolding converts_def by blast
  then have "wp cv (\<lambda>r. wp (f r) Q) h"
  proof (rule wp_mono)
    fix r h1 assume "lossy n (add_mset node R) u r h1 \<and> keeps h h1"
    then obtain K where K: "counted n (add_mset node (R + K) + ptr r) h1" "u \<longrightarrow> K = {#}" and k1: "keeps h h1"
      by (auto simp: lossy_def ac_simps)
    have k01: "keeps h0 h1" by (rule keeps_trans [OF assms(3) k1])
    show "wp (f r) Q h1"
    proof (cases r)
      case None
      with K fail [OF _ k01] show ?thesis by simp
    next
      case (Some a)
      have K': "counted n (add_mset a (add_mset node (R + K))) h1" using K(1) Some by simp
      obtain c1 where "cells h1 node = Some c1" "same_node c c1"
        using live_keeps [OF assms(2) K' _ _ k1, of node] assms(4) by auto
      with go [OF K' k01] K(2) Some show ?thesis by simp
    qed
  qed
  then show ?thesis by simp
qed

lemma od_elements_ok:
  assumes "counted n (add_mset node R) h" "keeps h0 h" "next_addr h0 \<le> node"
    "cells h node = Some c" "payload c = ArrayV xs"
    "\<And>v. Some v \<in> set vs \<Longrightarrow> converts n (conv v) (U v)"
  shows "wp (od_elements k conv node vs) (\<lambda>r h'. lossy n R (\<forall>v. Some v \<in> set vs \<longrightarrow> U v) r h' \<and> keeps h0 h') h"
  using assms
proof (induction vs arbitrary: R h c xs)
  case Nil
  then show ?case by (auto intro: lossy_exact)
next
  case (Cons x vs)
  let ?u = "\<forall>v. Some v \<in> set (x # vs) \<longrightarrow> U v"
  show ?case
  proof (cases x)
    case None
    with od_fail_ok [OF Cons.prems(1,2), of k] show ?thesis by simp
  next
    case (Some v)
    have conv: "converts n (conv v) (U v)" by (rule Cons.prems(6)) (simp add: Some)
    have "wp (seq (conv v) (\<lambda>r. case r of
        None \<Rightarrow> od_fail k node
      | Some c \<Rightarrow> seq (arr_push_back node c) (\<lambda>_. od_elements k conv node vs)))
      (\<lambda>r h'. lossy n R ?u r h' \<and> keeps h0 h') h"
    proof (rule converts_then [OF conv Cons.prems(1,2,4)])
      fix K h1 assume "counted n (add_mset node (R + K)) h1" "keeps h0 h1" "U v \<Longrightarrow> K = {#}"
      with od_fail_ok [of n node "R + K" h1 h0 k True] Some
      show "wp (case None of None \<Rightarrow> od_fail k node
          | Some c \<Rightarrow> seq (arr_push_back node c) (\<lambda>_. od_elements k conv node vs))
        (\<lambda>r h'. lossy n R ?u r h' \<and> keeps h0 h') h1"
        by (auto elim!: wp_mono intro: lossy_add)
    next
      fix a K h1 c1
      assume i: "counted n (add_mset a (add_mset node (R + K))) h1" "keeps h0 h1" "U v \<Longrightarrow> K = {#}"
        "cells h1 node = Some c1" "same_node c c1"
      have p1: "payload c1 = ArrayV xs" using i(5) Cons.prems(5) by (simp add: same_node_def)
      let ?c = "c1\<lparr>payload := ArrayV (xs @ [a])\<rparr>"
      have "wp (od_elements k conv node vs) (\<lambda>r h'. lossy n R ?u r h' \<and> keeps h0 h') h2"
        if h2: "counted n (add_mset node (R + K)) h2" "h2 = h1\<lparr>cells := (cells h1)(node \<mapsto> ?c)\<rparr>" for h2
      proof -
        have "keeps h0 h2" unfolding h2(2)
          by (rule keeps_touches [OF i(2) touches_update [OF i(4)] Cons.prems(3)]) (simp add: p1)
        from Cons.IH [OF h2(1) this Cons.prems(3), of ?c "xs @ [a]"] h2(2) Cons.prems(6) i(3) Some
        show ?thesis by (auto elim!: wp_mono intro: lossy_add)
      qed
      with arr_push_back_ok [OF i(1,4) p1]
      show "wp (case Some a of None \<Rightarrow> od_fail k node
          | Some c \<Rightarrow> seq (arr_push_back node c) (\<lambda>_. od_elements k conv node vs))
        (\<lambda>r h'. lossy n R ?u r h' \<and> keeps h0 h') h1"
        by (auto elim!: wp_mono)
    qed
    with Some show ?thesis by simp
  qed
qed

abbreviation field_keys :: "(string option \<times> od_value) option list \<Rightarrow> string list" where
  "field_keys fs \<equiv> concat (map (\<lambda>f. case f of Some (Some key, v) \<Rightarrow> [key] | _ \<Rightarrow> []) fs)"

lemma od_fields_ok:
  assumes "counted n (add_mset node R) h" "keeps h0 h" "next_addr h0 \<le> node" "layouts_ok L"
    "cells h node = Some c" "payload c = ObjectV m"
    "\<And>key v. Some (key, v) \<in> set fs \<Longrightarrow> converts n (conv v) (U v)"
  shows "wp (od_fields k L conv node fs) (\<lambda>r h'. lossy n R ((\<forall>key v. Some (key, v) \<in> set fs \<longrightarrow> U v)
    \<and> distinct (map fst m @ field_keys fs)) r h' \<and> keeps h0 h') h"
  using assms
proof (induction fs arbitrary: R h c m)
  case Nil
  then show ?case by (auto intro: lossy_exact)
next
  case (Cons x fs)
  let ?u = "(\<forall>key v. Some (key, v) \<in> set (x # fs) \<longrightarrow> U v) \<and> distinct (map fst m @ field_keys (x # fs))"
  show ?case
  proof (cases "\<exists>key v. x = Some (Some key, v)")
    case False
    with od_fail_ok [OF Cons.prems(1,2), of k] show ?thesis by (cases x) (auto split: option.splits)
  next
    case True
    then obtain key v where x: "x = Some (Some key, v)" by blast
    have conv: "converts n (conv v) (U v)" by (rule Cons.prems(7) [of "Some key"]) (simp add: x)
    have "wp (seq (conv v) (\<lambda>r. case r of
        None \<Rightarrow> od_fail k node
      | Some c \<Rightarrow> seq (obj_emplace L node key c) (\<lambda>_. od_fields k L conv node fs)))
      (\<lambda>r h'. lossy n R ?u r h' \<and> keeps h0 h') h"
    proof (rule converts_then [OF conv Cons.prems(1,2,5)])
      fix K h1 assume "counted n (add_mset node (R + K)) h1" "keeps h0 h1" "U v \<Longrightarrow> K = {#}"
      with od_fail_ok [of n node "R + K" h1 h0 k True] x
      show "wp (case None of None \<Rightarrow> od_fail k node
          | Some c \<Rightarrow> seq (obj_emplace L node key c) (\<lambda>_. od_fields k L conv node fs))
        (\<lambda>r h'. lossy n R ?u r h' \<and> keeps h0 h') h1"
        by (auto elim!: wp_mono intro: lossy_add)
    next
      fix a K h1 c1
      assume i: "counted n (add_mset a (add_mset node (R + K))) h1" "keeps h0 h1" "U v \<Longrightarrow> K = {#}"
        "cells h1 node = Some c1" "same_node c c1"
      have p1: "payload c1 = ObjectV m" using i(5) Cons.prems(6) by (simp add: same_node_def)
      show "wp (case Some a of None \<Rightarrow> od_fail k node
          | Some c \<Rightarrow> seq (obj_emplace L node key c) (\<lambda>_. od_fields k L conv node fs))
        (\<lambda>r h'. lossy n R ?u r h' \<and> keeps h0 h') h1"
      proof (cases "map_of m key")
        case (Some old)
        then have "key \<in> set (map fst m)" by (force dest: map_of_SomeD)
        then have nu: "\<not> ?u" using x by auto
        have "counted n (add_mset node (R + add_mset a K)) h1" using i(1) by (simp add: add_mset_commute)
        then have "wp (od_fields k L conv node fs) (\<lambda>r h'. lossy n R ?u r h' \<and> keeps h0 h') h1"
        proof (rule wp_mono [OF Cons.IH [OF _ i(2) Cons.prems(3,4) i(4) p1 Cons.prems(7)]])
          show "Some (key', v') \<in> set fs \<Longrightarrow> Some (key', v') \<in> set (x # fs)" for key' v' by simp
        qed (intro conjI, rule lossy_add, erule conjunct1, rule notE [OF nu], assumption, erule conjunct2)
        with om.emp_old [OF i(4) p1] Some show ?thesis by (simp add: wp_Done)
      next
        case None
        let ?m = "map_put (str_layout L) key a m"
        let ?c = "c1\<lparr>payload := ObjectV ?m, epoch := Suc (epoch c1)\<rparr>"
        have lay: "layout_ok (str_layout L)" using Cons.prems(4) by (simp add: layouts_ok_def)
        have d: "distinct (map fst m)" by (rule om.con_distinct [OF i(1,4) p1])
        have keys: "distinct (map fst ?m @ field_keys fs)" if ?u
        proof -
          have "mset (map fst ?m @ field_keys fs) = mset (map fst m @ field_keys (x # fs))"
            using map_put_mset [OF lay d, of key a] None x by (simp add: map_of_eq_None_iff)
          with that show ?thesis by (metis mset_eq_imp_distinct_iff)
        qed
        have "U v" if ?u using that x by (metis list.set_intros(1))
        then have goes: "K = {#} \<and> (\<forall>key v. Some (key, v) \<in> set fs \<longrightarrow> U v) \<and> distinct (map fst ?m @ field_keys fs)"
          if ?u using that keys i(3) by (meson list.set_intros(2))
        have "wp (od_fields k L conv node fs) (\<lambda>r h'. lossy n R ?u r h' \<and> keeps h0 h') h2"
          if h2: "counted n (add_mset node (R + K)) h2" "h2 = h1\<lparr>cells := (cells h1)(node \<mapsto> ?c)\<rparr>" for h2
        proof -
          have k2: "keeps h0 h2" unfolding h2(2)
            by (rule keeps_touches [OF i(2) touches_update [OF i(4)] Cons.prems(3)]) (simp add: p1)
          have c2: "cells h2 node = Some ?c" "payload ?c = ObjectV ?m" by (simp_all add: h2(2))
          show ?thesis
          proof (rule wp_mono [OF Cons.IH [OF h2(1) k2 Cons.prems(3,4) c2 Cons.prems(7)]])
            show "Some (key', v') \<in> set fs \<Longrightarrow> Some (key', v') \<in> set (x # fs)" for key' v' by simp
          qed (intro conjI, rule lossy_add, erule conjunct1, erule goes, erule conjunct2)
        qed
        with om.emp_ok [OF i(1,4) p1 _ None Cons.prems(4)] show ?thesis
          by (auto elim!: wp_mono)
      qed
    qed
    with x show ?thesis by simp
  qed
qed

lemma converts_null [simp]: "converts n (ret None) u"
  by (auto simp: converts_def intro: lossy_exact)

lemma converts_leaf:
  assumes "1 \<le> n" "children p = []" "payload_ok p"
  shows "converts n (seq (new_node p) (\<lambda>a. ret (Some a))) u"
  unfolding converts_def
proof (intro allI impI)
  fix R h assume h: "counted n R h"
  from wp_new_node [OF h assms] show "wp (seq (new_node p) (\<lambda>a. ret (Some a))) (\<lambda>r h'. lossy n R u r h' \<and> keeps h h') h"
    by (auto elim!: wp_mono intro: lossy_exact keeps_extends)
qed

text \<open>A container is made, and filled by a loop.\<close>

lemma converts_container:
  assumes "1 \<le> n" "children p = []" "payload_ok p"
    and loop: "\<And>R h0 h node c. counted n (add_mset node R) h \<Longrightarrow> keeps h0 h \<Longrightarrow> next_addr h0 \<le> node \<Longrightarrow>
      cells h node = Some c \<Longrightarrow> payload c = p \<Longrightarrow> wp (f node) (\<lambda>r h'. lossy n R u r h' \<and> keeps h0 h') h"
  shows "converts n (seq (new_node p) f) u"
  unfolding converts_def
proof (intro allI impI)
  fix R h assume h: "counted n R h"
  from wp_new_node [OF h assms(1-3)] show "wp (seq (new_node p) f) (\<lambda>r h'. lossy n R u r h' \<and> keeps h h') h"
    by (auto elim!: wp_mono intro!: loop keeps_extends)
qed

lemma converts_array:
  assumes "1 \<le> n" "\<And>vs v. arr = Some vs \<Longrightarrow> Some v \<in> set vs \<Longrightarrow> converts n (conv v) (unique_keys v)"
  shows "converts n (seq MakeArray (\<lambda>node. case arr of
      None \<Rightarrow> od_fail k node
    | Some vs \<Rightarrow> od_elements k conv node vs)) (unique_keys (OdArray arr))"
  unfolding MakeArray_def
proof (rule converts_container [OF assms(1)])
  fix R h0 h node c
  assume i: "counted n (add_mset node R) h" "keeps h0 h" "next_addr h0 \<le> node"
    "cells h node = Some c" "payload c = ArrayV []"
  show "wp (case arr of None \<Rightarrow> od_fail k node | Some vs \<Rightarrow> od_elements k conv node vs)
    (\<lambda>r h'. lossy n R (unique_keys (OdArray arr)) r h' \<and> keeps h0 h') h"
  proof (cases arr)
    case (Some vs)
    have "unique_keys (OdArray arr) \<longleftrightarrow> (\<forall>v. Some v \<in> set vs \<longrightarrow> unique_keys v)"
      by (subst unique_keys.simps) (auto simp: Some split: option.splits)
    then show ?thesis using od_elements_ok [OF i, of vs conv unique_keys k] assms(2) Some by simp
  qed (simp add: od_fail_ok [OF i(1,2)])
qed simp_all

lemma converts_object:
  assumes "1 \<le> n" "layouts_ok L"
    "\<And>fs key v. obj = Some fs \<Longrightarrow> Some (key, v) \<in> set fs \<Longrightarrow> converts n (conv v) (unique_keys v)"
  shows "converts n (seq MakeObject (\<lambda>node. case obj of
      None \<Rightarrow> od_fail k node
    | Some fs \<Rightarrow> od_fields k L conv node fs)) (unique_keys (OdObject obj))"
  unfolding MakeObject_def
proof (rule converts_container [OF assms(1)])
  fix R h0 h node c
  assume i: "counted n (add_mset node R) h" "keeps h0 h" "next_addr h0 \<le> node"
    "cells h node = Some c" "payload c = ObjectV []"
  show "wp (case obj of None \<Rightarrow> od_fail k node | Some fs \<Rightarrow> od_fields k L conv node fs)
    (\<lambda>r h'. lossy n R (unique_keys (OdObject obj)) r h' \<and> keeps h0 h') h"
  proof (cases obj)
    case (Some fs)
    have "unique_keys (OdObject obj) \<longleftrightarrow> (\<forall>key v. Some (key, v) \<in> set fs \<longrightarrow> unique_keys v)
        \<and> distinct (map fst ([] :: (string \<times> addr) list) @ field_keys fs)"
      by (subst unique_keys.simps) (auto simp: Some distinct_fields_def split: option.splits)
    then show ?thesis using od_fields_ok [OF i(1-3) assms(2) i(4,5), of fs conv unique_keys k] assms(3) Some
      by (simp only: option.case)
  qed (simp add: od_fail_ok [OF i(1,2)])
qed simp_all

lemma od_to_node_converts:
  assumes "1 \<le> n" "layouts_ok L"
  shows "converts n (od_to_node k L val depth) (unique_keys val)"
  using assms(2)
proof (induction k L val depth rule: od_to_node.induct)
  case (1 k L val depth)
  note leaf = converts_leaf [OF assms(1)]
  show ?case
  proof (cases "kMaxParseDepth < depth")
    case False
    show ?thesis
    proof (cases val)
      case (OdArray arr)
      have "converts n (seq MakeArray (\<lambda>node. case arr of None \<Rightarrow> od_fail k node
          | Some vs \<Rightarrow> od_elements k (\<lambda>v. od_to_node k L v (depth + 1)) node vs)) (unique_keys (OdArray arr))"
        using "1.IH"(1) [OF False OdArray _ _ "1.prems"] by (intro converts_array [OF assms(1)])
      then show ?thesis using False OdArray by (subst od_to_node.simps) simp
    next
      case (OdObject obj)
      have "converts n (seq MakeObject (\<lambda>node. case obj of None \<Rightarrow> od_fail k node
          | Some fs \<Rightarrow> od_fields k L (\<lambda>v. od_to_node k L v (depth + 1)) node fs)) (unique_keys (OdObject obj))"
        using "1.IH"(2) [OF False OdObject _ _ "1.prems"] by (intro converts_object [OF assms(1) "1.prems"])
      then show ?thesis using False OdObject by (subst od_to_node.simps) simp
    qed (use False in \<open>subst od_to_node.simps; simp add: make_defs leaf split: option.split\<close>)+
  qed (subst od_to_node.simps, simp)
qed

lemma od_to_node_doc_converts:
  assumes "1 \<le> n" "layouts_ok L"
  shows "converts n (od_to_node_doc k L doc) (unique_keys doc)"
proof -
  note sub = od_to_node_converts [OF assms] and leaf = converts_leaf [OF assms(1)]
  show ?thesis
  proof (cases doc)
    case (OdArray arr)
    have "converts n (seq MakeArray (\<lambda>node. case arr of None \<Rightarrow> od_fail k node
        | Some vs \<Rightarrow> od_elements k (\<lambda>v. od_to_node k L v 1) node vs)) (unique_keys (OdArray arr))"
      by (rule converts_array [OF assms(1) sub])
    with OdArray show ?thesis by (simp add: od_to_node_doc_def)
  next
    case (OdObject obj)
    have "converts n (seq MakeObject (\<lambda>node. case obj of None \<Rightarrow> od_fail k node
        | Some fs \<Rightarrow> od_fields k L (\<lambda>v. od_to_node k L v 1) node fs)) (unique_keys (OdObject obj))"
      by (rule converts_object [OF assms sub])
    with OdObject show ?thesis by (simp add: od_to_node_doc_def)
  qed (simp_all add: od_to_node_doc_def make_defs leaf split: option.split)
qed

text \<open>The counts after parsing a text: exact when no object in the text has a repeated key; the
  nodes of a repeated key are lost otherwise.\<close>

lemma DataParseJson_ok:
  assumes "counted n R h" "1 \<le> n" "layouts_ok L"
  shows "wp (DataParseJson k L iterate data) (\<lambda>(r, e) h'.
    lossy n R (\<forall>doc. iterate data = Inr doc \<longrightarrow> unique_keys doc) r h' \<and> keeps h h') h"
proof (cases "data = [] \<or> (\<exists>msg. iterate data = Inl msg)")
  case True
  with assms(1) lossy_exact [of n R None h] show ?thesis by (auto simp: DataParseJson_def)
next
  case False
  then obtain doc where doc: "data \<noteq> []" "iterate data = Inr doc" by (cases "iterate data") auto
  have "wp (od_to_node_doc k L doc) (\<lambda>r h'. lossy n R (unique_keys doc) r h' \<and> keeps h h') h"
    using od_to_node_doc_converts [OF assms(2,3)] assms(1) unfolding converts_def by blast
  with doc show ?thesis by (auto simp: DataParseJson_def elim!: wp_mono)
qed

end
