(* ===== verification/Heap_Moves.thy ===== *)
theory Heap_Moves
  imports Data_Handle Json_Parse
begin

text \<open>
  What an operation can do to a node as an iterator over it sees it: nothing, or one change that the
  version counts.  The merges are the exception, since they change a map and leave its version as
  it is.
\<close>

section \<open>Changes and versions\<close>

definition tick :: "Cell \<Rightarrow> Cell \<Rightarrow> bool" where
  "tick c c' \<longleftrightarrow> type_of (payload c') = type_of (payload c)
     \<and> (type_of (payload c) \<in> {TObject, TIntMap} \<longrightarrow> same_node c c' \<or> version c' = version c + 1)"

text \<open>All nodes that stay keep their types, and all but the ones in \<open>X\<close> change by at most one tick.\<close>

definition moves :: "addr set \<Rightarrow> Heap \<Rightarrow> Heap \<Rightarrow> bool" where
  "moves X h h' \<longleftrightarrow> next_addr h \<le> next_addr h'
     \<and> (\<forall>x c'. x < next_addr h \<longrightarrow> cells h' x = Some c' \<longrightarrow>
          (\<exists>c. cells h x = Some c \<and> type_of (payload c') = type_of (payload c) \<and> (x \<notin> X \<longrightarrow> tick c c')))"

lemma same_node_type: "same_node c d \<Longrightarrow> type_of (payload d) = type_of (payload c)"
  by (simp add: same_node_def)

lemma tick_same: "same_node c c' \<Longrightarrow> tick c c'"
  by (simp add: tick_def same_node_def)

lemma tick_bumped: "type_of (payload c') = type_of (payload c) \<Longrightarrow> version c' = version c + 1 \<Longrightarrow> tick c c'"
  by (simp add: tick_def)

lemma same_node_trans: "same_node c d \<Longrightarrow> same_node d e \<Longrightarrow> same_node c e"
  by (simp add: same_node_def)

lemma tick_then_same: "tick c d \<Longrightarrow> same_node d e \<Longrightarrow> tick c e"
  by (auto simp: tick_def same_node_def)

lemma same_then_tick: "same_node c d \<Longrightarrow> tick d e \<Longrightarrow> tick c e"
  by (auto simp: tick_def same_node_def)

lemma movesD:
  "moves X h h' \<Longrightarrow> x < next_addr h \<Longrightarrow> cells h' x = Some c' \<Longrightarrow>
    \<exists>c. cells h x = Some c \<and> type_of (payload c') = type_of (payload c) \<and> (x \<notin> X \<longrightarrow> tick c c')"
  by (simp add: moves_def)

lemma keeps_moves: "keeps h h' \<Longrightarrow> moves X h h'"
  unfolding moves_def
proof (intro conjI allI impI)
  assume k: "keeps h h'"
  then show "next_addr h \<le> next_addr h'" by (simp add: keeps_def)
  fix x c' assume "x < next_addr h" "cells h' x = Some c'"
  from keeps_cell [OF k this] obtain c where "cells h x = Some c" "same_node c c'" by blast
  then show "\<exists>c. cells h x = Some c \<and> type_of (payload c') = type_of (payload c) \<and> (x \<notin> X \<longrightarrow> tick c c')"
    by (simp add: same_node_type tick_same)
qed

lemma moves_refl [simp]: "moves X h h"
  by (simp add: keeps_moves)

lemma counts_only_keeps: "counts_only h h' \<Longrightarrow> keeps h h'"
  by (rule keeps_counts_only [OF keeps_refl])

lemma moves_keeps:
  assumes "moves X h h1" "keeps h1 h2"
  shows "moves X h h2"
  unfolding moves_def
proof (intro conjI allI impI)
  show "next_addr h \<le> next_addr h2" using assms by (simp add: moves_def keeps_def)
  fix x c2 assume x: "x < next_addr h" "cells h2 x = Some c2"
  with assms have "x < next_addr h1" by (simp add: moves_def)
  from keeps_cell [OF assms(2) this x(2)] obtain c1 where c1: "cells h1 x = Some c1" "same_node c1 c2" by blast
  with movesD [OF assms(1) x(1) c1(1)] show
    "\<exists>c. cells h x = Some c \<and> type_of (payload c2) = type_of (payload c) \<and> (x \<notin> X \<longrightarrow> tick c c2)"
    by (metis same_node_type tick_then_same)
qed

lemma keeps_then_moves:
  assumes "keeps h h1" "moves X h1 h2"
  shows "moves X h h2"
  unfolding moves_def
proof (intro conjI allI impI)
  show "next_addr h \<le> next_addr h2" using assms by (simp add: moves_def keeps_def)
  fix x c2 assume x: "x < next_addr h" "cells h2 x = Some c2"
  with assms have "x < next_addr h1" by (simp add: keeps_def)
  from movesD [OF assms(2) this x(2)] obtain c1 where c1: "cells h1 x = Some c1"
    "type_of (payload c2) = type_of (payload c1)" "x \<notin> X \<longrightarrow> tick c1 c2" by blast
  from keeps_cell [OF assms(1) x(1) c1(1)] c1 show
    "\<exists>c. cells h x = Some c \<and> type_of (payload c2) = type_of (payload c) \<and> (x \<notin> X \<longrightarrow> tick c c2)"
    by (metis same_node_type same_then_tick)
qed

lemma moves_mono: "moves X h h' \<Longrightarrow> X \<subseteq> Y \<Longrightarrow> moves Y h h'"
  by (fastforce simp: moves_def)

lemma touches_moves: "touches a h h' \<Longrightarrow> moves {a} h h'"
  by (fastforce simp: touches_def moves_def tick_same)

text \<open>The node that changes ticks, too.\<close>

lemma touches_tick:
  assumes "touches a h h'" "cells h a = Some c" "\<And>c'. cells h' a = Some c' \<Longrightarrow> tick c c'"
  shows "moves {} h h'"
  unfolding moves_def
proof (intro conjI allI impI)
  show "next_addr h \<le> next_addr h'" using assms by (simp add: touches_def)
  fix x c' assume "x < next_addr h" "cells h' x = Some c'"
  with assms(1) obtain d where "cells h x = Some d" "x \<noteq> a \<longrightarrow> same_node d c'"
    "type_of (payload c') = type_of (payload d)" by (auto simp: touches_def)
  with assms(2,3) \<open>cells h' x = Some c'\<close> show
    "\<exists>c. cells h x = Some c \<and> type_of (payload c') = type_of (payload c) \<and> (x \<notin> {} \<longrightarrow> tick c c')"
    by (cases "x = a") (auto intro: tick_same)
qed

text \<open>The change of an array is none that an iterator could see.\<close>

lemma touches_array:
  assumes "touches a h h'" "cells h a = Some c" "type_of (payload c) \<notin> {TObject, TIntMap}" "a < next_addr h"
  shows "moves {} h h'"
proof (rule touches_tick [OF assms(1,2)])
  fix c' assume "cells h' a = Some c'"
  with assms show "tick c c'" by (auto simp: touches_def tick_def)
qed

section \<open>Operations\<close>

text \<open>An operation on a node that is held, which leaves the counts exact.\<close>

definition mutates :: "nat \<Rightarrow> addr \<Rightarrow> 'a node_act \<Rightarrow> bool" where
  "mutates n a m \<longleftrightarrow> (\<forall>R h. counted n R h \<longrightarrow> a \<in># R \<longrightarrow> wp m (\<lambda>_ h'. counted n R h' \<and> moves {} h h') h)"

text \<open>An operation that takes over a pointer.\<close>

definition takes :: "nat \<Rightarrow> addr \<Rightarrow> addr \<Rightarrow> unit node_act \<Rightarrow> bool" where
  "takes n a v m \<longleftrightarrow> (\<forall>R h. counted n (add_mset v R) h \<longrightarrow> a \<in># R \<longrightarrow>
     wp m (\<lambda>_ h'. counted n R h' \<and> moves {} h h') h)"

lemma held: "counted n R h \<Longrightarrow> a \<in># R \<Longrightarrow> \<exists>c. cells h a = Some c \<and> a < next_addr h"
  by (meson heap_ok_live heap_okD(2))

lemma drop_moves: "counted n (add_mset v R) h \<Longrightarrow> wp (Decref k (Some v)) (\<lambda>_ h'. counted n R h' \<and> moves {} h h') h"
  by (rule wp_mono [OF drop_ok]) (auto intro: keeps_moves counts_only_keeps)

context node_map
begin

lemma ins_takes:
  assumes "layouts_ok L"
  shows "takes n a v (ins k L a key v)"
  unfolding takes_def
proof (intro allI impI)
  fix R h assume pre: "counted n (add_mset v R) h" "a \<in># R"
  then obtain c where c: "cells h a = Some c" using heap_ok_live by fastforce
  show "wp (ins k L a key v) (\<lambda>_ h'. counted n R h' \<and> moves {} h h') h"
  proof (cases "\<exists>m. payload c = con m")
    case True
    then obtain m where m: "payload c = con m" by blast
    show ?thesis
    proof (rule wp_mono [OF ins_ok [OF pre c assms]], elim conjE)
      fix h' assume "counted n R h'" "touches a h h'" "\<forall>m. payload c = con m \<longrightarrow>
        (\<exists>c'. cells h' a = Some c' \<and> same_node (inserted L key v m c) c')"
      with m have "moves {} h h'"
        by (auto intro!: touches_tick [OF _ c] tick_bumped con_types simp: same_node_def inserted_def)
      with \<open>counted n R h'\<close> show "counted n R h' \<and> moves {} h h'" by blast
    qed
  next
    case False
    then have "ins k L a key v h = Decref k (Some v) h" using ins_other [OF c] by blast
    then show ?thesis by (rule wp_by [OF _ drop_moves [OF pre(1)]])
  qed
qed

lemma del_mutates:
  assumes "layouts_ok L"
  shows "mutates n a (del k L a key)"
  unfolding mutates_def
proof (intro allI impI)
  fix R h assume pre: "counted n R h" "a \<in># R"
  then obtain c where c: "cells h a = Some c" using heap_ok_live by fastforce
  show "wp (del k L a key) (\<lambda>_ h'. counted n R h' \<and> moves {} h h') h"
  proof (cases "\<exists>m. payload c = con m \<and> map_of m key \<noteq> None")
    case True
    then obtain m where m: "payload c = con m" "map_of m key \<noteq> None" by blast
    show ?thesis
    proof (rule wp_mono [OF del_ok [OF pre c assms]], elim conjE)
      fix b h' assume "counted n R h'" "touches a h h'" and *: "\<forall>m. payload c = con m \<longrightarrow>
        b = (map_of m key \<noteq> None) \<and> (b \<longrightarrow> (\<exists>c'. cells h' a = Some c' \<and> same_node (c\<lparr>version := version c + 1,
          payload := con (map_del (lay L) key m), epoch := Suc (epoch c)\<rparr>) c'))"
      from * [rule_format, OF m(1)] m \<open>touches a h h'\<close> have "moves {} h h'"
        by (auto intro!: touches_tick [OF _ c] tick_bumped con_types simp: same_node_def)
      with \<open>counted n R h'\<close> show "counted n R h' \<and> moves {} h h'" by blast
    qed
  next
    case False
    then have "del k L a key h = Done (False, h)"
      using del_other [OF c] del_con [OF c] by (cases "\<exists>m. payload c = con m") auto
    with pre show ?thesis by (simp add: wp_def)
  qed
qed

lemma clr_mutates: "mutates n a (clr k a)"
  unfolding mutates_def
proof (intro allI impI)
  fix R h assume pre: "counted n R h" "a \<in># R"
  then obtain c where c: "cells h a = Some c" using heap_ok_live by fastforce
  show "wp (clr k a) (\<lambda>_ h'. counted n R h' \<and> moves {} h h') h"
  proof (cases "\<exists>m. payload c = con m")
    case True
    then obtain m where m: "payload c = con m" by blast
    show ?thesis
    proof (rule wp_mono [OF clr_ok [OF pre c]], elim conjE)
      fix h' assume "counted n R h'" "touches a h h'" "\<forall>m. payload c = con m \<longrightarrow> (\<exists>c'. cells h' a = Some c'
        \<and> same_node (c\<lparr>version := version c + 1, payload := con [], epoch := Suc (epoch c)\<rparr>) c')"
      with m have "moves {} h h'"
        by (auto intro!: touches_tick [OF _ c] tick_bumped con_types simp: same_node_def)
      with \<open>counted n R h'\<close> show "counted n R h' \<and> moves {} h h'" by blast
    qed
  next
    case False
    with clr_other [OF c] pre show ?thesis by (simp add: wp_def)
  qed
qed

end

subsection \<open>Arrays\<close>

lemma not_array_ArrRemove: "cells h a = Some c \<Longrightarrow> \<forall>xs. payload c \<noteq> ArrayV xs \<Longrightarrow> ArrRemove k a i h = Done (False, h)"
  by (cases "payload c") (auto simp: ArrRemove_def cell_at_def seq_def)

lemma not_array_ArrSet: "cells h a = Some c \<Longrightarrow> \<forall>xs. payload c \<noteq> ArrayV xs \<Longrightarrow> ArrSet k a i v h = Decref k (Some v) h"
  by (cases "payload c") (auto simp: ArrSet_def cell_at_def seq_def)

lemma not_array_ArrClear: "cells h a = Some c \<Longrightarrow> \<forall>xs. payload c \<noteq> ArrayV xs \<Longrightarrow> ArrClear k a h = Done ((), h)"
  by (cases "payload c") (auto simp: ArrClear_def cell_at_def seq_def)

lemma array_moves:
  assumes "touches a h h'" "cells h a = Some c" "payload c = ArrayV xs" "a < next_addr h"
  shows "moves {} h h'"
  using touches_array [OF assms(1,2) _ assms(4)] assms(3) by simp

lemma ArrRemove_mutates: "mutates n a (ArrRemove k a i)"
  unfolding mutates_def
proof (intro allI impI)
  fix R h assume pre: "counted n R h" "a \<in># R"
  from held [OF this] obtain c where c: "cells h a = Some c" "a < next_addr h" by blast
  show "wp (ArrRemove k a i) (\<lambda>_ h'. counted n R h' \<and> moves {} h h') h"
  proof (cases "\<exists>xs. payload c = ArrayV xs")
    case True
    then show ?thesis by (auto intro!: wp_mono [OF ArrRemove_ok [OF pre c(1)]] array_moves [OF _ c(1) _ c(2)])
  next
    case False
    with not_array_ArrRemove [OF c(1)] pre show ?thesis by (simp add: wp_def)
  qed
qed

lemma ArrClear_mutates: "mutates n a (ArrClear k a)"
  unfolding mutates_def
proof (intro allI impI)
  fix R h assume pre: "counted n R h" "a \<in># R"
  from held [OF this] obtain c where c: "cells h a = Some c" "a < next_addr h" by blast
  show "wp (ArrClear k a) (\<lambda>_ h'. counted n R h' \<and> moves {} h h') h"
  proof (cases "\<exists>xs. payload c = ArrayV xs")
    case True
    then show ?thesis by (auto intro!: wp_mono [OF ArrClear_ok [OF pre c(1)]] array_moves [OF _ c(1) _ c(2)])
  next
    case False
    with not_array_ArrClear [OF c(1)] pre show ?thesis by (simp add: wp_def)
  qed
qed

lemma ArrSet_takes: "takes n a v (ArrSet k a i v)"
  unfolding takes_def
proof (intro allI impI)
  fix R h assume pre: "counted n (add_mset v R) h" "a \<in># R"
  with held [OF pre(1)] obtain c where c: "cells h a = Some c" "a < next_addr h" by auto
  show "wp (ArrSet k a i v) (\<lambda>_ h'. counted n R h' \<and> moves {} h h') h"
  proof (cases "\<exists>xs. payload c = ArrayV xs")
    case True
    then show ?thesis by (auto intro!: wp_mono [OF ArrSet_ok [OF pre c(1)]] array_moves [OF _ c(1) _ c(2)])
  next
    case False
    then have "ArrSet k a i v h = Decref k (Some v) h" using not_array_ArrSet [OF c(1)] by blast
    then show ?thesis by (rule wp_by [OF _ drop_moves [OF pre(1)]])
  qed
qed

lemma push_back_takes:
  assumes "counted n (add_mset v R) h" "a \<in># R" "cells h a = Some c" "type_of (payload c) = TArray"
  shows "wp (arr_push_back a v) (\<lambda>_ h'. counted n R h' \<and> moves {} h h') h"
proof -
  from assms(4) obtain xs where xs: "payload c = ArrayV xs" by (cases "payload c") auto
  have "a < next_addr h" using heap_okD(2) [OF assms(1,3)] .
  then show ?thesis
    by (auto intro!: wp_mono [OF arr_push_back_ok [OF assms(1,3) xs]] array_moves [OF _ assms(3) xs] touches_update
        simp: assms(3) xs)
qed

lemma ArrExtend_moves:
  assumes "counted n R h" "1 \<le> n" "a \<in># R" "b \<in># R" "a \<noteq> b" "layouts_ok L"
  shows "wp (ArrExtend k L a (Some b)) (\<lambda>_ h'. counted n R h' \<and> moves {} h h') h"
proof -
  from held [OF assms(1,3)] obtain c where c: "cells h a = Some c" "a < next_addr h" by blast
  show ?thesis
  proof (cases "\<exists>xs. payload c = ArrayV xs")
    case True
    then show ?thesis
      by (auto intro!: wp_mono [OF ArrExtend_ok [OF assms]] array_moves [OF _ c(1) _ c(2)])
  next
    case False
    with c assms(1) show ?thesis
      by (cases "payload c") (auto simp: ArrExtend_def wp_cell_at)
  qed
qed

section \<open>Setters\<close>

lemma wp_new_leaf:
  assumes "counted n R h" "1 \<le> n" "children p = []" "payload_ok p"
  shows "wp (new_node p) (\<lambda>a h'. counted n (add_mset a R) h' \<and> keeps h h') h"
  by (rule wp_mono [OF wp_new_node [OF assms]]) (auto intro: keeps_extends)

lemma make_then:
  assumes "counted n R h" "1 \<le> n" "children p = []" "payload_ok p" "a \<in># R" "\<And>v. takes n a v (put v)"
  shows "wp (seq (new_node p) put) (\<lambda>_ h'. counted n R h' \<and> moves {} h h') h"
  unfolding wp_seq
proof (rule wp_mono [OF wp_new_leaf [OF assms(1-4)]])
  fix v h1 assume h1: "counted n (add_mset v R) h1 \<and> keeps h h1"
  with assms(5,6) have "wp (put v) (\<lambda>_ h'. counted n R h' \<and> moves {} h1 h') h1" by (auto simp: takes_def)
  with h1 show "wp (put v) (\<lambda>_ h'. counted n R h' \<and> moves {} h h') h1"
    by (auto elim!: wp_mono intro: keeps_then_moves)
qed

lemma set_member_mutates:
  assumes "1 \<le> n" "children p = []" "payload_ok p" "\<And>v. takes n a v (put a v)"
  shows "mutates n a (set_member t \<lparr>node = Some a\<rparr> (new_node p) put)"
  unfolding mutates_def
proof (intro allI impI)
  fix R h assume pre: "counted n R h" "a \<in># R"
  then obtain c where "cells h a = Some c" using heap_ok_live by fastforce
  with pre make_then [OF pre(1) assms(1-3) pre(2) assms(4)]
  show "wp (set_member t \<lparr>node = Some a\<rparr> (new_node p) put) (\<lambda>_ h'. counted n R h' \<and> moves {} h h') h"
    by (simp add: set_member_def with_node_def wp_cell_at del: wp_seq) (simp add: wp_cell_at)
qed

lemma append_mutates:
  assumes "1 \<le> n" "children p = []" "payload_ok p"
  shows "mutates n a (set_member TArray \<lparr>node = Some a\<rparr> (new_node p) arr_push_back)"
  unfolding mutates_def
proof (intro allI impI)
  fix R h assume pre: "counted n R h" "a \<in># R"
  then obtain c where c: "cells h a = Some c" using heap_ok_live by fastforce
  have "wp (new_node p) (\<lambda>v. wp (arr_push_back a v) (\<lambda>_ h'. counted n R h' \<and> moves {} h h')) h"
    if "type_of (payload c) = TArray"
  proof (rule wp_mono [OF wp_new_leaf [OF pre(1) assms]], elim conjE)
    fix v h1 assume h1: "counted n (add_mset v R) h1" "keeps h h1"
    with live_keeps [OF pre(1) h1(1) pre(2)] pre(2) c obtain c1 where c1: "cells h1 a = Some c1" "same_node c c1"
      by auto
    with that have "type_of (payload c1) = TArray" by (simp add: same_node_def)
    from push_back_takes [OF h1(1) pre(2) c1(1) this] h1(2)
    show "wp (arr_push_back a v) (\<lambda>_ h'. counted n R h' \<and> moves {} h h') h1"
      by (auto elim!: wp_mono intro: keeps_then_moves)
  qed
  with c pre show "wp (set_member TArray \<lparr>node = Some a\<rparr> (new_node p) arr_push_back)
      (\<lambda>_ h'. counted n R h' \<and> moves {} h h') h"
    by (simp add: set_member_def with_node_def wp_cell_at)
qed

lemma array_set_mutates:
  assumes "1 \<le> n" "children p = []" "payload_ok p"
  shows "mutates n a (seq (new_node p) (ArrSet k a i))"
  unfolding mutates_def
  using make_then [OF _ assms, where put = "ArrSet k a i", OF _ _ ArrSet_takes] by blast

end
