(* ===== verification/Script_Memory.thy ===== *)
theory Script_Memory
  imports Handle_Manager
begin

text \<open>
  What natives share: the memory of the plugin that calls them, which the script engine translates,
  what they write to it, and the conversions between the cells of a script and the types of the
  program.
\<close>

text \<open>The plugin's memory, as the script engine shows it to a native: the string at a local address,
  and the cells from a local address on; None where the engine reports an invalid address.\<close>

record Ctx =
  plugin :: ctx
  LocalToString :: "i32 \<Rightarrow> string option"
  LocalToPhysAddr :: "i32 \<Rightarrow> (nat \<Rightarrow> i32) option"

text \<open>What a native writes to the plugin's memory: \<^verbatim>\<open>StringToLocal(addr, maxlen, text)\<close>, a cell,
  two cells, or bytes.\<close>

datatype local_write =
    WString i32 i32 string
  | WCell i32 i32
  | WInt64 i32 i64
  | WBytes i32 "byte list"

definition cell_of_bool :: "bool \<Rightarrow> i32" where
  "cell_of_bool b = (if b then 1 else 0)"

text \<open>A size as a cell; an \<^verbatim>\<open>int\<close> where a \<^verbatim>\<open>size_t\<close> is expected: a negative one is huge.\<close>

definition cell_of_size :: "nat \<Rightarrow> i32" where
  "cell_of_size n = of_nat n"

definition size_of_cell :: "i32 \<Rightarrow> nat" where
  "size_of_cell p = unat (scast p :: u64)"

end
