(* ===== verification/Json_Runtime.thy ===== *)
theory Json_Runtime
  imports Data_Handle Json_Parse Handle_Manager Script_Memory
begin

text \<open>
  The state that the natives of \<^verbatim>\<open>src/natives_json.cpp\<close> work on, the interface to the script's
  memory, and the static helpers at the top of that file.  The natives run on the game thread, one
  after the other.
\<close>

section \<open>State\<close>

text \<open>The part of a request that \<^verbatim>\<open>Native_JsonParse\<close> looks at.\<close>

record HttpResponse =
  in_event_thread :: bool
  response_node :: "addr option"
  response_body :: string

text \<open>What the natives get from elsewhere: the room on the stack, the layouts of hash tables, simdjson,
  the file system (the size that \<^verbatim>\<open>ftell\<close> reports and the bytes that \<^verbatim>\<open>fread\<close> gives), and
  how many bytes the containers of a node take.\<close>

record Env =
  stack :: nat
  layout :: layouts
  iterate :: "string \<Rightarrow> string + od_value"
  open_file :: "string \<Rightarrow> (int \<times> string) option"
  node_bytes :: nat
  own_bytes :: "addr \<Rightarrow> payload \<Rightarrow> nat"

record Runtime =
  heap :: Heap
  manager :: HandleManager
  datas :: "obj \<Rightarrow> DataHandle option"
  iters :: "obj \<Rightarrow> DataIterator option"
  requests :: "obj \<Rightarrow> HttpResponse option"
  next_obj :: obj
  g_path_failed :: bool
  g_path_error :: string
  writes :: "local_write list"
  thrown :: "string option"

definition Runtime_init :: Runtime where
  "Runtime_init = \<lparr>heap = Heap_init, manager = HandleManager_init, datas = Map.empty, iters = Map.empty,
     requests = Map.empty, next_obj = 0, g_path_failed = False, g_path_error = '''', writes = [], thrown = None\<rparr>"

type_synonym 'a rt_act = "(Runtime, 'a) act"
type_synonym native = "Env \<Rightarrow> Ctx \<Rightarrow> i32 list \<Rightarrow> i32 rt_act"

definition on_heap :: "'a node_act \<Rightarrow> 'a rt_act" where
  "on_heap = zoom heap heap_update"

definition emit :: "local_write \<Rightarrow> unit rt_act" where
  "emit w = modify (writes_update (\<lambda>ws. ws @ [w]))"

definition StringToLocal :: "i32 \<Rightarrow> i32 \<Rightarrow> string \<Rightarrow> unit rt_act" where
  "StringToLocal a maxlen text = emit (WString a maxlen text)"

text \<open>\<^verbatim>\<open>ThrowNativeError\<close> records the error; the native goes on until it returns.\<close>

definition ThrowNativeError :: "string \<Rightarrow> i32 rt_act" where
  "ThrowNativeError msg = seq (modify (thrown_update (\<lambda>_. Some msg))) (\<lambda>_. ret 0)"

text \<open>A call whose result is not checked: the pointer is not set when it fails.\<close>

definition local_string :: "Ctx \<Rightarrow> i32 \<Rightarrow> string rt_act" where
  "local_string ctx p = (case LocalToString ctx p of None \<Rightarrow> crash WildPointer | Some s \<Rightarrow> ret (c_str s))"

definition phys_addr :: "Ctx \<Rightarrow> i32 \<Rightarrow> (nat \<Rightarrow> i32) rt_act" where
  "phys_addr ctx p = (case LocalToPhysAddr ctx p of None \<Rightarrow> crash WildPointer | Some m \<Rightarrow> ret m)"

section \<open>Integers of 64 bits\<close>

definition ReadInt64 :: "(nat \<Rightarrow> i32) \<Rightarrow> i64" where
  "ReadInt64 addr = push_bit 32 (ucast (addr 1)) OR ucast (addr 0)"

definition WriteInt64 :: "i32 \<Rightarrow> i64 \<Rightarrow> unit rt_act" where
  "WriteInt64 addr val = emit (WInt64 addr val)"

definition ReadInt64Param :: "Ctx \<Rightarrow> i32 \<Rightarrow> i64 rt_act" where
  "ReadInt64Param ctx param = seq (phys_addr ctx param) (\<lambda>addr. ret (ReadInt64 addr))"

text \<open>\<^verbatim>\<open>LocalToPhysAddr(param, &out); WriteInt64(out, val)\<close>\<close>

definition write_int64_param :: "Ctx \<Rightarrow> i32 \<Rightarrow> i64 \<Rightarrow> unit rt_act" where
  "write_int64_param ctx param val = seq (phys_addr ctx param) (\<lambda>_. WriteInt64 param val)"

section \<open>Objects behind handles\<close>

definition data_at :: "obj \<Rightarrow> DataHandle rt_act" where
  "data_at p s = (case datas s p of None \<Rightarrow> Crash Freed | Some dh \<Rightarrow> Done (dh, s))"

definition iter_at :: "obj \<Rightarrow> DataIterator rt_act" where
  "iter_at p s = (case iters s p of None \<Rightarrow> Crash Freed | Some it \<Rightarrow> Done (it, s))"

definition new_data :: "DataHandle \<Rightarrow> obj rt_act" where
  "new_data dh s = Done (next_obj s, s\<lparr>datas := (datas s)(next_obj s \<mapsto> dh), next_obj := Suc (next_obj s)\<rparr>)"

definition new_iter :: "DataIterator \<Rightarrow> obj rt_act" where
  "new_iter it s = Done (next_obj s, s\<lparr>iters := (iters s)(next_obj s \<mapsto> it), next_obj := Suc (next_obj s)\<rparr>)"

definition delete_data :: "Env \<Rightarrow> obj \<Rightarrow> unit rt_act" where
  "delete_data env p = seq (data_at p) (\<lambda>dh.
     seq (on_heap (DataHandle_delete (stack env) dh)) (\<lambda>_. modify (datas_update (\<lambda>d. d(p := None)))))"

definition delete_iter :: "Env \<Rightarrow> obj \<Rightarrow> unit rt_act" where
  "delete_iter env p = seq (iter_at p) (\<lambda>it.
     seq (on_heap (DataIterator_delete (stack env) it)) (\<lambda>_. modify (iters_update (\<lambda>d. d(p := None)))))"

text \<open>The destructor that \<^verbatim>\<open>DeleteHandlePointer\<close> runs; the objects of other components are not part
  of this state.\<close>

definition delete_object :: "Env \<Rightarrow> HandleType \<times> obj \<Rightarrow> unit rt_act" where
  "delete_object env = (\<lambda>(t, p). case t of
     HANDLE_JSON_VALUE \<Rightarrow> delete_data env p
   | HANDLE_ITERATOR \<Rightarrow> delete_iter env p
   | _ \<Rightarrow> ret ())"

text \<open>\<^verbatim>\<open>g_handle_manager.FreeHandle(handle)\<close>: the entry goes, and the object behind it is deleted.\<close>

definition free_handle :: "Env \<Rightarrow> i32 \<Rightarrow> unit rt_act" where
  "free_handle env i = seq (get manager) (\<lambda>m.
     seq (modify (manager_update (FreeHandle i))) (\<lambda>_.
     for_each (delete_object env) (drop (length (deleted m)) (deleted (FreeHandle i m)))))"

definition create_handle :: "Ctx \<Rightarrow> obj \<Rightarrow> HandleType \<Rightarrow> i32 rt_act" where
  "create_handle ctx p t s = (case CreateHandle p t (Some (plugin ctx)) (manager s) of
     None \<Rightarrow> Crash Hangs
   | Some (i, m) \<Rightarrow> Done (i, s\<lparr>manager := m\<rparr>))"

text \<open>\<^verbatim>\<open>new DataHandle(node)\<close>, a handle for it, and its deletion when there is no handle left.\<close>

definition publish :: "Env \<Rightarrow> Ctx \<Rightarrow> DataHandle \<Rightarrow> i32 rt_act" where
  "publish env ctx dh = seq (new_data dh) (\<lambda>p.
     seq (create_handle ctx p HANDLE_JSON_VALUE) (\<lambda>handle.
     if handle = 0 then seq (delete_data env p) (\<lambda>_. ret 0) else ret handle))"

definition WrapChildNode :: "Env \<Rightarrow> Ctx \<Rightarrow> addr option \<Rightarrow> i32 rt_act" where
  "WrapChildNode env ctx val = (case val of
     None \<Rightarrow> ret 0
   | Some a \<Rightarrow> seq (on_heap (Incref a)) (\<lambda>_. publish env ctx \<lparr>node = Some a\<rparr>))"

text \<open>\<^verbatim>\<open>GET_JSON_HANDLE()\<close> and the rest of the native.\<close>

definition with_json :: "i32 list \<Rightarrow> (DataHandle \<Rightarrow> i32 rt_act) \<Rightarrow> i32 rt_act" where
  "with_json params f = seq (get (\<lambda>s. GetDataHandle (params ! 1) (manager s))) (\<lambda>p. case p of
     None \<Rightarrow> ThrowNativeError ''Invalid or closed Json handle''
   | Some p \<Rightarrow> seq (data_at p) f)"

section \<open>Getters that insist on a type\<close>

fun DataTypeName :: "DataType \<Rightarrow> string" where
  "DataTypeName TNull = ''null''"
| "DataTypeName TBool = ''bool''"
| "DataTypeName TInt = ''int''"
| "DataTypeName TFloat = ''float''"
| "DataTypeName TString = ''string''"
| "DataTypeName TArray = ''array''"
| "DataTypeName TObject = ''object''"
| "DataTypeName TIntMap = ''intobject''"
| "DataTypeName TBinary = ''binary''"

text \<open>A missing member and a null member give the default; a member of a type the coercion does not
  know gives the default, too, and an error.\<close>

definition strict_as :: "'a \<Rightarrow> (payload \<Rightarrow> 'a node_act) \<Rightarrow> DataType set \<Rightarrow> string \<Rightarrow> addr option \<Rightarrow> string \<Rightarrow> string \<Rightarrow> 'a rt_act" where
  "strict_as d f types expected v nativeName loc = (case v of
     None \<Rightarrow> ret d
   | Some a \<Rightarrow> seq (on_heap (cell_at a)) (\<lambda>c.
       if payload c = NullV then ret d
       else if type_of (payload c) \<in> types then on_heap (f (payload c))
       else seq (ThrowNativeError (nativeName @ ''('' @ loc @ ''): value is ''
              @ DataTypeName (type_of (payload c)) @ '', expected '' @ expected)) (\<lambda>_. ret d)))"

definition StrictAsInt :: "addr option \<Rightarrow> string \<Rightarrow> string \<Rightarrow> i64 rt_act" where
  "StrictAsInt = strict_as 0 coerce_int {TInt, TFloat, TBool} ''numeric''"

definition StrictAsFloat :: "addr option \<Rightarrow> string \<Rightarrow> string \<Rightarrow> f64 rt_act" where
  "StrictAsFloat = strict_as 0 coerce_float {TFloat, TInt, TBool} ''numeric''"

definition StrictAsBool :: "addr option \<Rightarrow> string \<Rightarrow> string \<Rightarrow> bool rt_act" where
  "StrictAsBool = strict_as False coerce_bool {TBool, TInt, TFloat} ''numeric''"

definition StrictAsString :: "addr option \<Rightarrow> string \<Rightarrow> string \<Rightarrow> string rt_act" where
  "StrictAsString = strict_as '''' coerce_string {TString} ''String''"

section \<open>Paths\<close>

definition kMaxPathKeyLen :: nat where
  "kMaxPathKeyLen = 256"

text \<open>\<^verbatim>\<open>strncpy(key_buf, key, kMaxPathKeyLen)\<close> with the NUL put behind it.\<close>

definition key_buf :: "string \<Rightarrow> string" where
  "key_buf key = take kMaxPathKeyLen (c_str key)"

definition em_dash :: string where
  "em_dash = [CHR 0x20, CHR 0xE2, CHR 0x80, CHR 0x94, CHR 0x20]"

definition with_dot :: "string \<Rightarrow> string" where
  "with_dot path = (if path = [] then path else path @ ''.'')"

text \<open>The loop of \<^verbatim>\<open>BuildPathString\<close>, over the arguments of the steps that are left.\<close>

primrec path_string :: "Ctx \<Rightarrow> i32 list \<Rightarrow> string \<Rightarrow> addr \<Rightarrow> string node_act" where
  "path_string ctx [] path nd = ret path"
| "path_string ctx (arg # args) path nd = seq (cell_at nd) (\<lambda>c. case payload c of
     ObjectV m \<Rightarrow> (case LocalToString ctx arg of
         None \<Rightarrow> ret path
       | Some key \<Rightarrow>
           let path = with_dot path @ key_buf key
           in seq (ObjFind nd (key_buf key)) (\<lambda>child. case child of
                None \<Rightarrow> ret path
              | Some b \<Rightarrow> path_string ctx args path b))
   | IntMapV m \<Rightarrow> (case LocalToPhysAddr ctx arg of
         None \<Rightarrow> ret path
       | Some addr \<Rightarrow>
           let key = (scast (addr 0) :: i64); path = with_dot path @ format_lld key
           in seq (IntMapFind nd key) (\<lambda>child. case child of
                None \<Rightarrow> ret path
              | Some b \<Rightarrow> path_string ctx args path b))
   | ArrayV xs \<Rightarrow> (case LocalToPhysAddr ctx arg of
         None \<Rightarrow> ret path
       | Some addr \<Rightarrow>
           let index = sint (addr 0); path = path @ ''['' @ format_lld (scast (addr 0)) @ '']''
           in if index < 0 \<or> int (length xs) \<le> index then ret path
              else path_string ctx args path (xs ! nat index))
   | _ \<Rightarrow> ret path)"

definition BuildPathString :: "Ctx \<Rightarrow> addr \<Rightarrow> i32 list \<Rightarrow> string node_act" where
  "BuildPathString ctx root args = path_string ctx args '''' root"

definition SetPathError :: "Ctx \<Rightarrow> addr \<Rightarrow> i32 list \<Rightarrow> string \<Rightarrow> unit rt_act" where
  "SetPathError ctx root args reason =
     seq (modify (g_path_failed_update (\<lambda>_. True))) (\<lambda>_.
     seq (on_heap (BuildPathString ctx root args)) (\<lambda>path.
     modify (g_path_error_update (\<lambda>_. (if path = [] then ''<root>'' else path) @ em_dash @ reason))))"

text \<open>The loop of \<^verbatim>\<open>ResolveJsonPath\<close>: \<open>seen\<close> are the arguments of the steps that are done.\<close>

primrec resolve_steps :: "Ctx \<Rightarrow> addr \<Rightarrow> i32 list \<Rightarrow> i32 list \<Rightarrow> addr \<Rightarrow> addr option rt_act" where
  "resolve_steps ctx root seen [] nd = ret (Some nd)"
| "resolve_steps ctx root seen (arg # args) nd = seq (on_heap (cell_at nd)) (\<lambda>c. case payload c of
     ObjectV m \<Rightarrow> (case LocalToString ctx arg of
         None \<Rightarrow> seq (SetPathError ctx root seen ''expected string key for object'') (\<lambda>_. ret None)
       | Some key \<Rightarrow> seq (on_heap (ObjFind nd (key_buf key))) (\<lambda>child. case child of
             None \<Rightarrow> seq (SetPathError ctx root (seen @ [arg]) ''key not found'') (\<lambda>_. ret None)
           | Some b \<Rightarrow> resolve_steps ctx root (seen @ [arg]) args b))
   | IntMapV m \<Rightarrow> (case LocalToPhysAddr ctx arg of
         None \<Rightarrow> seq (SetPathError ctx root seen ''expected integer key for intmap'') (\<lambda>_. ret None)
       | Some addr \<Rightarrow> seq (on_heap (IntMapFind nd (scast (addr 0)))) (\<lambda>child. case child of
             None \<Rightarrow> seq (SetPathError ctx root (seen @ [arg]) ''key not found'') (\<lambda>_. ret None)
           | Some b \<Rightarrow> resolve_steps ctx root (seen @ [arg]) args b))
   | ArrayV xs \<Rightarrow> (case LocalToPhysAddr ctx arg of
         None \<Rightarrow> seq (SetPathError ctx root seen ''expected integer index for array'') (\<lambda>_. ret None)
       | Some addr \<Rightarrow>
           if sint (addr 0) < 0 \<or> int (length xs) \<le> sint (addr 0)
           then seq (SetPathError ctx root (seen @ [arg]) (take 63 (''index '' @ format_lld (scast (addr 0))
                  @ '' out of bounds (length '' @ show_nat (length xs) @ '')''))) (\<lambda>_. ret None)
           else resolve_steps ctx root (seen @ [arg]) args (xs ! nat (sint (addr 0))))
   | p \<Rightarrow> seq (SetPathError ctx root seen (take 63 (''cannot index into '' @ DataTypeName (type_of p)))) (\<lambda>_. ret None))"

definition ResolveJsonPath :: "Ctx \<Rightarrow> addr option \<Rightarrow> i32 list \<Rightarrow> nat \<Rightarrow> int \<Rightarrow> addr option rt_act" where
  "ResolveJsonPath ctx nd params start steps =
     seq (modify (\<lambda>s. s\<lparr>g_path_failed := False, g_path_error := ''''\<rparr>)) (\<lambda>_. case nd of
       None \<Rightarrow> seq (modify (\<lambda>s. s\<lparr>g_path_failed := True, g_path_error := ''<root>'' @ em_dash @ ''null node''\<rparr>))
                (\<lambda>_. ret None)
     | Some root \<Rightarrow> resolve_steps ctx root [] (take (nat steps) (drop start params)) root)"

end
