(* ===== verification/Json_Natives.thy ===== *)
theory Json_Natives
  imports Json_Runtime
begin

text \<open>
  The natives of \<^verbatim>\<open>src/natives_json.cpp\<close>, one definition each, and the table that registers them.
  \<open>params ! 0\<close> is the number of arguments and \<open>params ! i\<close> the \<open>i\<close>-th of them, as in the program.
\<close>

section \<open>Conversions at the call\<close>

text \<open>\<^verbatim>\<open>snprintf(loc, sizeof(loc), ...)\<close> for a key, an index and a number.\<close>

definition key_loc :: "string \<Rightarrow> string" where
  "key_loc key = take 259 (CHR 0x22 # key @ [CHR 0x22])"

definition index_loc :: "i32 \<Rightarrow> string" where
  "index_loc i = take 63 (''['' @ format_lld (scast i) @ '']'')"

definition num_loc :: "i64 \<Rightarrow> string" where
  "num_loc key = take 39 (format_lld key)"

text \<open>\<^verbatim>\<open>json->node ? json->node->ObjFind(key) : nullptr\<close>, and its like for integer maps.\<close>

definition find_key :: "DataHandle \<Rightarrow> string \<Rightarrow> addr option rt_act" where
  "find_key json key = on_heap (with_node json None (\<lambda>n. ObjFind n key))"

definition find_int :: "DataHandle \<Rightarrow> i64 \<Rightarrow> addr option rt_act" where
  "find_int json key = on_heap (with_node json None (\<lambda>n. IntMapFind n key))"

section \<open>Parsing, creating, closing\<close>

text \<open>\<^verbatim>\<open>DataHandle::Parse\<close>, and the handle for its result.\<close>

definition DataHandle_Parse :: "Env \<Rightarrow> string \<Rightarrow> DataHandle option node_act" where
  "DataHandle_Parse env data = seq (DataParseJson (stack env) (layout env) (iterate env) data) (\<lambda>(parsed, err).
     case parsed of None \<Rightarrow> ret None | Some a \<Rightarrow> ret (Some \<lparr>node = Some a\<rparr>))"

definition DataHandle_ParseString :: "Env \<Rightarrow> string \<Rightarrow> DataHandle option node_act" where
  "DataHandle_ParseString env str = DataHandle_Parse env (c_str str)"

definition publish_opt :: "Env \<Rightarrow> Ctx \<Rightarrow> DataHandle option \<Rightarrow> i32 rt_act" where
  "publish_opt env ctx json = (case json of None \<Rightarrow> ret 0 | Some dh \<Rightarrow> publish env ctx dh)"

definition request_at :: "obj \<Rightarrow> HttpResponse rt_act" where
  "request_at p s = (case requests s p of None \<Rightarrow> Crash Freed | Some r \<Rightarrow> Done (r, s))"

definition Native_JsonParse :: native where
  "Native_JsonParse env ctx params = seq (get (\<lambda>s. GetHttpRequest (params ! 1) (manager s))) (\<lambda>p. case p of
     None \<Rightarrow> ret 0
   | Some p \<Rightarrow> seq (request_at p) (\<lambda>request.
       if in_event_thread request then ret 0
       else case response_node request of
         Some a \<Rightarrow> seq (modify (requests_update (\<lambda>rs. rs(p \<mapsto> request\<lparr>response_node := None\<rparr>)))) (\<lambda>_.
           publish env ctx \<lparr>node = Some a\<rparr>)
       | None \<Rightarrow>
           if response_body request = [] then ret 0
           else seq (on_heap (DataHandle_Parse env (response_body request))) (publish_opt env ctx)))"

definition Native_JsonParseString :: native where
  "Native_JsonParseString env ctx params = seq (local_string ctx (params ! 1)) (\<lambda>str.
     seq (on_heap (DataHandle_ParseString env str)) (publish_opt env ctx))"

definition Native_JsonParseFile :: native where
  "Native_JsonParseFile env ctx params = seq (local_string ctx (params ! 1)) (\<lambda>path.
     case open_file env path of
       None \<Rightarrow> ret 0
     | Some (sz, buf) \<Rightarrow>
         if sz \<le> 0 \<or> 64 * 1024 * 1024 < sz then ret 0
         else if int (length buf) \<noteq> sz then ret 0
         else seq (on_heap (DataHandle_Parse env buf)) (publish_opt env ctx))"

definition Native_JsonCreateObject :: native where
  "Native_JsonCreateObject env ctx params = seq (on_heap DataHandle_CreateObject) (publish env ctx)"

definition Native_JsonCreateArray :: native where
  "Native_JsonCreateArray env ctx params = seq (on_heap DataHandle_CreateArray) (publish env ctx)"

definition Native_JsonClose :: native where
  "Native_JsonClose env ctx params = seq (get (\<lambda>s. GetDataHandle (params ! 1) (manager s))) (\<lambda>json. case json of
     None \<Rightarrow> ret 0
   | Some p \<Rightarrow> seq (free_handle env (params ! 1)) (\<lambda>_. ret 0))"

section \<open>Inspecting\<close>

definition Native_JsonGetType :: native where
  "Native_JsonGetType env ctx params = with_json params (\<lambda>json.
     seq (on_heap (GetType json)) (\<lambda>t. ret (enum_value t)))"

definition Native_JsonObjectSize :: native where
  "Native_JsonObjectSize env ctx params = with_json params (\<lambda>json.
     seq (on_heap (ObjectSize json)) (\<lambda>n. ret (cell_of_size n)))"

definition Native_JsonArrayLength :: native where
  "Native_JsonArrayLength env ctx params = with_json params (\<lambda>json.
     seq (on_heap (ArrayLength json)) (\<lambda>n. ret (cell_of_size n)))"

definition Native_JsonHasKey :: native where
  "Native_JsonHasKey env ctx params = with_json params (\<lambda>json.
     seq (local_string ctx (params ! 2)) (\<lambda>key.
     seq (on_heap (HasKey json key)) (\<lambda>b. ret (cell_of_bool b))))"

definition Native_JsonGetString :: native where
  "Native_JsonGetString env ctx params = with_json params (\<lambda>json.
     seq (local_string ctx (params ! 2)) (\<lambda>key.
     seq (find_key json key) (\<lambda>v.
     seq (StrictAsString v ''JsonGetString'' (key_loc key)) (\<lambda>val.
     seq (StringToLocal (params ! 3) (params ! 4) val) (\<lambda>_. ret 0)))))"

definition Native_JsonGetInt :: native where
  "Native_JsonGetInt env ctx params = with_json params (\<lambda>json.
     seq (local_string ctx (params ! 2)) (\<lambda>key.
     seq (find_key json key) (\<lambda>v.
     seq (StrictAsInt v ''JsonGetInt'' (key_loc key)) (\<lambda>val. ret (ucast val)))))"

definition Native_JsonGetFloat :: native where
  "Native_JsonGetFloat env ctx params = with_json params (\<lambda>json.
     seq (local_string ctx (params ! 2)) (\<lambda>key.
     seq (find_key json key) (\<lambda>v.
     seq (StrictAsFloat v ''JsonGetFloat'' (key_loc key)) (\<lambda>val. ret (f32_of_f64 val)))))"

definition Native_JsonGetBool :: native where
  "Native_JsonGetBool env ctx params = with_json params (\<lambda>json.
     seq (local_string ctx (params ! 2)) (\<lambda>key.
     seq (find_key json key) (\<lambda>v.
     seq (StrictAsBool v ''JsonGetBool'' (key_loc key)) (\<lambda>val. ret (cell_of_bool val)))))"

definition Native_JsonGetInt64 :: native where
  "Native_JsonGetInt64 env ctx params = with_json params (\<lambda>json.
     seq (local_string ctx (params ! 2)) (\<lambda>key.
     seq (find_key json key) (\<lambda>v.
     seq (StrictAsInt v ''JsonGetInt64'' (key_loc key)) (\<lambda>val.
     seq (write_int64_param ctx (params ! 3) val) (\<lambda>_. ret 0)))))"

definition Native_JsonGetObject :: native where
  "Native_JsonGetObject env ctx params = with_json params (\<lambda>json.
     seq (local_string ctx (params ! 2)) (\<lambda>key.
     seq (on_heap (GetObjectNode json key)) (WrapChildNode env ctx)))"

definition Native_JsonGetArray :: native where
  "Native_JsonGetArray env ctx params = with_json params (\<lambda>json.
     seq (local_string ctx (params ! 2)) (\<lambda>key.
     seq (on_heap (GetArrayNode json key)) (WrapChildNode env ctx)))"

definition Native_JsonGet :: native where
  "Native_JsonGet env ctx params = with_json params (\<lambda>json.
     seq (local_string ctx (params ! 2)) (\<lambda>key.
     seq (on_heap (GetMemberNode json key)) (WrapChildNode env ctx)))"

definition Native_JsonArrayGet :: native where
  "Native_JsonArrayGet env ctx params = with_json params (\<lambda>json.
     seq (on_heap (ArrayGetMemberNode json (size_of_cell (params ! 2)))) (WrapChildNode env ctx))"

definition Native_JsonGetMemberType :: native where
  "Native_JsonGetMemberType env ctx params = with_json params (\<lambda>json.
     seq (local_string ctx (params ! 2)) (\<lambda>key.
     seq (on_heap (MemberType json key)) (\<lambda>t. ret (enum_value t))))"

definition Native_JsonArrayGetType :: native where
  "Native_JsonArrayGetType env ctx params = with_json params (\<lambda>json.
     seq (on_heap (ArrayMemberType json (size_of_cell (params ! 2)))) (\<lambda>t. ret (enum_value t)))"

definition Native_JsonAsInt :: native where
  "Native_JsonAsInt env ctx params = with_json params (\<lambda>json.
     seq (StrictAsInt (node json) ''JsonAsInt'' ''<handle>'') (\<lambda>val. ret (ucast val)))"

definition Native_JsonAsInt64 :: native where
  "Native_JsonAsInt64 env ctx params = with_json params (\<lambda>json.
     seq (StrictAsInt (node json) ''JsonAsInt64'' ''<handle>'') (\<lambda>val.
     seq (write_int64_param ctx (params ! 2) val) (\<lambda>_. ret 0)))"

definition Native_JsonAsFloat :: native where
  "Native_JsonAsFloat env ctx params = with_json params (\<lambda>json.
     seq (StrictAsFloat (node json) ''JsonAsFloat'' ''<handle>'') (\<lambda>val. ret (f32_of_f64 val)))"

definition Native_JsonAsBool :: native where
  "Native_JsonAsBool env ctx params = with_json params (\<lambda>json.
     seq (StrictAsBool (node json) ''JsonAsBool'' ''<handle>'') (\<lambda>val. ret (cell_of_bool val)))"

definition Native_JsonAsString :: native where
  "Native_JsonAsString env ctx params = with_json params (\<lambda>json.
     seq (StrictAsString (node json) ''JsonAsString'' ''<handle>'') (\<lambda>val.
     seq (StringToLocal (params ! 2) (params ! 3) val) (\<lambda>_. ret 0)))"

section \<open>Elements of arrays\<close>

definition ArrayElem :: "DataHandle \<Rightarrow> i32 \<Rightarrow> addr option rt_act" where
  "ArrayElem json index = on_heap (with_node json None (\<lambda>n. seq (cell_at n) (\<lambda>c. case payload c of
     ArrayV xs \<Rightarrow>
       if sint index < 0 \<or> int (length xs) \<le> sint index then ret None
       else ret (Some (xs ! nat (sint index)))
   | _ \<Rightarrow> ret None)))"

definition Native_JsonArrayGetInt64 :: native where
  "Native_JsonArrayGetInt64 env ctx params = with_json params (\<lambda>json.
     seq (ArrayElem json (params ! 2)) (\<lambda>v.
     seq (StrictAsInt v ''JsonArrayGetInt64'' (index_loc (params ! 2))) (\<lambda>val.
     seq (write_int64_param ctx (params ! 3) val) (\<lambda>_. ret 0))))"

definition Native_JsonArrayGetString :: native where
  "Native_JsonArrayGetString env ctx params = with_json params (\<lambda>json.
     seq (ArrayElem json (params ! 2)) (\<lambda>v.
     seq (StrictAsString v ''JsonArrayGetString'' (index_loc (params ! 2))) (\<lambda>val.
     seq (StringToLocal (params ! 3) (params ! 4) val) (\<lambda>_. ret 0))))"

definition Native_JsonArrayGetInt :: native where
  "Native_JsonArrayGetInt env ctx params = with_json params (\<lambda>json.
     seq (ArrayElem json (params ! 2)) (\<lambda>v.
     seq (StrictAsInt v ''JsonArrayGetInt'' (index_loc (params ! 2))) (\<lambda>val. ret (ucast val))))"

definition Native_JsonArrayGetFloat :: native where
  "Native_JsonArrayGetFloat env ctx params = with_json params (\<lambda>json.
     seq (ArrayElem json (params ! 2)) (\<lambda>v.
     seq (StrictAsFloat v ''JsonArrayGetFloat'' (index_loc (params ! 2))) (\<lambda>val. ret (f32_of_f64 val))))"

definition Native_JsonArrayGetBool :: native where
  "Native_JsonArrayGetBool env ctx params = with_json params (\<lambda>json.
     seq (ArrayElem json (params ! 2)) (\<lambda>v.
     seq (StrictAsBool v ''JsonArrayGetBool'' (index_loc (params ! 2))) (\<lambda>val. ret (cell_of_bool val))))"

definition Native_JsonArrayGetObject :: native where
  "Native_JsonArrayGetObject env ctx params = with_json params (\<lambda>json.
     seq (on_heap (ArrayGetNode json (size_of_cell (params ! 2)))) (WrapChildNode env ctx))"

section \<open>Iterators\<close>

text \<open>The creation of an iterator and of its handle, for both kinds of map.\<close>

definition iter_create :: "Env \<Rightarrow> Ctx \<Rightarrow> i32 list \<Rightarrow> DataType \<Rightarrow> (addr option \<Rightarrow> DataIterator option node_act) \<Rightarrow> i32 rt_act" where
  "iter_create env ctx params t create = seq (get (\<lambda>s. GetDataHandle (params ! 1) (manager s))) (\<lambda>p. case p of
     None \<Rightarrow> ret 0
   | Some p \<Rightarrow> seq (data_at p) (\<lambda>json. case node json of
       None \<Rightarrow> ret 0
     | Some a \<Rightarrow> seq (on_heap (cell_at a)) (\<lambda>c.
         if type_of (payload c) \<noteq> t then ret 0
         else seq (on_heap (create (Some a))) (\<lambda>iter. case iter of
           None \<Rightarrow> ret 0
         | Some it \<Rightarrow> seq (new_iter it) (\<lambda>q.
             seq (create_handle ctx q HANDLE_ITERATOR) (\<lambda>handle.
             if handle = 0 then seq (delete_iter env q) (\<lambda>_. ret 0) else ret handle))))))"

definition Native_ObjectIterCreate :: native where
  "Native_ObjectIterCreate env ctx params = iter_create env ctx params TObject DataIterator_CreateObject"

definition Native_IntMapIterCreate :: native where
  "Native_IntMapIterCreate env ctx params = iter_create env ctx params TIntMap DataIterator_CreateIntMap"

text \<open>The iterator behind a handle, and what to do without one.\<close>

definition with_iter :: "i32 list \<Rightarrow> i32 rt_act \<Rightarrow> (obj \<Rightarrow> DataIterator \<Rightarrow> i32 rt_act) \<Rightarrow> i32 rt_act" where
  "with_iter params none f = seq (get (\<lambda>s. GetDataIterator (params ! 1) (manager s))) (\<lambda>p. case p of
     None \<Rightarrow> none
   | Some p \<Rightarrow> seq (iter_at p) (f p))"

text \<open>\<^verbatim>\<open>iter->Next()\<close> changes the iterator.\<close>

definition iter_next :: "obj \<Rightarrow> DataIterator \<Rightarrow> (bool \<times> DataIterator) rt_act" where
  "iter_next p it = seq (on_heap (Next it)) (\<lambda>(b, it').
     seq (modify (iters_update (\<lambda>is. is(p \<mapsto> it')))) (\<lambda>_. ret (b, it')))"

definition Native_IterNext :: native where
  "Native_IterNext env ctx params = with_iter params (ret 0) (\<lambda>p it.
     if itype it \<noteq> ObjectIter then ret 0
     else seq (iter_next p it) (\<lambda>(b, it').
       if \<not> b then ret 0
       else seq (StringToLocal (params ! 2) (params ! 3) (ObjectKey it')) (\<lambda>_. ret 1)))"

definition Native_IntMapIterNext :: native where
  "Native_IntMapIterNext env ctx params = with_iter params (ret 0) (\<lambda>p it.
     if itype it \<noteq> IntMapIter then ret 0
     else seq (iter_next p it) (\<lambda>(b, it').
       if \<not> b then ret 0
       else seq (phys_addr ctx (params ! 2)) (\<lambda>_.
            seq (emit (WCell (params ! 2) (ucast (IntMapKey it')))) (\<lambda>_. ret 1))))"

definition Native_IntMapIterNext64 :: native where
  "Native_IntMapIterNext64 env ctx params = with_iter params (ret 0) (\<lambda>p it.
     if itype it \<noteq> IntMapIter then ret 0
     else seq (iter_next p it) (\<lambda>(b, it').
       if \<not> b then ret 0
       else seq (write_int64_param ctx (params ! 2) (IntMapKey it')) (\<lambda>_. ret 1)))"

definition Native_IterClose :: native where
  "Native_IterClose env ctx params = with_iter params (ret 0) (\<lambda>p it.
     seq (free_handle env (params ! 1)) (\<lambda>_. ret 0))"

definition with_value :: "i32 list \<Rightarrow> i32 rt_act \<Rightarrow> (addr \<Rightarrow> Cell \<Rightarrow> i32 rt_act) \<Rightarrow> i32 rt_act" where
  "with_value params none f = with_iter params none (\<lambda>p it. case ivalue it of
     None \<Rightarrow> none
   | Some v \<Rightarrow> seq (on_heap (cell_at v)) (f v))"

definition Native_IterGetType :: native where
  "Native_IterGetType env ctx params = with_value params (ret 0) (\<lambda>v c.
     ret (enum_value (type_shown (type_of (payload c)))))"

text \<open>A value as a cell: a double is cut to 32 bits at once.\<close>

fun cell_of_payload :: "payload \<Rightarrow> i32 rt_act" where
  "cell_of_payload (IntV i) = ret (ucast i)"
| "cell_of_payload (FloatV d) = (case i32_of_f64 d of Some i \<Rightarrow> ret i | None \<Rightarrow> crash BadCast)"
| "cell_of_payload (BoolV b) = ret (cell_of_bool b)"
| "cell_of_payload _ = ret 0"

fun float_of_payload :: "payload \<Rightarrow> i32" where
  "float_of_payload (FloatV d) = f32_of_f64 d"
| "float_of_payload (IntV i) = f32_of_i64 i"
| "float_of_payload (BoolV b) = (if b then f32_of_i64 1 else 0)"
| "float_of_payload _ = 0"

definition Native_IterGetInt :: native where
  "Native_IterGetInt env ctx params = with_value params (ret 0) (\<lambda>v c. cell_of_payload (payload c))"

definition Native_IterGetInt64 :: native where
  "Native_IterGetInt64 env ctx params = with_value params (ret 0) (\<lambda>v c.
     seq (on_heap (coerce_int (payload c))) (\<lambda>val.
     seq (write_int64_param ctx (params ! 2) val) (\<lambda>_. ret 0)))"

definition Native_IterGetFloat :: native where
  "Native_IterGetFloat env ctx params = with_value params (ret 0) (\<lambda>v c. ret (float_of_payload (payload c)))"

definition Native_IterGetBool :: native where
  "Native_IterGetBool env ctx params = with_value params (ret 0) (\<lambda>v c.
     seq (on_heap (coerce_bool (payload c))) (\<lambda>b. ret (cell_of_bool b)))"

definition Native_IterGetString :: native where
  "Native_IterGetString env ctx params =
     with_value params (seq (StringToLocal (params ! 2) (params ! 3) '''') (\<lambda>_. ret 0)) (\<lambda>v c.
     seq (on_heap (coerce_string (payload c))) (\<lambda>s.
     seq (StringToLocal (params ! 2) (params ! 3) s) (\<lambda>_. ret 0)))"

definition Native_IterGetObject :: native where
  "Native_IterGetObject env ctx params = with_value params (ret 0) (\<lambda>v c.
     if type_of (payload c) \<notin> {TObject, TArray, TIntMap} then ret 0
     else WrapChildNode env ctx (Some v))"

section \<open>Setters\<close>

text \<open>A setter: it returns 0 whatever happens.\<close>

definition mutate :: "unit node_act \<Rightarrow> i32 rt_act" where
  "mutate m = seq (on_heap m) (\<lambda>_. ret 0)"

definition Native_JsonSetString :: native where
  "Native_JsonSetString env ctx params = with_json params (\<lambda>json.
     seq (local_string ctx (params ! 2)) (\<lambda>key.
     seq (local_string ctx (params ! 3)) (\<lambda>val.
     mutate (SetString (stack env) (layout env) json key val))))"

definition Native_JsonSetInt :: native where
  "Native_JsonSetInt env ctx params = with_json params (\<lambda>json.
     seq (local_string ctx (params ! 2)) (\<lambda>key.
     mutate (SetInt (stack env) (layout env) json key (scast (params ! 3)))))"

definition Native_JsonSetInt64 :: native where
  "Native_JsonSetInt64 env ctx params = with_json params (\<lambda>json.
     seq (local_string ctx (params ! 2)) (\<lambda>key.
     seq (ReadInt64Param ctx (params ! 3)) (\<lambda>val.
     mutate (SetInt (stack env) (layout env) json key val))))"

definition Native_JsonSetFloat :: native where
  "Native_JsonSetFloat env ctx params = with_json params (\<lambda>json.
     seq (local_string ctx (params ! 2)) (\<lambda>key.
     mutate (SetFloat (stack env) (layout env) json key (f64_of_f32 (params ! 3)))))"

definition Native_JsonSetBool :: native where
  "Native_JsonSetBool env ctx params = with_json params (\<lambda>json.
     seq (local_string ctx (params ! 2)) (\<lambda>key.
     mutate (SetBool (stack env) (layout env) json key (params ! 3 \<noteq> 0))))"

definition Native_JsonSetNull :: native where
  "Native_JsonSetNull env ctx params = with_json params (\<lambda>json.
     seq (local_string ctx (params ! 2)) (\<lambda>key.
     mutate (SetNull (stack env) (layout env) json key)))"

text \<open>A setter that takes over the node of another handle: that handle is closed.\<close>

definition set_child :: "Env \<Rightarrow> i32 \<Rightarrow> string \<Rightarrow> DataHandle \<Rightarrow> (addr \<Rightarrow> addr \<Rightarrow> unit node_act) \<Rightarrow> i32 rt_act" where
  "set_child env child_handle msg json put =
     seq (get (\<lambda>s. GetDataHandle child_handle (manager s))) (\<lambda>p. case p of
       None \<Rightarrow> ret 0
     | Some p \<Rightarrow> seq (data_at p) (\<lambda>child.
         if node json = node child then ThrowNativeError msg
         else case node child of
           None \<Rightarrow> crash NullDeref
         | Some b \<Rightarrow> seq (on_heap (Incref b)) (\<lambda>_. case node json of
             None \<Rightarrow> crash NullDeref
           | Some a \<Rightarrow> seq (on_heap (put a b)) (\<lambda>_.
               seq (free_handle env child_handle) (\<lambda>_. ret 0)))))"

definition Native_JsonSetObject :: native where
  "Native_JsonSetObject env ctx params = with_json params (\<lambda>json.
     seq (local_string ctx (params ! 2)) (\<lambda>key.
     set_child env (params ! 3) ''Cannot SetObject with self as child'' json
       (\<lambda>a. ObjInsert (stack env) (layout env) a key)))"

definition Native_JsonRemoveKey :: native where
  "Native_JsonRemoveKey env ctx params = with_json params (\<lambda>json.
     seq (local_string ctx (params ! 2)) (\<lambda>key.
     seq (on_heap (RemoveKey (stack env) (layout env) json key)) (\<lambda>b. ret (cell_of_bool b))))"

definition Native_JsonObjectClear :: native where
  "Native_JsonObjectClear env ctx params = with_json params (\<lambda>json.
     mutate (ObjectClear (stack env) json))"

text \<open>An operation on two handles, which does nothing when they have the same node.\<close>

definition with_other :: "i32 list \<Rightarrow> DataHandle \<Rightarrow> (DataHandle \<Rightarrow> i32 rt_act) \<Rightarrow> i32 rt_act" where
  "with_other params json f = seq (get (\<lambda>s. GetDataHandle (params ! 2) (manager s))) (\<lambda>p. case p of
     None \<Rightarrow> ret 0
   | Some p \<Rightarrow> seq (data_at p) f)"

definition Native_JsonObjectMerge :: native where
  "Native_JsonObjectMerge env ctx params = with_json params (\<lambda>json. with_other params json (\<lambda>other.
     if node json = node other then ret 0
     else mutate (ObjectMerge (stack env) (layout env) json (node other) (params ! 3 \<noteq> 0))))"

definition Native_JsonArrayRemove :: native where
  "Native_JsonArrayRemove env ctx params = with_json params (\<lambda>json.
     seq (on_heap (ArrayRemove (stack env) json (size_of_cell (params ! 2)))) (\<lambda>b. ret (cell_of_bool b)))"

definition Native_JsonArraySetString :: native where
  "Native_JsonArraySetString env ctx params = with_json params (\<lambda>json.
     seq (local_string ctx (params ! 3)) (\<lambda>val.
     mutate (ArraySetString (stack env) json (size_of_cell (params ! 2)) val)))"

definition Native_JsonArraySetInt :: native where
  "Native_JsonArraySetInt env ctx params = with_json params (\<lambda>json.
     mutate (ArraySetInt (stack env) json (size_of_cell (params ! 2)) (scast (params ! 3))))"

definition Native_JsonArraySetInt64 :: native where
  "Native_JsonArraySetInt64 env ctx params = with_json params (\<lambda>json.
     seq (ReadInt64Param ctx (params ! 3)) (\<lambda>val.
     mutate (ArraySetInt (stack env) json (size_of_cell (params ! 2)) val)))"

definition Native_JsonArraySetFloat :: native where
  "Native_JsonArraySetFloat env ctx params = with_json params (\<lambda>json.
     mutate (ArraySetFloat (stack env) json (size_of_cell (params ! 2)) (f64_of_f32 (params ! 3))))"

definition Native_JsonArraySetBool :: native where
  "Native_JsonArraySetBool env ctx params = with_json params (\<lambda>json.
     mutate (ArraySetBool (stack env) json (size_of_cell (params ! 2)) (params ! 3 \<noteq> 0)))"

definition Native_JsonArraySetNull :: native where
  "Native_JsonArraySetNull env ctx params = with_json params (\<lambda>json.
     mutate (ArraySetNull (stack env) json (size_of_cell (params ! 2))))"

definition Native_JsonArraySetObject :: native where
  "Native_JsonArraySetObject env ctx params = with_json params (\<lambda>json.
     set_child env (params ! 3) ''Cannot ArraySetObject with self as child'' json
       (\<lambda>a. ArrSet (stack env) a (size_of_cell (params ! 2))))"

definition Native_JsonArrayClear :: native where
  "Native_JsonArrayClear env ctx params = with_json params (\<lambda>json. mutate (ArrayClear (stack env) json))"

definition Native_JsonArrayExtend :: native where
  "Native_JsonArrayExtend env ctx params = with_json params (\<lambda>json. with_other params json (\<lambda>other.
     if node json = node other then ret 0
     else mutate (ArrayExtend (stack env) (layout env) json (node other))))"

definition Native_JsonArrayAppendString :: native where
  "Native_JsonArrayAppendString env ctx params = with_json params (\<lambda>json.
     seq (local_string ctx (params ! 2)) (\<lambda>val. mutate (ArrayAppendString json val)))"

definition Native_JsonArrayAppendInt :: native where
  "Native_JsonArrayAppendInt env ctx params = with_json params (\<lambda>json.
     mutate (ArrayAppendInt json (scast (params ! 2))))"

definition Native_JsonArrayAppendInt64 :: native where
  "Native_JsonArrayAppendInt64 env ctx params = with_json params (\<lambda>json.
     seq (ReadInt64Param ctx (params ! 2)) (\<lambda>val. mutate (ArrayAppendInt json val)))"

definition Native_JsonArrayAppendFloat :: native where
  "Native_JsonArrayAppendFloat env ctx params = with_json params (\<lambda>json.
     mutate (ArrayAppendFloat json (f64_of_f32 (params ! 2))))"

definition Native_JsonArrayAppendBool :: native where
  "Native_JsonArrayAppendBool env ctx params = with_json params (\<lambda>json.
     mutate (ArrayAppendBool json (params ! 2 \<noteq> 0)))"

definition Native_JsonArrayAppendNull :: native where
  "Native_JsonArrayAppendNull env ctx params = with_json params (\<lambda>json. mutate (ArrayAppendNull json))"

definition Native_JsonArrayAppendObject :: native where
  "Native_JsonArrayAppendObject env ctx params = with_json params (\<lambda>json.
     set_child env (params ! 2) ''Cannot ArrayAppendObject with self as child'' json arr_push_back)"

section \<open>Whole values\<close>

definition Native_JsonEquals :: native where
  "Native_JsonEquals env ctx params = with_json params (\<lambda>json. with_other params json (\<lambda>other.
     case node json of
       None \<Rightarrow> crash NullDeref
     | Some a \<Rightarrow> seq (on_heap (Equals_at (stack env) a (node other))) (\<lambda>b. ret (cell_of_bool b))))"

definition Native_JsonRef :: native where
  "Native_JsonRef env ctx params = with_json params (\<lambda>json. WrapChildNode env ctx (node json))"

definition Native_JsonCopy :: native where
  "Native_JsonCopy env ctx params = with_json params (\<lambda>json. case node json of
     None \<Rightarrow> crash NullDeref
   | Some a \<Rightarrow> seq (on_heap (DeepCopy_at (stack env) (layout env) a)) (\<lambda>copy.
       publish env ctx \<lparr>node = Some copy\<rparr>))"

definition Native_JsonSerialize :: native where
  "Native_JsonSerialize env ctx params = with_json params (\<lambda>json.
     seq (local_string ctx (params ! 2)) (\<lambda>_.
     let pretty = (4 \<le> sint (params ! 0) \<and> params ! 4 \<noteq> 0)
     in seq (on_heap (Serialize (stack env) json (size_of_cell (params ! 3)) pretty)) (\<lambda>text. case text of
          None \<Rightarrow> ret 0
        | Some s \<Rightarrow> seq (emit (WBytes (params ! 2) (map byte_of (s @ [CHR 0x00])))) (\<lambda>_.
            ret (cell_of_size (length s))))))"

section \<open>Paths\<close>

text \<open>A path getter: the target that \<^verbatim>\<open>ResolveJsonPath\<close> finds for the arguments behind the first
  \<open>skip\<close>, and its payload.\<close>

definition path_get :: "Ctx \<Rightarrow> i32 list \<Rightarrow> nat \<Rightarrow> i32 rt_act \<Rightarrow> (payload \<Rightarrow> i32 rt_act) \<Rightarrow> i32 rt_act" where
  "path_get ctx params skip none f = with_json params (\<lambda>json.
     seq (ResolveJsonPath ctx (node json) params (Suc skip) (sint (params ! 0) - int skip)) (\<lambda>target. case target of
       None \<Rightarrow> none
     | Some a \<Rightarrow> seq (on_heap (cell_at a)) (\<lambda>c. f (payload c))))"

definition Native_JsonPathGetInt :: native where
  "Native_JsonPathGetInt env ctx params = path_get ctx params 1 (ret 0) cell_of_payload"

definition Native_JsonPathGetInt64 :: native where
  "Native_JsonPathGetInt64 env ctx params =
     path_get ctx params 2 (seq (write_int64_param ctx (params ! 2) 0) (\<lambda>_. ret 0)) (\<lambda>p.
       seq (on_heap (coerce_int p)) (\<lambda>val. seq (write_int64_param ctx (params ! 2) val) (\<lambda>_. ret 0)))"

definition Native_JsonPathGetFloat :: native where
  "Native_JsonPathGetFloat env ctx params = path_get ctx params 1 (ret 0) (\<lambda>p. ret (float_of_payload p))"

definition Native_JsonPathGetBool :: native where
  "Native_JsonPathGetBool env ctx params = path_get ctx params 1 (ret 0) (\<lambda>p.
     seq (on_heap (coerce_bool p)) (\<lambda>b. ret (cell_of_bool b)))"

definition Native_JsonPathGetString :: native where
  "Native_JsonPathGetString env ctx params =
     path_get ctx params 3 (seq (StringToLocal (params ! 2) (params ! 3) '''') (\<lambda>_. ret 0)) (\<lambda>p.
       seq (on_heap (coerce_string p)) (\<lambda>s. seq (StringToLocal (params ! 2) (params ! 3) s) (\<lambda>_. ret 0)))"

definition Native_JsonPathGet :: native where
  "Native_JsonPathGet env ctx params = with_json params (\<lambda>json.
     seq (ResolveJsonPath ctx (node json) params 2 (sint (params ! 0) - 1)) (WrapChildNode env ctx))"

definition Native_JsonPathGetType :: native where
  "Native_JsonPathGetType env ctx params = path_get ctx params 1 (ret (enum_value JSON_TYPE_NONE)) (\<lambda>p.
     ret (enum_value (type_shown (type_of p))))"

definition Native_JsonPathFailed :: native where
  "Native_JsonPathFailed env ctx params = seq (get g_path_failed) (\<lambda>b. ret (cell_of_bool b))"

definition Native_JsonPathError :: native where
  "Native_JsonPathError env ctx params = seq (get g_path_error) (\<lambda>e.
     seq (StringToLocal (params ! 1) (params ! 2) (c_str e)) (\<lambda>_. ret 0))"

section \<open>Memory and buffers\<close>

primrec EstimateBytes :: "nat \<Rightarrow> Env \<Rightarrow> addr \<Rightarrow> nat node_act" where
  "EstimateBytes 0 env this = crash StackOverflow"
| "EstimateBytes (Suc k) env this = seq (cell_at this) (\<lambda>c.
     seq (collect (EstimateBytes k env) (children (payload c))) (\<lambda>ns.
     ret (node_bytes env + own_bytes env this (payload c) + sum_list ns)))"

definition Native_JsonMemorySize :: native where
  "Native_JsonMemorySize env ctx params = with_json params (\<lambda>json. case node json of
     None \<Rightarrow> ret 0
   | Some a \<Rightarrow> seq (on_heap (EstimateBytes (stack env) env a)) (\<lambda>n. ret (cell_of_size n)))"

definition Native_JsonGetBuffer :: native where
  "Native_JsonGetBuffer env ctx params = seq (get (\<lambda>s. GetDataHandle (params ! 1) (manager s))) (\<lambda>p. case p of
     None \<Rightarrow> ret 0
   | Some p \<Rightarrow> seq (data_at p) (\<lambda>dh. case node dh of
       None \<Rightarrow> ret 0
     | Some a \<Rightarrow> seq (on_heap (cell_at a)) (\<lambda>c. case payload c of
         BinaryV bin \<Rightarrow>
           let offset = (if 4 \<le> sint (params ! 0) then sint (params ! 4) else 0)
           in if offset < 0 \<or> int (length bin) \<le> offset then ret 0
              else let maxlen = sint (params ! 3)
                in if maxlen \<le> 0 then ret 0
                   else let available = length bin - nat offset;
                            to_copy = (if available < nat maxlen then available else nat maxlen)
                        in seq (phys_addr ctx (params ! 2)) (\<lambda>_.
                           seq (emit (WBytes (params ! 2) (take to_copy (drop (nat offset) bin)))) (\<lambda>_.
                           ret (cell_of_size to_copy)))
       | _ \<Rightarrow> ret 0)))"

section \<open>Integer maps\<close>

definition Native_IntMapCreate :: native where
  "Native_IntMapCreate env ctx params = seq (on_heap DataHandle_CreateIntMap) (publish env ctx)"

definition Native_IntMapGetString :: native where
  "Native_IntMapGetString env ctx params = with_json params (\<lambda>json.
     let key = scast (params ! 2)
     in seq (find_int json key) (\<lambda>v.
        seq (StrictAsString v ''IntObjectGetString'' (num_loc key)) (\<lambda>val.
        seq (StringToLocal (params ! 3) (params ! 4) val) (\<lambda>_. ret 0))))"

definition Native_IntMapGetInt :: native where
  "Native_IntMapGetInt env ctx params = with_json params (\<lambda>json.
     let key = scast (params ! 2)
     in seq (find_int json key) (\<lambda>v.
        seq (StrictAsInt v ''IntObjectGetInt'' (num_loc key)) (\<lambda>val. ret (ucast val))))"

definition Native_IntMapGetFloat :: native where
  "Native_IntMapGetFloat env ctx params = with_json params (\<lambda>json.
     let key = scast (params ! 2)
     in seq (find_int json key) (\<lambda>v.
        seq (StrictAsFloat v ''IntObjectGetFloat'' (num_loc key)) (\<lambda>val. ret (f32_of_f64 val))))"

definition Native_IntMapGetBool :: native where
  "Native_IntMapGetBool env ctx params = with_json params (\<lambda>json.
     let key = scast (params ! 2)
     in seq (find_int json key) (\<lambda>v.
        seq (StrictAsBool v ''IntObjectGetBool'' (num_loc key)) (\<lambda>val. ret (cell_of_bool val))))"

definition Native_IntMapGetObject :: native where
  "Native_IntMapGetObject env ctx params = with_json params (\<lambda>json.
     seq (on_heap (IntMapGetObjectNode json (scast (params ! 2)))) (WrapChildNode env ctx))"

definition Native_IntMapGetArray :: native where
  "Native_IntMapGetArray env ctx params = with_json params (\<lambda>json.
     seq (on_heap (IntMapGetArrayNode json (scast (params ! 2)))) (WrapChildNode env ctx))"

definition Native_IntMapGetString64 :: native where
  "Native_IntMapGetString64 env ctx params = with_json params (\<lambda>json.
     seq (ReadInt64Param ctx (params ! 2)) (\<lambda>key.
     seq (find_int json key) (\<lambda>v.
     seq (StrictAsString v ''IntObject64GetString'' (num_loc key)) (\<lambda>val.
     seq (StringToLocal (params ! 3) (params ! 4) val) (\<lambda>_. ret 0)))))"

definition Native_IntMapGetInt64Key :: native where
  "Native_IntMapGetInt64Key env ctx params = with_json params (\<lambda>json.
     seq (ReadInt64Param ctx (params ! 2)) (\<lambda>key.
     seq (find_int json key) (\<lambda>v.
     seq (StrictAsInt v ''IntObject64GetInt'' (num_loc key)) (\<lambda>val. ret (ucast val)))))"

definition Native_IntMapGetInt64KeyValue :: native where
  "Native_IntMapGetInt64KeyValue env ctx params = with_json params (\<lambda>json.
     seq (ReadInt64Param ctx (params ! 2)) (\<lambda>key.
     seq (find_int json key) (\<lambda>v.
     seq (StrictAsInt v ''IntObject64GetInt64'' (num_loc key)) (\<lambda>val.
     seq (write_int64_param ctx (params ! 3) val) (\<lambda>_. ret 0)))))"

definition Native_IntMapGetFloat64 :: native where
  "Native_IntMapGetFloat64 env ctx params = with_json params (\<lambda>json.
     seq (ReadInt64Param ctx (params ! 2)) (\<lambda>key.
     seq (find_int json key) (\<lambda>v.
     seq (StrictAsFloat v ''IntObject64GetFloat'' (num_loc key)) (\<lambda>val. ret (f32_of_f64 val)))))"

definition Native_IntMapGetBool64 :: native where
  "Native_IntMapGetBool64 env ctx params = with_json params (\<lambda>json.
     seq (ReadInt64Param ctx (params ! 2)) (\<lambda>key.
     seq (find_int json key) (\<lambda>v.
     seq (StrictAsBool v ''IntObject64GetBool'' (num_loc key)) (\<lambda>val. ret (cell_of_bool val)))))"

definition Native_IntMapGetObject64 :: native where
  "Native_IntMapGetObject64 env ctx params = with_json params (\<lambda>json.
     seq (ReadInt64Param ctx (params ! 2)) (\<lambda>key.
     seq (on_heap (IntMapGetObjectNode json key)) (WrapChildNode env ctx)))"

definition Native_IntMapGetArray64 :: native where
  "Native_IntMapGetArray64 env ctx params = with_json params (\<lambda>json.
     seq (ReadInt64Param ctx (params ! 2)) (\<lambda>key.
     seq (on_heap (IntMapGetArrayNode json key)) (WrapChildNode env ctx)))"

definition Native_IntMapGet :: native where
  "Native_IntMapGet env ctx params = with_json params (\<lambda>json.
     seq (on_heap (IntMapGetMemberNode json (scast (params ! 2)))) (WrapChildNode env ctx))"

definition Native_IntMapGet64 :: native where
  "Native_IntMapGet64 env ctx params = with_json params (\<lambda>json.
     seq (ReadInt64Param ctx (params ! 2)) (\<lambda>key.
     seq (on_heap (IntMapGetMemberNode json key)) (WrapChildNode env ctx)))"

definition Native_IntMapGetMemberType :: native where
  "Native_IntMapGetMemberType env ctx params = with_json params (\<lambda>json.
     seq (on_heap (IntMapMemberType json (scast (params ! 2)))) (\<lambda>t. ret (enum_value t)))"

definition Native_IntMapGetMemberType64 :: native where
  "Native_IntMapGetMemberType64 env ctx params = with_json params (\<lambda>json.
     seq (ReadInt64Param ctx (params ! 2)) (\<lambda>key.
     seq (on_heap (IntMapMemberType json key)) (\<lambda>t. ret (enum_value t))))"

definition Native_IntMapSetString :: native where
  "Native_IntMapSetString env ctx params = with_json params (\<lambda>json.
     seq (local_string ctx (params ! 3)) (\<lambda>val.
     mutate (IntMapSetString (stack env) (layout env) json (scast (params ! 2)) val)))"

definition Native_IntMapSetInt :: native where
  "Native_IntMapSetInt env ctx params = with_json params (\<lambda>json.
     mutate (IntMapSetInt (stack env) (layout env) json (scast (params ! 2)) (scast (params ! 3))))"

definition Native_IntMapSetFloat :: native where
  "Native_IntMapSetFloat env ctx params = with_json params (\<lambda>json.
     mutate (IntMapSetFloat (stack env) (layout env) json (scast (params ! 2)) (f64_of_f32 (params ! 3))))"

definition Native_IntMapSetBool :: native where
  "Native_IntMapSetBool env ctx params = with_json params (\<lambda>json.
     mutate (IntMapSetBool (stack env) (layout env) json (scast (params ! 2)) (params ! 3 \<noteq> 0)))"

definition Native_IntMapSetNull :: native where
  "Native_IntMapSetNull env ctx params = with_json params (\<lambda>json.
     mutate (IntMapSetNull (stack env) (layout env) json (scast (params ! 2))))"

definition Native_IntMapSetObject :: native where
  "Native_IntMapSetObject env ctx params = with_json params (\<lambda>json.
     set_child env (params ! 3) ''Cannot SetObject with self as child'' json
       (\<lambda>a. IntMapInsert (stack env) (layout env) a (scast (params ! 2))))"

definition Native_IntMapSetString64 :: native where
  "Native_IntMapSetString64 env ctx params = with_json params (\<lambda>json.
     seq (ReadInt64Param ctx (params ! 2)) (\<lambda>key.
     seq (local_string ctx (params ! 3)) (\<lambda>val.
     mutate (IntMapSetString (stack env) (layout env) json key val))))"

definition Native_IntMapSetInt64 :: native where
  "Native_IntMapSetInt64 env ctx params = with_json params (\<lambda>json.
     seq (ReadInt64Param ctx (params ! 2)) (\<lambda>key.
     mutate (IntMapSetInt (stack env) (layout env) json key (scast (params ! 3)))))"

definition Native_IntMapSetInt64KeyValue :: native where
  "Native_IntMapSetInt64KeyValue env ctx params = with_json params (\<lambda>json.
     seq (ReadInt64Param ctx (params ! 2)) (\<lambda>key.
     seq (ReadInt64Param ctx (params ! 3)) (\<lambda>val.
     mutate (IntMapSetInt (stack env) (layout env) json key val))))"

definition Native_IntMapSetFloat64 :: native where
  "Native_IntMapSetFloat64 env ctx params = with_json params (\<lambda>json.
     seq (ReadInt64Param ctx (params ! 2)) (\<lambda>key.
     mutate (IntMapSetFloat (stack env) (layout env) json key (f64_of_f32 (params ! 3)))))"

definition Native_IntMapSetBool64 :: native where
  "Native_IntMapSetBool64 env ctx params = with_json params (\<lambda>json.
     seq (ReadInt64Param ctx (params ! 2)) (\<lambda>key.
     mutate (IntMapSetBool (stack env) (layout env) json key (params ! 3 \<noteq> 0))))"

definition Native_IntMapSetNull64 :: native where
  "Native_IntMapSetNull64 env ctx params = with_json params (\<lambda>json.
     seq (ReadInt64Param ctx (params ! 2)) (\<lambda>key.
     mutate (IntMapSetNull (stack env) (layout env) json key)))"

definition Native_IntMapSetObject64 :: native where
  "Native_IntMapSetObject64 env ctx params = with_json params (\<lambda>json.
     seq (ReadInt64Param ctx (params ! 2)) (\<lambda>key.
     set_child env (params ! 3) ''Cannot SetObject with self as child'' json
       (\<lambda>a. IntMapInsert (stack env) (layout env) a key)))"

definition Native_IntMapRemoveKey :: native where
  "Native_IntMapRemoveKey env ctx params = with_json params (\<lambda>json.
     seq (on_heap (DataHandle_IntMapRemoveKey (stack env) (layout env) json (scast (params ! 2)))) (\<lambda>b.
     ret (cell_of_bool b)))"

definition Native_IntMapRemoveKey64 :: native where
  "Native_IntMapRemoveKey64 env ctx params = with_json params (\<lambda>json.
     seq (ReadInt64Param ctx (params ! 2)) (\<lambda>key.
     seq (on_heap (DataHandle_IntMapRemoveKey (stack env) (layout env) json key)) (\<lambda>b. ret (cell_of_bool b))))"

definition Native_IntMapClear :: native where
  "Native_IntMapClear env ctx params = with_json params (\<lambda>json. mutate (DataHandle_IntMapClear (stack env) json))"

definition Native_IntMapMerge :: native where
  "Native_IntMapMerge env ctx params = with_json params (\<lambda>json. with_other params json (\<lambda>other.
     if node json = node other then ret 0
     else mutate (DataHandle_IntMapMerge (stack env) (layout env) json (node other) (params ! 3 \<noteq> 0))))"

definition Native_IntMapSize :: native where
  "Native_IntMapSize env ctx params = with_json params (\<lambda>json.
     seq (on_heap (DataHandle_IntMapSize json)) (\<lambda>n. ret (cell_of_size n)))"

definition Native_IntMapHasKey :: native where
  "Native_IntMapHasKey env ctx params = with_json params (\<lambda>json.
     seq (on_heap (IntMapHasKey json (scast (params ! 2)))) (\<lambda>b. ret (cell_of_bool b)))"

definition Native_IntMapHasKey64 :: native where
  "Native_IntMapHasKey64 env ctx params = with_json params (\<lambda>json.
     seq (ReadInt64Param ctx (params ! 2)) (\<lambda>key.
     seq (on_heap (IntMapHasKey json key)) (\<lambda>b. ret (cell_of_bool b))))"

section \<open>The table\<close>

text \<open>\<^verbatim>\<open>async2_JsonPoolStats\<close> is the one entry left out: it only reports on the allocator.\<close>

definition g_JsonNatives :: "(string \<times> native) list" where
  "g_JsonNatives = [
     (''async2_JsonParseResponse'', Native_JsonParse),
     (''async2_JsonParseString'', Native_JsonParseString),
     (''async2_JsonParseFile'', Native_JsonParseFile),
     (''async2_JsonCreateObject'', Native_JsonCreateObject),
     (''async2_JsonCreateArray'', Native_JsonCreateArray),
     (''async2_JsonClose'', Native_JsonClose),
     (''async2_JsonGetType'', Native_JsonGetType),
     (''async2_JsonObjectSize'', Native_JsonObjectSize),
     (''async2_JsonArrayLength'', Native_JsonArrayLength),
     (''async2_JsonHasKey'', Native_JsonHasKey),
     (''async2_JsonGetString'', Native_JsonGetString),
     (''async2_JsonGetInt'', Native_JsonGetInt),
     (''async2_JsonGetInt64'', Native_JsonGetInt64),
     (''async2_JsonGetFloat'', Native_JsonGetFloat),
     (''async2_JsonGetBool'', Native_JsonGetBool),
     (''async2_JsonGetObject'', Native_JsonGetObject),
     (''async2_JsonGetArray'', Native_JsonGetArray),
     (''async2_JsonGet'', Native_JsonGet),
     (''async2_JsonGetMemberType'', Native_JsonGetMemberType),
     (''async2_JsonAsInt'', Native_JsonAsInt),
     (''async2_JsonAsInt64'', Native_JsonAsInt64),
     (''async2_JsonAsFloat'', Native_JsonAsFloat),
     (''async2_JsonAsBool'', Native_JsonAsBool),
     (''async2_JsonAsString'', Native_JsonAsString),
     (''async2_JsonArrayGetString'', Native_JsonArrayGetString),
     (''async2_JsonArrayGetInt'', Native_JsonArrayGetInt),
     (''async2_JsonArrayGetInt64'', Native_JsonArrayGetInt64),
     (''async2_JsonArrayGetFloat'', Native_JsonArrayGetFloat),
     (''async2_JsonArrayGetBool'', Native_JsonArrayGetBool),
     (''async2_JsonArrayGetObject'', Native_JsonArrayGetObject),
     (''async2_JsonArrayGet'', Native_JsonArrayGet),
     (''async2_JsonArrayGetType'', Native_JsonArrayGetType),
     (''async2_ObjectIterCreate'', Native_ObjectIterCreate),
     (''async2_IntMapIterCreate'', Native_IntMapIterCreate),
     (''async2_IterNext'', Native_IterNext),
     (''async2_IntMapIterNext'', Native_IntMapIterNext),
     (''async2_IntMapIterNext64'', Native_IntMapIterNext64),
     (''async2_IterClose'', Native_IterClose),
     (''async2_IterGetType'', Native_IterGetType),
     (''async2_IterGetInt'', Native_IterGetInt),
     (''async2_IterGetInt64'', Native_IterGetInt64),
     (''async2_IterGetFloat'', Native_IterGetFloat),
     (''async2_IterGetBool'', Native_IterGetBool),
     (''async2_IterGetString'', Native_IterGetString),
     (''async2_IterGetObject'', Native_IterGetObject),
     (''async2_JsonSetString'', Native_JsonSetString),
     (''async2_JsonSetInt'', Native_JsonSetInt),
     (''async2_JsonSetInt64'', Native_JsonSetInt64),
     (''async2_JsonSetFloat'', Native_JsonSetFloat),
     (''async2_JsonSetBool'', Native_JsonSetBool),
     (''async2_JsonSetNull'', Native_JsonSetNull),
     (''async2_JsonSetObject'', Native_JsonSetObject),
     (''async2_JsonRemoveKey'', Native_JsonRemoveKey),
     (''async2_JsonObjectClear'', Native_JsonObjectClear),
     (''async2_JsonObjectMerge'', Native_JsonObjectMerge),
     (''async2_JsonArrayRemove'', Native_JsonArrayRemove),
     (''async2_JsonArraySetString'', Native_JsonArraySetString),
     (''async2_JsonArraySetInt'', Native_JsonArraySetInt),
     (''async2_JsonArraySetInt64'', Native_JsonArraySetInt64),
     (''async2_JsonArraySetFloat'', Native_JsonArraySetFloat),
     (''async2_JsonArraySetBool'', Native_JsonArraySetBool),
     (''async2_JsonArraySetNull'', Native_JsonArraySetNull),
     (''async2_JsonArraySetObject'', Native_JsonArraySetObject),
     (''async2_JsonArrayClear'', Native_JsonArrayClear),
     (''async2_JsonArrayExtend'', Native_JsonArrayExtend),
     (''async2_JsonArrayAppendString'', Native_JsonArrayAppendString),
     (''async2_JsonArrayAppendInt'', Native_JsonArrayAppendInt),
     (''async2_JsonArrayAppendInt64'', Native_JsonArrayAppendInt64),
     (''async2_JsonArrayAppendFloat'', Native_JsonArrayAppendFloat),
     (''async2_JsonArrayAppendBool'', Native_JsonArrayAppendBool),
     (''async2_JsonArrayAppendNull'', Native_JsonArrayAppendNull),
     (''async2_JsonArrayAppendObject'', Native_JsonArrayAppendObject),
     (''async2_JsonEquals'', Native_JsonEquals),
     (''async2_JsonRef'', Native_JsonRef),
     (''async2_JsonCopy'', Native_JsonCopy),
     (''async2_JsonSerialize'', Native_JsonSerialize),
     (''async2_JsonPathGetInt'', Native_JsonPathGetInt),
     (''async2_JsonPathGetInt64'', Native_JsonPathGetInt64),
     (''async2_JsonPathGetFloat'', Native_JsonPathGetFloat),
     (''async2_JsonPathGetBool'', Native_JsonPathGetBool),
     (''async2_JsonPathGetString'', Native_JsonPathGetString),
     (''async2_JsonPathGet'', Native_JsonPathGet),
     (''async2_JsonPathGetType'', Native_JsonPathGetType),
     (''async2_JsonPathFailed'', Native_JsonPathFailed),
     (''async2_JsonPathError'', Native_JsonPathError),
     (''async2_JsonMemorySize'', Native_JsonMemorySize),
     (''async2_JsonGetBuffer'', Native_JsonGetBuffer),
     (''async2_IntObjectCreate'', Native_IntMapCreate),
     (''async2_IntObjectGetString'', Native_IntMapGetString),
     (''async2_IntObjectGetInt'', Native_IntMapGetInt),
     (''async2_IntObjectGetFloat'', Native_IntMapGetFloat),
     (''async2_IntObjectGetBool'', Native_IntMapGetBool),
     (''async2_IntObjectGetObject'', Native_IntMapGetObject),
     (''async2_IntObjectGetArray'', Native_IntMapGetArray),
     (''async2_IntObjectGet'', Native_IntMapGet),
     (''async2_IntObjectGetMemberType'', Native_IntMapGetMemberType),
     (''async2_IntObject64GetString'', Native_IntMapGetString64),
     (''async2_IntObject64GetInt'', Native_IntMapGetInt64Key),
     (''async2_IntObject64GetInt64'', Native_IntMapGetInt64KeyValue),
     (''async2_IntObject64GetFloat'', Native_IntMapGetFloat64),
     (''async2_IntObject64GetBool'', Native_IntMapGetBool64),
     (''async2_IntObject64GetObject'', Native_IntMapGetObject64),
     (''async2_IntObject64GetArray'', Native_IntMapGetArray64),
     (''async2_IntObject64Get'', Native_IntMapGet64),
     (''async2_IntObject64GetMemberType'', Native_IntMapGetMemberType64),
     (''async2_IntObjectSetString'', Native_IntMapSetString),
     (''async2_IntObjectSetInt'', Native_IntMapSetInt),
     (''async2_IntObjectSetFloat'', Native_IntMapSetFloat),
     (''async2_IntObjectSetBool'', Native_IntMapSetBool),
     (''async2_IntObjectSetNull'', Native_IntMapSetNull),
     (''async2_IntObjectSetObject'', Native_IntMapSetObject),
     (''async2_IntObject64SetString'', Native_IntMapSetString64),
     (''async2_IntObject64SetInt'', Native_IntMapSetInt64),
     (''async2_IntObject64SetInt64'', Native_IntMapSetInt64KeyValue),
     (''async2_IntObject64SetFloat'', Native_IntMapSetFloat64),
     (''async2_IntObject64SetBool'', Native_IntMapSetBool64),
     (''async2_IntObject64SetNull'', Native_IntMapSetNull64),
     (''async2_IntObject64SetObject'', Native_IntMapSetObject64),
     (''async2_IntObjectRemoveKey'', Native_IntMapRemoveKey),
     (''async2_IntObject64RemoveKey'', Native_IntMapRemoveKey64),
     (''async2_IntObjectClear'', Native_IntMapClear),
     (''async2_IntObjectMerge'', Native_IntMapMerge),
     (''async2_IntObjectSize'', Native_IntMapSize),
     (''async2_IntObjectHasKey'', Native_IntMapHasKey),
     (''async2_IntObject64HasKey'', Native_IntMapHasKey64)]"

end
