(* ===== verification/Runtime_Invariant.thy ===== *)
theory Runtime_Invariant
  imports Heap_Moves Json_Natives
begin

text \<open>
  What holds of the state of the natives between two calls: the handle table and the objects behind
  it correspond, the counts of the nodes are the pointers that handles, iterators, finished requests
  and containers hold, and an iterator whose version is still that of its node points into a
  table that has not changed.
\<close>

section \<open>Pointers held by objects\<close>

definition held_by :: "('b \<Rightarrow> 'm multiset) \<Rightarrow> (nat \<Rightarrow> 'b option) \<Rightarrow> 'm multiset" where
  "held_by f m = (\<Sum>p \<in> dom m. f (the (m p)))"

lemma held_by_new:
  assumes "finite (dom m)" "m p = None"
  shows "held_by f (m(p \<mapsto> x)) = held_by f m + f x"
proof -
  have "p \<notin> dom m" using assms by auto
  then have "(\<Sum>q \<in> dom m. f (the ((m(p \<mapsto> x)) q))) = (\<Sum>q \<in> dom m. f (the (m q)))" by (intro sum.cong) auto
  with assms show ?thesis by (simp add: held_by_def domIff add.commute)
qed

lemma held_by_del:
  assumes "finite (dom m)" "m p = Some x"
  shows "held_by f m = held_by f (m(p := None)) + f x"
proof -
  have "m = (m(p := None))(p \<mapsto> x)" using assms by auto
  then show ?thesis using held_by_new [of "m(p := None)" p f x] assms by simp
qed

lemma held_by_upd:
  assumes "finite (dom m)" "m p = Some x"
  shows "held_by f (m(p \<mapsto> y)) + f x = held_by f m + f y"
  using held_by_new [of "m(p := None)" p f y] held_by_del [OF assms, where f = f] assms(1) by (simp add: ac_simps)

lemma held_by_in: "finite (dom m) \<Longrightarrow> m p = Some x \<Longrightarrow> f x \<subseteq># held_by f m"
  by (simp add: held_by_del)

lemma held_by_empty [simp]: "held_by f Map.empty = {#}"
  by (simp add: held_by_def)

definition roots :: "Runtime \<Rightarrow> addr multiset" where
  "roots s = held_by (\<lambda>dh. ptr (node dh)) (datas s) + held_by (\<lambda>it. {#inode it#}) (iters s)
     + held_by (\<lambda>r. ptr (response_node r)) (requests s)"

section \<open>The invariant\<close>

text \<open>No object in a text that simdjson reads has a repeated key.\<close>

definition unique :: "Env \<Rightarrow> bool" where
  "unique env \<longleftrightarrow> (\<forall>data doc. iterate env data = Inr doc \<longrightarrow> unique_keys doc)"

definition behind :: "HandleManager \<Rightarrow> HandleType \<Rightarrow> obj set" where
  "behind m t = {pointer h | i h. used m i = Some h \<and> htype h = t}"

definition single :: "HandleManager \<Rightarrow> bool" where
  "single m \<longleftrightarrow> (\<forall>i j h g. used m i = Some h \<longrightarrow> used m j = Some g \<longrightarrow> htype h = htype g \<longrightarrow>
     htype h \<in> {HANDLE_JSON_VALUE, HANDLE_ITERATOR} \<longrightarrow> pointer h = pointer g \<longrightarrow> i = j)"

definition objects_ok :: "Runtime \<Rightarrow> bool" where
  "objects_ok s \<longleftrightarrow> hm_ok (manager s) \<and> single (manager s)
     \<and> finite (dom (datas s)) \<and> finite (dom (iters s)) \<and> finite (dom (requests s))
     \<and> (\<forall>p \<in> dom (datas s) \<union> dom (iters s) \<union> dom (requests s). p < next_obj s)
     \<and> (\<forall>p dh. datas s p = Some dh \<longrightarrow> node dh \<noteq> None)
     \<and> dom (datas s) = behind (manager s) HANDLE_JSON_VALUE
     \<and> dom (iters s) = behind (manager s) HANDLE_ITERATOR
     \<and> behind (manager s) HANDLE_HTTP_REQUEST \<subseteq> dom (requests s)"

lemma objects_okD:
  assumes "objects_ok s"
  shows "hm_ok (manager s)" "single (manager s)" "finite (dom (datas s))" "finite (dom (iters s))"
    "finite (dom (requests s))" "p \<in> dom (datas s) \<union> dom (iters s) \<union> dom (requests s) \<Longrightarrow> p < next_obj s"
    "datas s p = Some dh \<Longrightarrow> \<exists>a. node dh = Some a"
    "dom (datas s) = behind (manager s) HANDLE_JSON_VALUE" "dom (iters s) = behind (manager s) HANDLE_ITERATOR"
    "behind (manager s) HANDLE_HTTP_REQUEST \<subseteq> dom (requests s)"
  using assms unfolding objects_ok_def by (blast | auto)+

lemma obj_below:
  assumes "objects_ok s"
  shows "datas s p = Some dh \<Longrightarrow> p < next_obj s" "iters s p = Some it \<Longrightarrow> p < next_obj s"
    "requests s p = Some r \<Longrightarrow> p < next_obj s"
  using objects_okD(6) [OF assms, of p] by auto

fun container :: "IteratorType \<Rightarrow> DataType" where
  "container ObjectIter = TObject"
| "container IntMapIter = TIntMap"

text \<open>\<open>d\<close> changes since the iterator was made, at most one per call of a native.\<close>

definition iter_ok :: "nat \<Rightarrow> Cell \<Rightarrow> DataIterator \<Rightarrow> bool" where
  "iter_ok N c it \<longleftrightarrow> type_of (payload c) = container (itype it)
     \<and> (\<exists>v d. iversion it = ucast v \<and> d \<le> N \<and> version c = v + of_nat d
          \<and> (d = 0 \<longrightarrow> epoch c = iepoch it \<and> set_option (ivalue it) \<subseteq> set (children (payload c))))"

definition iters_ok :: "nat \<Rightarrow> Runtime \<Rightarrow> bool" where
  "iters_ok N s \<longleftrightarrow> (\<forall>p it. iters s p = Some it \<longrightarrow> (\<exists>c. cells (heap s) (inode it) = Some c \<and> iter_ok N c it))"

text \<open>\<open>N\<close> bounds the number of calls so far, and \<open>E\<close> holds the pointers that a native in progress has in
  its hands.  Pointers that the parser lost count as held forever.\<close>

definition rt_ok :: "Env \<Rightarrow> nat \<Rightarrow> addr multiset \<Rightarrow> Runtime \<Rightarrow> bool" where
  "rt_ok env N E s \<longleftrightarrow> (\<exists>L. (unique env \<longrightarrow> L = {#}) \<and> counted (Suc N) (roots s + E + L) (heap s))
     \<and> objects_ok s \<and> iters_ok N s"

lemma rt_okI:
  "unique env \<longrightarrow> L = {#} \<Longrightarrow> counted (Suc N) (roots s + E + L) (heap s) \<Longrightarrow> objects_ok s \<Longrightarrow> iters_ok N s \<Longrightarrow>
    rt_ok env N E s"
  by (auto simp: rt_ok_def)

lemma rt_ok_init: "rt_ok env 0 {#} Runtime_init"
proof -
  have "counted (Suc 0) {#} Heap_init" by (rule heap_ok_init)
  then show ?thesis
    by (auto simp: rt_ok_def Runtime_init_def roots_def objects_ok_def iters_ok_def hm_init_ok behind_def single_def)
qed

text \<open>What does not concern the objects does not concern the invariant.\<close>

lemma rt_ok_quiet [simp]:
  "rt_ok env N E (s\<lparr>writes := w\<rparr>) = rt_ok env N E s" "rt_ok env N E (writes_update fw s) = rt_ok env N E s"
  "rt_ok env N E (s\<lparr>thrown := t\<rparr>) = rt_ok env N E s" "rt_ok env N E (thrown_update ft s) = rt_ok env N E s"
  "rt_ok env N E (g_path_failed_update fb s) = rt_ok env N E s"
  "rt_ok env N E (g_path_error_update fe s) = rt_ok env N E s"
  by (simp_all add: rt_ok_def objects_ok_def iters_ok_def roots_def)

lemma roots_quiet [simp]:
  "roots (writes_update fw s) = roots s" "roots (thrown_update ft s) = roots s"
  "roots (g_path_failed_update fb s) = roots s" "roots (g_path_error_update fe s) = roots s"
  "roots (heap_update fh s) = roots s" "roots (manager_update fm s) = roots s"
  "roots (next_obj_update fo s) = roots s"
  by (simp_all add: roots_def)

lemma objects_ok_heap [simp]: "objects_ok (heap_update fh s) = objects_ok s"
  by (simp add: objects_ok_def)

subsection \<open>Iterators\<close>

lemma iter_ok_mono: "iter_ok N c it \<Longrightarrow> N \<le> N' \<Longrightarrow> iter_ok N' c it"
  unfolding iter_ok_def by (meson order_trans)

lemma iter_ok_same: "iter_ok N c it \<Longrightarrow> same_node c c' \<Longrightarrow> iter_ok N c' it"
  by (simp add: iter_ok_def same_node_def)

lemma iter_ok_tick:
  assumes "iter_ok N c it" "tick c c'"
  shows "iter_ok (Suc N) c' it"
proof -
  from assms have "type_of (payload c) \<in> {TObject, TIntMap}" by (cases "itype it") (auto simp: iter_ok_def)
  with assms(2) consider "same_node c c'" | "version c' = version c + 1" "type_of (payload c') = type_of (payload c)"
    by (auto simp: tick_def)
  then show ?thesis
  proof cases
    case 1
    with assms(1) show ?thesis by (auto intro: iter_ok_mono iter_ok_same)
  next
    case 2
    from assms(1) obtain v d where vd: "iversion it = ucast v" "d \<le> N" "version c = v + of_nat d"
      by (auto simp: iter_ok_def)
    with 2 have "iversion it = ucast v \<and> Suc d \<le> Suc N \<and> version c' = v + of_nat (Suc d)" by simp
    with assms(1) 2(2) show ?thesis
      unfolding iter_ok_def by (metis nat.simps(3))
  qed
qed

lemma ucast_24_inject: "(ucast (v :: 24 word) :: u32) = ucast w \<longleftrightarrow> v = w"
proof
  assume "(ucast v :: u32) = ucast w"
  then have eq: "bit (ucast v :: u32) i = bit (ucast w :: u32) i" for i by simp
  have "bit v i = bit w i" if "i < 24" for i using eq [of i] that by (simp add: bit_ucast_iff)
  then show "v = w" by (intro bit_word_eqI) auto
qed simp

lemma iter_ok_current:
  assumes "iter_ok N c it" "N < 2 ^ 24" "ucast (version c) = iversion it"
  shows "epoch c = iepoch it" "set_option (ivalue it) \<subseteq> set (children (payload c))"
proof -
  from assms(1) obtain v d where vd: "iversion it = ucast v" "d \<le> N" "version c = v + of_nat d"
    "d = 0 \<longrightarrow> epoch c = iepoch it \<and> set_option (ivalue it) \<subseteq> set (children (payload c))"
    by (auto simp: iter_ok_def)
  have "version c = v" using assms(3) vd(1) by (simp add: ucast_24_inject)
  with vd(3) have "(of_nat d :: 24 word) = 0" by simp
  with vd(2) assms(2) have "d = 0" by (auto simp: word_of_nat_eq_0_iff dest: dvd_imp_le)
  with vd(4) show "epoch c = iepoch it" "set_option (ivalue it) \<subseteq> set (children (payload c))" by auto
qed

section \<open>Steps on the heap\<close>

lemma heap_ok_mono: "heap_ok n M R h \<Longrightarrow> n \<le> n' \<Longrightarrow> heap_ok n' M R h"
  unfolding heap_ok_def by (meson order_trans)

lemma rt_okE:
  assumes "rt_ok env N E s"
  obtains L where "unique env \<longrightarrow> L = {#}" "counted (Suc N) (roots s + E + L) (heap s)" "objects_ok s" "iters_ok N s"
  using assms by (auto simp: rt_ok_def)

lemma iter_root: "objects_ok s \<Longrightarrow> iters s p = Some it \<Longrightarrow> inode it \<in># roots s"
  using held_by_in [OF objects_okD(4), of s p it "\<lambda>it. {#inode it#}"] by (simp add: roots_def)

lemma data_root:
  assumes "objects_ok s" "datas s p = Some dh"
  shows "\<exists>a. dh = \<lparr>node = Some a\<rparr> \<and> a \<in># roots s"
proof -
  from objects_okD(7) [OF assms] obtain a where a: "node dh = Some a" by blast
  moreover have "dh = \<lparr>node = Some a\<rparr>" using a by simp
  moreover have "a \<in># roots s"
    using held_by_in [OF objects_okD(3) [OF assms(1)] assms(2), of "\<lambda>dh. ptr (node dh)"] a by (simp add: roots_def)
  ultimately show ?thesis by blast
qed

lemma iters_okD: "iters_ok N s \<Longrightarrow> iters s p = Some it \<Longrightarrow> cells (heap s) (inode it) = Some c \<Longrightarrow> iter_ok N c it"
  by (fastforce simp: iters_ok_def)

text \<open>The nodes of iterators stay, since iterators hold them.\<close>

lemma iters_ok_moves:
  assumes "iters_ok N s" "objects_ok s" "counted n (roots s + E) (heap s)" "counted n' (roots s + E') h'"
    "moves X (heap s) h'" "\<forall>it \<in> ran (iters s). inode it \<notin> X"
  shows "iters_ok (Suc N) (s\<lparr>heap := h'\<rparr>)"
  unfolding iters_ok_def
proof (intro allI impI)
  fix p it assume "iters (s\<lparr>heap := h'\<rparr>) p = Some it"
  then have it: "iters s p = Some it" by simp
  from iter_root [OF assms(2) it] assms(3,4) obtain c c' where
    c: "cells (heap s) (inode it) = Some c" "cells h' (inode it) = Some c'"
    by (metis heap_ok_live union_iff)
  from it assms(6) have "inode it \<notin> X" by (auto intro: ranI)
  with movesD [OF assms(5) heap_okD(2) [OF assms(3) c(1)] c(2)] c have "tick c c'" by simp
  with iter_ok_tick [OF iters_okD [OF assms(1) it c(1)]] c(2)
  show "\<exists>c. cells (heap (s\<lparr>heap := h'\<rparr>)) (inode it) = Some c \<and> iter_ok (Suc N) c it" by simp
qed

lemma iters_ok_keeps:
  assumes "iters_ok N s" "objects_ok s" "counted n (roots s + E) (heap s)" "counted n' (roots s + E') h'"
    "keeps (heap s) h'" "N \<le> N'"
  shows "iters_ok N' (s\<lparr>heap := h'\<rparr>)"
  unfolding iters_ok_def
proof (intro allI impI)
  fix p it assume "iters (s\<lparr>heap := h'\<rparr>) p = Some it"
  then have it: "iters s p = Some it" by simp
  from iter_root [OF assms(2) it] assms(3,4) obtain c c' where
    c: "cells (heap s) (inode it) = Some c" "cells h' (inode it) = Some c'"
    by (metis heap_ok_live union_iff)
  with keeps_cell [OF assms(5) heap_okD(2) [OF assms(3) c(1)] c(2)] have "same_node c c'" by simp
  with iter_ok_mono [OF iter_ok_same [OF iters_okD [OF assms(1) it c(1)]] assms(6)] c(2)
  show "\<exists>c. cells (heap (s\<lparr>heap := h'\<rparr>)) (inode it) = Some c \<and> iter_ok N' c it" by simp
qed

lemma iters_ok_mono: "iters_ok N s \<Longrightarrow> N \<le> N' \<Longrightarrow> iters_ok N' s"
  by (meson iter_ok_mono iters_ok_def)

lemma rt_ok_mono: "rt_ok env N E s \<Longrightarrow> N \<le> N' \<Longrightarrow> rt_ok env N' E s"
  by (elim rt_okE, erule rt_okI) (auto intro: heap_ok_mono iters_ok_mono)

text \<open>An action on the heap that changes maps by at most a tick, and one that leaves them alone.\<close>

lemma wp_heap_moves:
  assumes "rt_ok env N E s" "\<forall>it \<in> ran (iters s). inode it \<notin> X"
    and "\<And>L. counted (Suc N) (roots s + E + L) (heap s) \<Longrightarrow>
      wp m (\<lambda>x h'. counted (Suc (Suc N)) (roots s + E' x + L) h' \<and> moves X (heap s) h') (heap s)"
    and "\<And>x h'. rt_ok env (Suc N) (E' x) (s\<lparr>heap := h'\<rparr>) \<Longrightarrow> Q x (s\<lparr>heap := h'\<rparr>)"
  shows "wp (on_heap m) Q s"
proof -
  from assms(1) obtain L where L: "unique env \<longrightarrow> L = {#}" "counted (Suc N) (roots s + E + L) (heap s)"
    "objects_ok s" "iters_ok N s" by (rule rt_okE)
  show ?thesis
    unfolding on_heap_def wp_zoom
  proof (rule wp_mono [OF assms(3) [OF L(2)]], elim conjE, rule assms(4))
    fix x h' assume h': "counted (Suc (Suc N)) (roots s + E' x + L) h'" "moves X (heap s) h'"
    have "iters_ok (Suc N) (s\<lparr>heap := h'\<rparr>)"
      by (rule iters_ok_moves [OF L(4,3) _ _ h'(2) assms(2)])
        (use L(2) h'(1) in \<open>simp_all add: add.assoc\<close>)
    with L h' show "rt_ok env (Suc N) (E' x) (s\<lparr>heap := h'\<rparr>)" by (intro rt_okI [OF L(1)]) simp_all
  qed
qed

lemma wp_heap_keeps:
  assumes "rt_ok env N E s" "N \<le> N'"
    and "\<And>L. counted (Suc N) (roots s + E + L) (heap s) \<Longrightarrow>
      wp m (\<lambda>x h'. (\<exists>K. (unique env \<longrightarrow> K = {#}) \<and> counted (Suc N') (roots s + E' x + L + K) h')
        \<and> keeps (heap s) h' \<and> P x h') (heap s)"
    and "\<And>x h'. rt_ok env N' (E' x) (s\<lparr>heap := h'\<rparr>) \<Longrightarrow> P x h' \<Longrightarrow> Q x (s\<lparr>heap := h'\<rparr>)"
  shows "wp (on_heap m) Q s"
proof -
  from assms(1) obtain L where L: "unique env \<longrightarrow> L = {#}" "counted (Suc N) (roots s + E + L) (heap s)"
    "objects_ok s" "iters_ok N s" by (rule rt_okE)
  show ?thesis
    unfolding on_heap_def wp_zoom
  proof (rule wp_mono [OF assms(3) [OF L(2)]], elim conjE exE, rule assms(4))
    fix x h' K assume h': "counted (Suc N') (roots s + E' x + L + K) h'" "keeps (heap s) h'" "unique env \<longrightarrow> K = {#}"
    have "iters_ok N' (s\<lparr>heap := h'\<rparr>)"
      by (rule iters_ok_keeps [OF L(4,3) _ _ h'(2) assms(2)])
        (use L(2) h'(1) in \<open>simp_all add: add.assoc\<close>)
    with L(1,3) h' show "rt_ok env N' (E' x) (s\<lparr>heap := h'\<rparr>)"
      by (intro rt_okI [where L = "L + K"]) (simp_all add: add.assoc)
  qed
qed

section \<open>Objects and handles\<close>

lemma behind_iff: "p \<in> behind m t \<longleftrightarrow> (\<exists>i h. used m i = Some h \<and> htype h = t \<and> pointer h = p)"
  by (auto simp: behind_def)

lemma behind_add:
  "used m' = (used m)(i \<mapsto> h) \<Longrightarrow> used m i = None \<Longrightarrow>
    behind m' t = (if htype h = t then insert (pointer h) (behind m t) else behind m t)"
  by (auto simp: behind_iff set_eq_iff) (metis option.distinct(1))+

lemma behind_same: "used m' = used m \<Longrightarrow> behind m' = behind m \<and> single m' = single m"
  by (simp add: behind_def single_def fun_eq_iff)

lemma behind_del_other: "used m' = (used m)(i := None) \<Longrightarrow> used m i = Some h \<Longrightarrow> htype h \<noteq> t \<Longrightarrow> behind m' t = behind m t"
  by (auto simp: behind_iff set_eq_iff) (metis option.inject)+

lemma behind_del:
  assumes "used m' = (used m)(i := None)" "used m i = Some h" "single m"
    "htype h \<in> {HANDLE_JSON_VALUE, HANDLE_ITERATOR}"
  shows "behind m' (htype h) = behind m (htype h) - {pointer h}"
proof (intro set_eqI iffI)
  fix p assume "p \<in> behind m' (htype h)"
  then obtain j g where g: "used m' j = Some g" "htype g = htype h" "p = pointer g" by (auto simp: behind_def)
  with assms(1) have j: "j \<noteq> i" "used m j = Some g" by (auto split: if_splits)
  with assms g have "pointer g \<noteq> pointer h" unfolding single_def by (metis)
  with g j show "p \<in> behind m (htype h) - {pointer h}" by (auto simp: behind_def)
next
  fix p assume "p \<in> behind m (htype h) - {pointer h}"
  then obtain j g where "used m j = Some g" "htype g = htype h" "p = pointer g" "pointer g \<noteq> pointer h"
    by (auto simp: behind_def)
  with assms(1,2) show "p \<in> behind m' (htype h)" by (cases "j = i") (auto simp: behind_def)
qed

lemma single_add:
  assumes "single m" "used m' = (used m)(i \<mapsto> h)" "pointer h \<notin> behind m (htype h)"
  shows "single m'"
  using assms unfolding single_def behind_def by (auto split: if_splits)

lemma single_del: "single m \<Longrightarrow> used m' = (used m)(i := None) \<Longrightarrow> single m'"
  unfolding single_def by (auto split: if_splits)


text \<open>A new handle object, with the pointer the native holds, becomes part of the table; when the
  table is full it is deleted again.\<close>

lemma objects_ok_add:
  assumes "objects_ok s" "used (manager s) i = None" "hm_ok m'"
    "used m' = (used (manager s))(i \<mapsto> \<lparr>htype = t, pointer = next_obj s, owner = own, closed = False\<rparr>)"
    "t = HANDLE_JSON_VALUE \<and> d' = (datas s)(next_obj s \<mapsto> \<lparr>node = Some a\<rparr>) \<and> i' = iters s
     \<or> t = HANDLE_ITERATOR \<and> d' = datas s \<and> i' = (iters s)(next_obj s \<mapsto> it)"
  shows "objects_ok (s\<lparr>datas := d', iters := i', next_obj := Suc (next_obj s), manager := m'\<rparr>)"
proof -
  note D = objects_okD [OF assms(1)]
  have new: "next_obj s \<notin> dom (datas s) \<union> dom (iters s)" using D(6) by blast
  have b: "behind m' t' = (if t = t' then insert (next_obj s) (behind (manager s) t') else behind (manager s) t')" for t'
    using behind_add [OF assms(4,2)] by simp
  have "t \<in> {HANDLE_JSON_VALUE, HANDLE_ITERATOR}" using assms(5) by blast
  with D(8,9) new have "next_obj s \<notin> behind (manager s) t" by auto
  then have "single m'" by (intro single_add [OF D(2) assms(4)]) simp
  moreover have "\<forall>p \<in> dom d' \<union> dom i' \<union> dom (requests s). p < Suc (next_obj s)"
    using assms(5) obj_below [OF assms(1)] by (auto simp: less_Suc_eq split: if_splits)
  moreover have "\<forall>p dh. d' p = Some dh \<longrightarrow> node dh \<noteq> None" using assms(5) D(7) by (auto split: if_splits)
  moreover have "dom d' = behind m' HANDLE_JSON_VALUE" "dom i' = behind m' HANDLE_ITERATOR"
    "behind m' HANDLE_HTTP_REQUEST \<subseteq> dom (requests s)" "finite (dom d')" "finite (dom i')"
    using assms(5) D(3,4,8-10) by (elim disjE; elim conjE; simp add: b)+
  ultimately show ?thesis
    using assms(3) D(5) by (simp add: objects_ok_def)
qed

lemma objects_ok_full:
  assumes "objects_ok s" "hm_ok m'" "used m' = used (manager s)"
  shows "objects_ok (s\<lparr>next_obj := Suc (next_obj s), manager := m'\<rparr>)"
  using objects_okD [OF assms(1)] assms behind_same [OF assms(3)] by (auto simp: objects_ok_def less_Suc_eq)

lemma fresh_obj: "objects_ok s \<Longrightarrow> datas s (next_obj s) = None \<and> iters s (next_obj s) = None"
  using objects_okD(6) [of s "next_obj s"] by auto

lemma wp_on_heap: "wp (on_heap m) Q s = wp m (\<lambda>x h'. Q x (s\<lparr>heap := h'\<rparr>)) (heap s)"
  by (simp add: on_heap_def)

lemma wp_data_at: "datas s p = Some dh \<Longrightarrow> wp (data_at p) Q s = Q dh s"
  by (simp add: wp_def data_at_def)

lemma wp_iter_at: "iters s p = Some it \<Longrightarrow> wp (iter_at p) Q s = Q it s"
  by (simp add: wp_def iter_at_def)

lemma wp_new_data: "wp (new_data dh) Q s
    = Q (next_obj s) (s\<lparr>datas := (datas s)(next_obj s \<mapsto> dh), next_obj := Suc (next_obj s)\<rparr>)"
  by (simp add: wp_def new_data_def)

lemma wp_new_iter: "wp (new_iter it) Q s
    = Q (next_obj s) (s\<lparr>iters := (iters s)(next_obj s \<mapsto> it), next_obj := Suc (next_obj s)\<rparr>)"
  by (simp add: wp_def new_iter_def)

lemma wp_create_handle:
  assumes "hm_ok (manager s)"
    and "\<And>i m'. i \<noteq> 0 \<Longrightarrow> hm_ok m' \<Longrightarrow> used (manager s) i = None \<Longrightarrow>
      used m' = (used (manager s))(i \<mapsto> \<lparr>htype = t, pointer = p, owner = Some (plugin ctx), closed = False\<rparr>) \<Longrightarrow>
      Q i (s\<lparr>manager := m'\<rparr>)"
    and "\<And>m'. hm_ok m' \<Longrightarrow> used m' = used (manager s) \<Longrightarrow> Q 0 (s\<lparr>manager := m'\<rparr>)"
  shows "wp (create_handle ctx p t) Q s"
  by (rule create_cases [OF assms(1), of p t "Some (plugin ctx)"])
    (auto simp: wp_def create_handle_def intro: assms(2,3))

lemma wp_drop_root:
  assumes "rt_ok env N (add_mset a E) s" "\<And>h'. rt_ok env N E (s\<lparr>heap := h'\<rparr>) \<Longrightarrow> Q () (s\<lparr>heap := h'\<rparr>)"
  shows "wp (on_heap (Decref k (Some a))) Q s"
proof (rule wp_heap_keeps [OF assms(1) order_refl, where E' = "\<lambda>_. E" and P = "\<lambda>_ _. True"])
  fix L assume "counted (Suc N) (roots s + add_mset a E + L) (heap s)"
  then have "counted (Suc N) (add_mset a (roots s + E + L)) (heap s)" by simp
  from drop_ok [OF this] show "wp (Decref k (Some a)) (\<lambda>x h'. (\<exists>K. (unique env \<longrightarrow> K = {#})
      \<and> counted (Suc N) (roots s + E + L + K) h') \<and> keeps (heap s) h' \<and> True) (heap s)"
    by (rule wp_mono) (auto intro!: exI [of _ "{#}"] counts_only_keeps)
qed (use assms(2) in auto)

lemma roots_new_data: "objects_ok s \<Longrightarrow>
    roots (s\<lparr>datas := (datas s)(next_obj s \<mapsto> \<lparr>node = Some a\<rparr>), next_obj := n, manager := m\<rparr>) = add_mset a (roots s)"
  by (simp add: roots_def held_by_new objects_okD(3) fresh_obj)

lemma roots_new_iter: "objects_ok s \<Longrightarrow>
    roots (s\<lparr>iters := (iters s)(next_obj s \<mapsto> it), next_obj := n, manager := m\<rparr>) = add_mset (inode it) (roots s)"
  by (simp add: roots_def held_by_new objects_okD(4) fresh_obj)

lemma wp_publish:
  assumes "rt_ok env N (add_mset a E) s"
  shows "wp (publish env ctx \<lparr>node = Some a\<rparr>) (\<lambda>_. rt_ok env N E) s"
proof -
  from assms obtain L where L: "unique env \<longrightarrow> L = {#}" "counted (Suc N) (roots s + add_mset a E + L) (heap s)"
    "objects_ok s" "iters_ok N s" by (rule rt_okE)
  define p s1 where "p = next_obj s"
    and "s1 = s\<lparr>datas := (datas s)(p \<mapsto> \<lparr>node = Some a\<rparr>), next_obj := Suc p\<rparr>"
  have "wp (create_handle ctx p HANDLE_JSON_VALUE) (\<lambda>handle.
      wp (if handle = 0 then seq (delete_data env p) (\<lambda>_. ret 0) else ret handle) (\<lambda>_. rt_ok env N E)) s1"
  proof (rule wp_create_handle)
    show "hm_ok (manager s1)" using objects_okD(1) [OF L(3)] by (simp add: s1_def)
  next
    fix i m' assume new: "i \<noteq> 0" "hm_ok m'" "used (manager s1) i = None" "used m' = (used (manager s1))(i \<mapsto>
      \<lparr>htype = HANDLE_JSON_VALUE, pointer = p, owner = Some (plugin ctx), closed = False\<rparr>)"
    have "objects_ok (s1\<lparr>manager := m'\<rparr>)"
      using objects_ok_add [OF L(3) _ new(2), of i HANDLE_JSON_VALUE _ _ a "iters s"] new(3,4)
      by (simp add: s1_def p_def)
    moreover have "roots (s1\<lparr>manager := m'\<rparr>) = add_mset a (roots s)"
      using roots_new_data [OF L(3), where a = a and n = "Suc p" and m = m'] by (simp add: s1_def p_def)
    ultimately have "rt_ok env N E (s1\<lparr>manager := m'\<rparr>)"
      using L by (intro rt_okI [OF L(1)]) (simp_all add: s1_def iters_ok_def)
    with new(1) show "wp (if i = 0 then seq (delete_data env p) (\<lambda>_. ret 0) else ret i) (\<lambda>_. rt_ok env N E)
        (s1\<lparr>manager := m'\<rparr>)" by simp
  next
    fix m' assume full: "hm_ok m'" "used m' = used (manager s1)"
    define s0 where "s0 = s\<lparr>next_obj := Suc p, manager := m'\<rparr>"
    have "objects_ok s0" using objects_ok_full [OF L(3) full(1)] full(2) by (simp add: s0_def s1_def p_def)
    then have "rt_ok env N (add_mset a E) s0"
      using L by (intro rt_okI [OF L(1)]) (simp_all add: s0_def roots_def iters_ok_def)
    then have "wp (on_heap (Decref (stack env) (Some a))) (\<lambda>_. rt_ok env N E) s0" by (rule wp_drop_root)
    moreover have "datas_update (\<lambda>d. d(p := None)) (s1\<lparr>manager := m', heap := h'\<rparr>) = s0\<lparr>heap := h'\<rparr>" for h'
      using fresh_obj [OF L(3)] by (cases s) (simp add: s1_def s0_def p_def fun_upd_idem)
    moreover have "datas (s1\<lparr>manager := m'\<rparr>) p = Some \<lparr>node = Some a\<rparr>" "heap s1 = heap s0"
      by (simp_all add: s1_def s0_def)
    ultimately show "wp (if 0 = (0 :: i32) then seq (delete_data env p) (\<lambda>_. ret 0) else ret 0) (\<lambda>_. rt_ok env N E)
        (s1\<lparr>manager := m'\<rparr>)"
      by (simp add: delete_data_def wp_data_at wp_on_heap DataHandle_delete_def)
  qed
  then show ?thesis unfolding publish_def wp_seq wp_new_data s1_def p_def .
qed


text \<open>The same for an iterator.\<close>

lemma wp_publish_iter:
  assumes "rt_ok env N (add_mset (inode it) E) s" "cells (heap s) (inode it) = Some c" "iter_ok N c it"
  shows "wp (seq (new_iter it) (\<lambda>q. seq (create_handle ctx q HANDLE_ITERATOR) (\<lambda>handle.
    if handle = 0 then seq (delete_iter env q) (\<lambda>_. ret 0) else ret handle))) (\<lambda>_. rt_ok env N E) s"
proof -
  from assms(1) obtain L where L: "unique env \<longrightarrow> L = {#}"
    "counted (Suc N) (roots s + add_mset (inode it) E + L) (heap s)" "objects_ok s" "iters_ok N s" by (rule rt_okE)
  define p s1 where "p = next_obj s" and "s1 = s\<lparr>iters := (iters s)(p \<mapsto> it), next_obj := Suc p\<rparr>"
  have "wp (create_handle ctx p HANDLE_ITERATOR) (\<lambda>handle.
      wp (if handle = 0 then seq (delete_iter env p) (\<lambda>_. ret 0) else ret handle) (\<lambda>_. rt_ok env N E)) s1"
  proof (rule wp_create_handle)
    show "hm_ok (manager s1)" using objects_okD(1) [OF L(3)] by (simp add: s1_def)
  next
    fix i m' assume new: "i \<noteq> 0" "hm_ok m'" "used (manager s1) i = None" "used m' = (used (manager s1))(i \<mapsto>
      \<lparr>htype = HANDLE_ITERATOR, pointer = p, owner = Some (plugin ctx), closed = False\<rparr>)"
    have "objects_ok (s1\<lparr>manager := m'\<rparr>)"
      using objects_ok_add [OF L(3) _ new(2), of i HANDLE_ITERATOR _ "datas s" _ _ it] new(3,4)
      by (simp add: s1_def p_def)
    moreover have "roots (s1\<lparr>manager := m'\<rparr>) = add_mset (inode it) (roots s)"
      using roots_new_iter [OF L(3), where it = it and n = "Suc p" and m = m'] by (simp add: s1_def p_def)
    moreover have "iters_ok N (s1\<lparr>manager := m'\<rparr>)" using L(4) assms(2,3) by (simp add: s1_def iters_ok_def)
    ultimately have "rt_ok env N E (s1\<lparr>manager := m'\<rparr>)"
      using L by (intro rt_okI [OF L(1)]) (simp_all add: s1_def)
    with new(1) show "wp (if i = 0 then seq (delete_iter env p) (\<lambda>_. ret 0) else ret i) (\<lambda>_. rt_ok env N E)
        (s1\<lparr>manager := m'\<rparr>)" by simp
  next
    fix m' assume full: "hm_ok m'" "used m' = used (manager s1)"
    define s0 where "s0 = s\<lparr>next_obj := Suc p, manager := m'\<rparr>"
    have "objects_ok s0" using objects_ok_full [OF L(3) full(1)] full(2) by (simp add: s0_def s1_def p_def)
    then have "rt_ok env N (add_mset (inode it) E) s0"
      using L by (intro rt_okI [OF L(1)]) (simp_all add: s0_def roots_def iters_ok_def)
    then have "wp (on_heap (Decref (stack env) (Some (inode it)))) (\<lambda>_. rt_ok env N E) s0" by (rule wp_drop_root)
    moreover have "iters_update (\<lambda>d. d(p := None)) (s1\<lparr>manager := m', heap := h'\<rparr>) = s0\<lparr>heap := h'\<rparr>" for h'
      using fresh_obj [OF L(3)] by (cases s) (simp add: s1_def s0_def p_def fun_upd_idem)
    moreover have "iters (s1\<lparr>manager := m'\<rparr>) p = Some it" "heap s1 = heap s0"
      by (simp_all add: s1_def s0_def)
    ultimately show "wp (if 0 = (0 :: i32) then seq (delete_iter env p) (\<lambda>_. ret 0) else ret 0) (\<lambda>_. rt_ok env N E)
        (s1\<lparr>manager := m'\<rparr>)"
      by (simp add: delete_iter_def wp_iter_at wp_on_heap DataIterator_delete_def)
  qed
  then show ?thesis unfolding wp_seq wp_new_iter s1_def p_def .
qed

text \<open>Closing a handle: its object is deleted and gives up its pointer.\<close>

lemma objects_ok_del:
  assumes "objects_ok s" "used (manager s) i = Some h" "hm_ok m'" "used m' = (used (manager s))(i := None)"
    "htype h = HANDLE_JSON_VALUE \<and> d' = (datas s)(pointer h := None) \<and> i' = iters s
     \<or> htype h = HANDLE_ITERATOR \<and> d' = datas s \<and> i' = (iters s)(pointer h := None)"
  shows "objects_ok (s\<lparr>datas := d', iters := i', manager := m'\<rparr>)"
proof -
  note D = objects_okD [OF assms(1)]
  have "htype h \<in> {HANDLE_JSON_VALUE, HANDLE_ITERATOR}" using assms(5) by blast
  from behind_del [OF assms(4,2) D(2) this] behind_del_other [OF assms(4,2)]
  have b: "behind m' t = (if htype h = t then behind (manager s) t - {pointer h} else behind (manager s) t)" for t
    by auto
  have "single m'" by (rule single_del [OF D(2) assms(4)])
  moreover have "\<forall>p \<in> dom d' \<union> dom i' \<union> dom (requests s). p < next_obj s"
    using assms(5) obj_below [OF assms(1)] by (auto split: if_splits)
  moreover have "\<forall>p dh. d' p = Some dh \<longrightarrow> node dh \<noteq> None" using assms(5) D(7) by (auto split: if_splits)
  moreover have "dom d' = behind m' HANDLE_JSON_VALUE" "dom i' = behind m' HANDLE_ITERATOR"
    "behind m' HANDLE_HTTP_REQUEST \<subseteq> dom (requests s)" "finite (dom d')" "finite (dom i')"
    using assms(5) D(3,4,8-10) by (elim disjE; elim conjE; simp add: b)+
  ultimately show ?thesis using assms(3) D(5) by (simp add: objects_ok_def)
qed

lemma wp_free_data:
  assumes "rt_ok env N E s" "used (manager s) i = Some h" "htype h = HANDLE_JSON_VALUE"
  shows "wp (free_handle env i) (\<lambda>_. rt_ok env N E) s"
proof -
  from assms(1) obtain L where L: "unique env \<longrightarrow> L = {#}" "counted (Suc N) (roots s + E + L) (heap s)"
    "objects_ok s" "iters_ok N s" by (rule rt_okE)
  define m' p where "m' = FreeHandle i (manager s)" and "p = pointer h"
  from FreeHandle_refines [OF objects_okD(1) [OF L(3)]] have m': "hm_ok m'" "used m' = (used (manager s))(i := None)"
    by (auto simp: m'_def)
  have "p \<in> dom (datas s)"
    using assms(2,3) unfolding objects_okD(8) [OF L(3)] behind_iff p_def by blast
  then obtain dh where dh: "datas s p = Some dh" by blast
  with data_root [OF L(3)] obtain a where a: "dh = \<lparr>node = Some a\<rparr>" by blast
  define s0 where "s0 = s\<lparr>datas := (datas s)(p := None), manager := m'\<rparr>"
  have "objects_ok s0"
    using objects_ok_del [OF L(3) assms(2) m', of "(datas s)(p := None)" "iters s"] assms(3) by (simp add: s0_def p_def)
  moreover have "roots s = add_mset a (roots s0)"
    using held_by_del [OF objects_okD(3) [OF L(3)] dh, of "\<lambda>dh. ptr (node dh)"] by (simp add: roots_def s0_def a)
  ultimately have "rt_ok env N (add_mset a E) s0"
    using L by (intro rt_okI [OF L(1)]) (simp_all add: s0_def iters_ok_def)
  then have "wp (on_heap (Decref (stack env) (Some a))) (\<lambda>_. rt_ok env N E) s0" by (rule wp_drop_root)
  moreover have "datas_update (\<lambda>d. d(p := None)) ((manager_update (FreeHandle i) s)\<lparr>heap := h'\<rparr>) = s0\<lparr>heap := h'\<rparr>" for h'
    by (cases s) (simp add: s0_def m'_def)
  moreover have "datas (s\<lparr>manager := m'\<rparr>) p = Some dh" "heap s = heap s0" using dh by (simp_all add: s0_def)
  moreover have "drop (length (deleted (manager s))) (deleted m') = [(HANDLE_JSON_VALUE, p)]"
    using FreeHandle_deleted [OF assms(2)] assms(3) by (simp add: m'_def p_def)
  ultimately show ?thesis
    by (simp add: free_handle_def delete_object_def delete_data_def wp_data_at wp_on_heap DataHandle_delete_def a
        flip: m'_def)
qed

lemma wp_free_iter:
  assumes "rt_ok env N E s" "used (manager s) i = Some h" "htype h = HANDLE_ITERATOR"
  shows "wp (free_handle env i) (\<lambda>_. rt_ok env N E) s"
proof -
  from assms(1) obtain L where L: "unique env \<longrightarrow> L = {#}" "counted (Suc N) (roots s + E + L) (heap s)"
    "objects_ok s" "iters_ok N s" by (rule rt_okE)
  define m' p where "m' = FreeHandle i (manager s)" and "p = pointer h"
  from FreeHandle_refines [OF objects_okD(1) [OF L(3)]] have m': "hm_ok m'" "used m' = (used (manager s))(i := None)"
    by (auto simp: m'_def)
  have "p \<in> dom (iters s)"
    using assms(2,3) unfolding objects_okD(9) [OF L(3)] behind_iff p_def by blast
  then obtain it where it: "iters s p = Some it" by blast
  define s0 where "s0 = s\<lparr>iters := (iters s)(p := None), manager := m'\<rparr>"
  have "objects_ok s0"
    using objects_ok_del [OF L(3) assms(2) m', of "datas s" "(iters s)(p := None)"] assms(3) by (simp add: s0_def p_def)
  moreover have "roots s = add_mset (inode it) (roots s0)"
    using held_by_del [OF objects_okD(4) [OF L(3)] it, of "\<lambda>it. {#inode it#}"] by (simp add: roots_def s0_def)
  moreover have "iters_ok N s0" using L(4) by (simp add: s0_def iters_ok_def)
  ultimately have "rt_ok env N (add_mset (inode it) E) s0"
    using L by (intro rt_okI [OF L(1)]) (simp_all add: s0_def)
  then have "wp (on_heap (Decref (stack env) (Some (inode it)))) (\<lambda>_. rt_ok env N E) s0" by (rule wp_drop_root)
  moreover have "iters_update (\<lambda>d. d(p := None)) ((manager_update (FreeHandle i) s)\<lparr>heap := h'\<rparr>) = s0\<lparr>heap := h'\<rparr>" for h'
    by (cases s) (simp add: s0_def m'_def)
  moreover have "iters (s\<lparr>manager := m'\<rparr>) p = Some it" "heap s = heap s0" using it by (simp_all add: s0_def)
  moreover have "drop (length (deleted (manager s))) (deleted m') = [(HANDLE_ITERATOR, p)]"
    using FreeHandle_deleted [OF assms(2)] assms(3) by (simp add: m'_def p_def)
  ultimately show ?thesis
    by (simp add: free_handle_def delete_object_def delete_iter_def wp_iter_at wp_on_heap DataIterator_delete_def
        flip: m'_def)
qed

end
