(* ===== verification/Native_Rules.thy ===== *)
theory Native_Rules
  imports Runtime_Invariant
begin

text \<open>
  Rules for the pieces that the natives are made of: reading a handle, an argument or a node, writing
  to the plugin's memory, and changing nodes.  Each rule says what keeps the invariant of the
  runtime; the proof of a native is their composition.
\<close>

section \<open>Reading nodes\<close>

definition sealed :: "Heap \<Rightarrow> bool" where
  "sealed h \<longleftrightarrow> (\<forall>a c. cells h a = Some c \<longrightarrow> set (children (payload c)) \<subseteq> dom (cells h))"

abbreviation somewhere :: "Heap \<Rightarrow> addr option \<Rightarrow> bool" where
  "somewhere h v \<equiv> set_option v \<subseteq> dom (cells h)"

definition reads :: "Heap \<Rightarrow> 'a node_act \<Rightarrow> ('a \<Rightarrow> bool) \<Rightarrow> bool" where
  "reads h m P \<longleftrightarrow> wp m (\<lambda>x h'. h' = h \<and> P x) h"

abbreviation peeks :: "Heap \<Rightarrow> 'a node_act \<Rightarrow> bool" where
  "peeks h m \<equiv> reads h m (\<lambda>_. True)"

abbreviation finds :: "Heap \<Rightarrow> addr option node_act \<Rightarrow> bool" where
  "finds h m \<equiv> reads h m (somewhere h)"

lemma reads_ret [simp]: "reads h (ret x) P \<longleftrightarrow> P x"
  by (simp add: reads_def)

lemma reads_Done_fun [simp]: "reads h (\<lambda>s. Done (x, s)) P \<longleftrightarrow> P x"
  by (simp add: reads_def)

lemma reads_crash [simp]: "reads h (crash c) P \<longleftrightarrow> tolerated c"
  by (simp add: reads_def)

lemma reads_mono: "reads h m P \<Longrightarrow> (\<And>x. P x \<Longrightarrow> P' x) \<Longrightarrow> reads h m P'"
  unfolding reads_def by (erule wp_mono) auto

lemma reads_seq:
  assumes "reads h m P" "\<And>x. P x \<Longrightarrow> reads h (f x) Q"
  shows "reads h (seq m f) Q"
  using assms unfolding reads_def wp_seq by (auto elim!: wp_mono)

lemma reads_cell: "a \<in> dom (cells h) \<Longrightarrow> reads h (seq (cell_at a) f) Q \<longleftrightarrow> (\<forall>c. cells h a = Some c \<longrightarrow> reads h (f c) Q)"
  by (auto simp: reads_def wp_cell_at)

lemma sealedD: "sealed h \<Longrightarrow> cells h a = Some c \<Longrightarrow> b \<in> set (children (payload c)) \<Longrightarrow> b \<in> dom (cells h)"
  by (auto simp: sealed_def)

lemma ObjFind_finds: "sealed h \<Longrightarrow> a \<in> dom (cells h) \<Longrightarrow> finds h (ObjFind a key)"
  by (auto simp: ObjFind_def reads_cell split: payload.splits dest!: map_of_SomeD sealedD)

lemma IntMapFind_finds: "sealed h \<Longrightarrow> a \<in> dom (cells h) \<Longrightarrow> finds h (IntMapFind a key)"
  by (auto simp: IntMapFind_def reads_cell split: payload.splits dest!: map_of_SomeD sealedD)

lemma sealed_nth:
  "sealed h \<Longrightarrow> cells h a = Some c \<Longrightarrow> payload c = ArrayV xs \<Longrightarrow> i < length xs \<Longrightarrow> \<exists>d. cells h (xs ! i) = Some d"
  using sealedD [of h a c "xs ! i"] by auto

lemma arr_elem_finds: "sealed h \<Longrightarrow> a \<in> dom (cells h) \<Longrightarrow> finds h (arr_elem a i)"
  by (auto simp: arr_elem_def reads_cell split: payload.splits intro: sealed_nth)

lemmas node_finds = ObjFind_finds IntMapFind_finds arr_elem_finds

lemma coerce_peeks: "peeks h (coerce_int p)" "peeks h (coerce_float p)" "peeks h (coerce_bool p)" "peeks h (coerce_string p)"
  by (cases p; simp split: option.splits)+

lemma only_type_finds: "somewhere h v \<Longrightarrow> finds h (only_type t v)"
  by (auto simp: only_type_def reads_cell split: option.splits)

lemma NodeToType_peeks: "somewhere h v \<Longrightarrow> peeks h (NodeToType v)"
  by (auto simp: NodeToType_def reads_cell split: option.splits)

lemma collect_peeks: "(\<And>x. x \<in> set xs \<Longrightarrow> peeks h (f x)) \<Longrightarrow> peeks h (collect f xs)"
  by (induction xs) (auto intro!: reads_seq)

lemma for_all_peeks: "(\<And>x. x \<in> set xs \<Longrightarrow> peeks h (f x)) \<Longrightarrow> peeks h (for_all f xs)"
  by (induction xs) (auto intro!: reads_seq)

lemma read_tree_peeks:
  assumes "sealed h" "a \<in> dom (cells h)"
  shows "peeks h (read_tree k a)"
  using assms(2)
proof (induction k arbitrary: a)
  case (Suc k)
  then obtain c where c: "cells h a = Some c" by blast
  have kids: "peeks h (read_tree k b)" if "b \<in> set (children (payload c))" for b
    using Suc.IH sealedD [OF assms(1) c that] .
  show ?case
    using Suc.prems c kids
    by (cases "payload c")
      (auto simp: reads_cell intro!: reads_seq [where P = "\<lambda>_. True"] collect_peeks, force+)
qed simp


lemma EstimateBytes_peeks:
  assumes "sealed h" "a \<in> dom (cells h)"
  shows "peeks h (EstimateBytes k env a)"
  using assms(2)
proof (induction k arbitrary: a)
  case (Suc k)
  then obtain c where c: "cells h a = Some c" by blast
  have "peeks h (collect (EstimateBytes k env) (children (payload c)))"
    by (rule collect_peeks) (use Suc.IH sealedD [OF assms(1) c] in blast)
  with c Suc.prems show ?case by (auto simp: reads_cell intro: reads_seq)
qed simp

lemma Equals_at_peeks:
  assumes "sealed h" "a \<in> dom (cells h)" "somewhere h b"
  shows "peeks h (Equals_at k a b)"
  using assms(2,3)
proof (induction k arbitrary: a b)
  case (Suc k)
  show ?case
  proof (cases b)
    case (Some b')
    with Suc.prems obtain c d where c: "cells h a = Some c" "cells h b' = Some d" by auto
    have eq: "peeks h (Equals_at k x (Some y))" if "x \<in> set (children (payload c))" "y \<in> set (children (payload d))" for x y
      using Suc.IH sealedD [OF assms(1) c(1) that(1)] sealedD [OF assms(1) c(2) that(2)] by simp
    have arr: "peeks h (for_all (\<lambda>(x, y). Equals_at k x (Some y)) (zip xs ys))"
      if "payload c = ArrayV xs" "payload d = ArrayV ys" for xs ys
      by (rule for_all_peeks) (use that eq in \<open>auto dest: set_zip_leftD set_zip_rightD\<close>)
    have obj: "peeks h (for_all (\<lambda>(key, val). case map_of m' key of None \<Rightarrow> ret False
        | Some val' \<Rightarrow> Equals_at k val (Some val')) m)"
      if "payload c = ObjectV m" "payload d = ObjectV m'" for m m'
      by (rule for_all_peeks) (use that eq in \<open>force split: option.splits dest: map_of_SomeD\<close>)
    have im: "peeks h (for_all (\<lambda>(key, val). case map_of m' key of None \<Rightarrow> ret False
        | Some val' \<Rightarrow> Equals_at k val (Some val')) m)"
      if "payload c = IntMapV m" "payload d = IntMapV m'" for m m'
      by (rule for_all_peeks) (use that eq in \<open>force split: option.splits dest: map_of_SomeD\<close>)
    show ?thesis
      using c arr obj im by (cases "payload c"; cases "payload d") (simp_all add: Some reads_cell domIff)
  qed simp
qed simp

section \<open>The rules\<close>

lemma objects_ok_requests: "dom rs = dom (requests s) \<Longrightarrow> objects_ok (s\<lparr>requests := rs\<rparr>) = objects_ok s"
  by (simp add: objects_ok_def)

lemma objects_ok_iters: "dom is = dom (iters s) \<Longrightarrow> objects_ok (s\<lparr>iters := is\<rparr>) = objects_ok s"
  by (simp add: objects_ok_def)

definition safe :: "Env \<Rightarrow> nat \<Rightarrow> i32 rt_act \<Rightarrow> Runtime \<Rightarrow> bool" where
  "safe env N m s \<longleftrightarrow> wp m (\<lambda>_. rt_ok env (Suc N) {#}) s"

abbreviation idle :: "Env \<Rightarrow> nat \<Rightarrow> Runtime \<Rightarrow> bool" where
  "idle env N s \<equiv> rt_ok env N {#} s"

lemma rt_ok_sealed: "rt_ok env N E s \<Longrightarrow> sealed (heap s)"
  unfolding sealed_def by (elim rt_okE) (auto dest: child_live)

lemma rt_ok_live: "rt_ok env N E s \<Longrightarrow> a \<in># roots s \<Longrightarrow> a \<in> dom (cells (heap s))"
  by (elim rt_okE) (auto dest: heap_ok_live)

lemma safe_ret: "idle env N s \<Longrightarrow> safe env N (ret x) s"
  by (simp add: safe_def rt_ok_mono)

lemma safe_crash: "tolerated c \<Longrightarrow> safe env N (crash c) s"
  by (simp add: safe_def)

lemma safe_throw: "idle env N s \<Longrightarrow> safe env N (ThrowNativeError msg) s"
  by (simp add: safe_def ThrowNativeError_def rt_ok_mono)

lemma safe_if: "(b \<Longrightarrow> safe env N m s) \<Longrightarrow> (\<not> b \<Longrightarrow> safe env N m' s) \<Longrightarrow> safe env N (if b then m else m') s"
  by simp

lemma safe_string: "(\<And>x. safe env N (f x) s) \<Longrightarrow> safe env N (seq (local_string ctx p) f) s"
  by (auto simp: safe_def local_string_def split: option.splits)

lemma safe_int64: "(\<And>x. safe env N (f x) s) \<Longrightarrow> safe env N (seq (ReadInt64Param ctx p) f) s"
  by (auto simp: safe_def ReadInt64Param_def phys_addr_def split: option.splits)

lemma safe_addr: "(\<And>x. safe env N (f x) s) \<Longrightarrow> safe env N (seq (phys_addr ctx p) f) s"
  by (auto simp: safe_def phys_addr_def split: option.splits)

lemma safe_emit: "(\<And>s. idle env N s \<Longrightarrow> safe env N (f ()) s) \<Longrightarrow> idle env N s \<Longrightarrow> safe env N (seq (emit w) f) s"
  by (simp add: safe_def emit_def)

lemma safe_to_local:
  "(\<And>s. idle env N s \<Longrightarrow> safe env N (f ()) s) \<Longrightarrow> idle env N s \<Longrightarrow> safe env N (seq (StringToLocal a n t) f) s"
  by (simp add: safe_emit StringToLocal_def)

lemma safe_write64:
  "(\<And>s. idle env N s \<Longrightarrow> safe env N (f ()) s) \<Longrightarrow> idle env N s \<Longrightarrow> safe env N (seq (write_int64_param ctx p v) f) s"
  by (auto simp: safe_def write_int64_param_def phys_addr_def WriteInt64_def emit_def split: option.splits)

lemma safe_get: "safe env N (f (g s)) s \<Longrightarrow> safe env N (seq (get g) f) s"
  by (simp add: safe_def)

lemma safe_reads: "reads (heap s) m P \<Longrightarrow> (\<And>x. P x \<Longrightarrow> safe env N (f x) s) \<Longrightarrow> safe env N (seq (on_heap m) f) s"
  unfolding safe_def wp_seq wp_on_heap reads_def by (erule wp_mono) auto

lemmas safe_peek = safe_reads [where P = "\<lambda>_. True"]
lemmas safe_find = safe_reads [where P = "somewhere (heap s)" for s]

lemma safe_let: "safe env N (f x) s \<Longrightarrow> safe env N (let y = x in f y) s"
  by simp

lemma data_handle_cases:
  assumes "rt_ok env N E s"
  obtains "GetDataHandle i (manager s) = None"
    | p a h where "GetDataHandle i (manager s) = Some p" "datas s p = Some \<lparr>node = Some a\<rparr>" "a \<in># roots s"
        "used (manager s) i = Some h" "htype h = HANDLE_JSON_VALUE"
proof (cases "GetDataHandle i (manager s)")
  case (Some p)
  then obtain h where h: "used (manager s) i = Some h" "htype h = HANDLE_JSON_VALUE" "pointer h = p"
    using GetHandle_Some unfolding GetDataHandle_def by blast
  from assms have o: "objects_ok s" by (elim rt_okE)
  from h have "p \<in> dom (datas s)" unfolding objects_okD(8) [OF o] behind_iff by blast
  then obtain dh where "datas s p = Some dh" by blast
  with data_root [OF o this] that(2) [OF Some _ _ h(1,2)] show ?thesis by blast
qed (rule that(1))

lemma iterator_cases:
  assumes "rt_ok env N E s"
  obtains "GetDataIterator i (manager s) = None"
    | p it c h where "GetDataIterator i (manager s) = Some p" "iters s p = Some it" "inode it \<in># roots s"
        "cells (heap s) (inode it) = Some c" "iter_ok N c it"
        "used (manager s) i = Some h" "htype h = HANDLE_ITERATOR"
proof (cases "GetDataIterator i (manager s)")
  case (Some p)
  then obtain h where h: "used (manager s) i = Some h" "htype h = HANDLE_ITERATOR" "pointer h = p"
    using GetHandle_Some unfolding GetDataIterator_def by blast
  from assms have o: "objects_ok s" "iters_ok N s" by (auto elim: rt_okE)
  from h have "p \<in> dom (iters s)" unfolding objects_okD(9) [OF o(1)] behind_iff by blast
  then obtain it where it: "iters s p = Some it" by blast
  with o(2) obtain c where "cells (heap s) (inode it) = Some c" "iter_ok N c it" by (auto simp: iters_ok_def)
  with that(2) [OF Some it iter_root [OF o(1) it] _ _ h(1,2)] show ?thesis by blast
qed (rule that(1))

lemma safe_json:
  assumes "idle env N s" "\<And>a. a \<in># roots s \<Longrightarrow> safe env N (f \<lparr>node = Some a\<rparr>) s"
  shows "safe env N (with_json params f) s"
  using data_handle_cases [OF assms(1), of "params ! 1"] assms safe_throw [OF assms(1)]
  by cases (auto simp: with_json_def safe_def wp_data_at)

text \<open>The second handle of a call.\<close>

lemma safe_other:
  assumes "idle env N s" "\<And>b. b \<in># roots s \<Longrightarrow> safe env N (f \<lparr>node = Some b\<rparr>) s"
  shows "safe env N (with_other params json f) s"
  using data_handle_cases [OF assms(1), of "params ! 2"] assms safe_ret [OF assms(1)]
  by cases (auto simp: with_other_def safe_def wp_data_at)

lemmas plain_rules = safe_json safe_string safe_int64 safe_addr safe_ret safe_emit safe_to_local safe_write64
  safe_if safe_let safe_throw safe_other


subsection \<open>Reading through a handle\<close>

text \<open>What the readers of a handle need.\<close>

definition legible :: "Heap \<Rightarrow> addr \<Rightarrow> bool" where
  "legible h a \<longleftrightarrow> sealed h \<and> a \<in> dom (cells h)"

lemma root_legible: "rt_ok env N E s \<Longrightarrow> a \<in># roots s \<Longrightarrow> legible (heap s) a"
  by (simp add: legible_def rt_ok_sealed rt_ok_live)

lemma finds_then_peeks: "finds h m \<Longrightarrow> (\<And>v. somewhere h v \<Longrightarrow> peeks h (f v)) \<Longrightarrow> peeks h (seq m f)"
  by (rule reads_seq)

lemma finds_then_finds: "finds h m \<Longrightarrow> (\<And>v. somewhere h v \<Longrightarrow> finds h (f v)) \<Longrightarrow> finds h (seq m f)"
  by (rule reads_seq)

lemma handle_peeks:
  assumes "legible h a"
  shows "peeks h (GetType \<lparr>node = Some a\<rparr>)" "peeks h (ObjectSize \<lparr>node = Some a\<rparr>)"
    "peeks h (ArrayLength \<lparr>node = Some a\<rparr>)" "peeks h (HasKey \<lparr>node = Some a\<rparr> key)"
    "peeks h (MemberType \<lparr>node = Some a\<rparr> key)" "peeks h (ArrayMemberType \<lparr>node = Some a\<rparr> i)"
    "peeks h (IntMapMemberType \<lparr>node = Some a\<rparr> j)" "peeks h (DataHandle_IntMapSize \<lparr>node = Some a\<rparr>)"
    "peeks h (IntMapHasKey \<lparr>node = Some a\<rparr> j)"
proof -
  from assms have sa: "sealed h" "a \<in> dom (cells h)" by (simp_all add: legible_def)
  show "peeks h (MemberType \<lparr>node = Some a\<rparr> key)" "peeks h (ArrayMemberType \<lparr>node = Some a\<rparr> i)"
    "peeks h (IntMapMemberType \<lparr>node = Some a\<rparr> j)"
    unfolding MemberType_def ArrayMemberType_def IntMapMemberType_def with_node_def
    using sa by (auto intro!: finds_then_peeks NodeToType_peeks node_finds)
  show "peeks h (GetType \<lparr>node = Some a\<rparr>)" "peeks h (ObjectSize \<lparr>node = Some a\<rparr>)"
    "peeks h (ArrayLength \<lparr>node = Some a\<rparr>)" "peeks h (HasKey \<lparr>node = Some a\<rparr> key)"
    "peeks h (DataHandle_IntMapSize \<lparr>node = Some a\<rparr>)" "peeks h (IntMapHasKey \<lparr>node = Some a\<rparr> j)"
    using sa by (auto simp: GetType_def NodeToType_def ObjectSize_def ObjSize_def ArrayLength_def HasKey_def
        ObjContains_def DataHandle_IntMapSize_def IntMapSize_def IntMapHasKey_def IntMapContains_def with_node_def
        reads_cell split: payload.splits)
qed

lemma handle_finds:
  assumes "legible h a"
  shows "finds h (GetObjectNode \<lparr>node = Some a\<rparr> key)" "finds h (GetArrayNode \<lparr>node = Some a\<rparr> key)"
    "finds h (GetMemberNode \<lparr>node = Some a\<rparr> key)" "finds h (ArrayGetMemberNode \<lparr>node = Some a\<rparr> i)"
    "finds h (IntMapGetMemberNode \<lparr>node = Some a\<rparr> j)" "finds h (ArrayGetNode \<lparr>node = Some a\<rparr> i)"
    "finds h (IntMapGetObjectNode \<lparr>node = Some a\<rparr> j)" "finds h (IntMapGetArrayNode \<lparr>node = Some a\<rparr> j)"
    "finds h (with_node \<lparr>node = Some a\<rparr> None (\<lambda>n. ObjFind n key))"
    "finds h (with_node \<lparr>node = Some a\<rparr> None (\<lambda>n. IntMapFind n j))"
proof -
  from assms have sa: "sealed h" "a \<in> dom (cells h)" by (simp_all add: legible_def)
  note defs = GetObjectNode_def GetArrayNode_def GetMemberNode_def ArrayGetMemberNode_def IntMapGetMemberNode_def
    ArrayGetNode_def IntMapGetObjectNode_def IntMapGetArrayNode_def with_node_def
  show "finds h (GetObjectNode \<lparr>node = Some a\<rparr> key)" "finds h (GetArrayNode \<lparr>node = Some a\<rparr> key)"
    "finds h (IntMapGetObjectNode \<lparr>node = Some a\<rparr> j)" "finds h (IntMapGetArrayNode \<lparr>node = Some a\<rparr> j)"
    unfolding defs using sa by (auto intro!: finds_then_finds only_type_finds node_finds)
  show "finds h (GetMemberNode \<lparr>node = Some a\<rparr> key)" "finds h (ArrayGetMemberNode \<lparr>node = Some a\<rparr> i)"
    "finds h (IntMapGetMemberNode \<lparr>node = Some a\<rparr> j)" "finds h (ArrayGetNode \<lparr>node = Some a\<rparr> i)"
    "finds h (with_node \<lparr>node = Some a\<rparr> None (\<lambda>n. ObjFind n key))"
    "finds h (with_node \<lparr>node = Some a\<rparr> None (\<lambda>n. IntMapFind n j))"
    using sa by (auto simp: defs intro!: node_finds)
qed

lemma safe_key:
  assumes "idle env N s" "a \<in># roots s" "\<And>v. somewhere (heap s) v \<Longrightarrow> safe env N (f v) s"
  shows "safe env N (seq (find_key \<lparr>node = Some a\<rparr> key) f) s" "safe env N (seq (find_int \<lparr>node = Some a\<rparr> j) f) s"
  unfolding find_key_def find_int_def
  by (intro safe_find [OF handle_finds(9) [OF root_legible [OF assms(1,2)]]]
      safe_find [OF handle_finds(10) [OF root_legible [OF assms(1,2)]]] assms(3); assumption)+

lemma safe_elem:
  assumes "idle env N s" "a \<in># roots s" "\<And>v. somewhere (heap s) v \<Longrightarrow> safe env N (f v) s"
  shows "safe env N (seq (ArrayElem \<lparr>node = Some a\<rparr> i) f) s"
  unfolding ArrayElem_def
proof (rule safe_find)
  show "finds (heap s) (with_node \<lparr>node = Some a\<rparr> None (\<lambda>n. seq (cell_at n) (\<lambda>c. case payload c of
     ArrayV xs \<Rightarrow> if sint i < 0 \<or> int (length xs) \<le> sint i then ret None else ret (Some (xs ! nat (sint i)))
   | _ \<Rightarrow> ret None)))"
    using root_legible [OF assms(1,2)]
    by (auto simp: legible_def with_node_def reads_cell split: payload.splits intro!: sealed_nth)
qed (rule assms(3))

text \<open>A strict getter may throw.\<close>

lemma safe_strict:
  assumes "idle env N s" "somewhere (heap s) v" "\<And>x s. idle env N s \<Longrightarrow> safe env N (f x) s"
    "\<And>p. peeks (heap s) (g p)"
  shows "safe env N (seq (strict_as d g types expected v nm loc) f) s"
proof (cases v)
  case None
  with assms show ?thesis by (simp add: strict_as_def)
next
  case (Some a)
  with assms(2) obtain c where c: "cells (heap s) a = Some c" by auto
  have "wp (g (payload c)) (\<lambda>x h'. wp (f x) (\<lambda>_. rt_ok env (Suc N) {#}) (s\<lparr>heap := h'\<rparr>)) (heap s)"
    using assms(4) [of "payload c"] unfolding reads_def
    by (rule wp_mono) (use assms(1,3) in \<open>auto simp: safe_def\<close>)
  with assms(1,3) c show ?thesis
    by (simp add: strict_as_def Some safe_def wp_on_heap wp_cell_at ThrowNativeError_def)
qed

lemma safe_strict_as:
  assumes "idle env N s" "somewhere (heap s) v"
  shows "(\<And>x s. idle env N s \<Longrightarrow> safe env N (f1 x) s) \<Longrightarrow> safe env N (seq (StrictAsInt v nm loc) f1) s"
    "(\<And>x s. idle env N s \<Longrightarrow> safe env N (f2 x) s) \<Longrightarrow> safe env N (seq (StrictAsFloat v nm loc) f2) s"
    "(\<And>x s. idle env N s \<Longrightarrow> safe env N (f3 x) s) \<Longrightarrow> safe env N (seq (StrictAsBool v nm loc) f3) s"
    "(\<And>x s. idle env N s \<Longrightarrow> safe env N (f4 x) s) \<Longrightarrow> safe env N (seq (StrictAsString v nm loc) f4) s"
  unfolding StrictAsInt_def StrictAsFloat_def StrictAsBool_def StrictAsString_def
  using assms coerce_peeks by (auto intro!: safe_strict)

lemma root_somewhere: "idle env N s \<Longrightarrow> a \<in># roots s \<Longrightarrow> somewhere (heap s) (node \<lparr>node = Some a\<rparr>)"
  using rt_ok_live by simp

subsection \<open>New pointers to nodes\<close>

lemma wp_Incref:
  assumes "rt_ok env N E s" "Suc N < 2 ^ 24" "a \<in> dom (cells (heap s))"
    "\<And>h'. rt_ok env (Suc N) (add_mset a E) (s\<lparr>heap := h'\<rparr>) \<Longrightarrow> keeps (heap s) h' \<Longrightarrow> Q () (s\<lparr>heap := h'\<rparr>)"
  shows "wp (on_heap (Incref a)) Q s"
proof (rule wp_heap_keeps [OF assms(1), where N' = "Suc N" and E' = "\<lambda>_. add_mset a E" and P = "\<lambda>_. keeps (heap s)"])
  fix L assume L: "counted (Suc N) (roots s + E + L) (heap s)"
  from assms(3) obtain c where c: "cells (heap s) a = Some c" by blast
  have "Suc (Suc N) < 2 ^ 32" using assms(2) by simp
  from heap_ok_Incref [OF L c this]
  show "wp (Incref a) (\<lambda>x h'. (\<exists>K. (unique env \<longrightarrow> K = {#})
      \<and> counted (Suc (Suc N)) (roots s + add_mset a E + L + K) h') \<and> keeps (heap s) h' \<and> keeps (heap s) h') (heap s)"
    using c by (auto simp: Incref_def wp_modify_cell keeps_def same_node_def intro!: exI [of _ "{#}"])
qed (use assms(4) in auto)

lemma safe_wrap:
  assumes "idle env N s" "Suc N < 2 ^ 24" "somewhere (heap s) v"
  shows "safe env N (WrapChildNode env ctx v) s"
proof (cases v)
  case None
  then show ?thesis using assms(1) by (simp add: WrapChildNode_def safe_ret)
next
  case (Some a)
  with assms(3) have "a \<in> dom (cells (heap s))" by simp
  then show ?thesis
    unfolding safe_def WrapChildNode_def Some option.case wp_seq
    by (rule wp_Incref [OF assms(1,2)]) (rule wp_publish)
qed

subsection \<open>Changing nodes\<close>

lemma safe_mutates:
  assumes "idle env N s" "a \<in># roots s" "mutates (Suc N) a m"
  shows "safe env N (seq (on_heap m) (\<lambda>b. ret (f b))) s"
  unfolding safe_def wp_seq wp_ret
proof (rule wp_heap_moves [OF assms(1), where X = "{}" and E' = "\<lambda>_. {#}"])
  fix L assume "counted (Suc N) (roots s + {#} + L) (heap s)"
  with assms(2,3) have "wp m (\<lambda>_ h'. counted (Suc N) (roots s + {#} + L) h' \<and> moves {} (heap s) h') (heap s)"
    by (simp add: mutates_def)
  then show "wp m (\<lambda>x h'. counted (Suc (Suc N)) (roots s + {#} + L) h' \<and> moves {} (heap s) h') (heap s)"
    by (rule wp_mono) (auto intro: heap_ok_mono)
qed auto

lemma safe_mutate:
  "idle env N s \<Longrightarrow> a \<in># roots s \<Longrightarrow> mutates (Suc N) a m \<Longrightarrow> safe env N (mutate m) s"
  unfolding mutate_def by (rule safe_mutates)

end
