(* ===== verification/Json_Natives_Safe.thy ===== *)
theory Json_Natives_Safe
  imports Native_Rules
begin

text \<open>
  Every native of \<^verbatim>\<open>src/natives_json.cpp\<close> keeps the invariant of the runtime, whatever its
  arguments are; a few of them only when the script keeps to a rule that the code does not check.
\<close>

section \<open>Natives without a condition\<close>

definition native_safe :: "native \<Rightarrow> bool" where
  "native_safe f \<longleftrightarrow> (\<forall>env ctx params N s. layouts_ok (layout env) \<longrightarrow> Suc N < 2 ^ 24 \<longrightarrow> idle env N s \<longrightarrow>
     safe env N (f env ctx params) s)"

lemma native_safeI:
  "(\<And>env ctx params N s. layouts_ok (layout env) \<Longrightarrow> Suc N < 2 ^ 24 \<Longrightarrow> idle env N s \<Longrightarrow>
     safe env N (f env ctx params) s) \<Longrightarrow> native_safe f"
  by (simp add: native_safe_def)

lemmas handle_peek = safe_peek [OF handle_peeks(1)] safe_peek [OF handle_peeks(2)] safe_peek [OF handle_peeks(3)]
  safe_peek [OF handle_peeks(4)] safe_peek [OF handle_peeks(5)] safe_peek [OF handle_peeks(6)]
  safe_peek [OF handle_peeks(7)] safe_peek [OF handle_peeks(8)] safe_peek [OF handle_peeks(9)]

lemmas handle_find = safe_find [OF handle_finds(1)] safe_find [OF handle_finds(2)] safe_find [OF handle_finds(3)]
  safe_find [OF handle_finds(4)] safe_find [OF handle_finds(5)] safe_find [OF handle_finds(6)]
  safe_find [OF handle_finds(7)] safe_find [OF handle_finds(8)]

lemma inspecting_safe:
  "native_safe Native_JsonGetType" "native_safe Native_JsonObjectSize" "native_safe Native_JsonArrayLength"
  "native_safe Native_JsonHasKey" "native_safe Native_JsonGetMemberType" "native_safe Native_JsonArrayGetType"
  "native_safe Native_IntMapGetMemberType" "native_safe Native_IntMapGetMemberType64" "native_safe Native_IntMapSize"
  "native_safe Native_IntMapHasKey" "native_safe Native_IntMapHasKey64"
  unfolding Native_JsonGetType_def Native_JsonObjectSize_def Native_JsonArrayLength_def Native_JsonHasKey_def
    Native_JsonGetMemberType_def Native_JsonArrayGetType_def Native_IntMapGetMemberType_def
    Native_IntMapGetMemberType64_def Native_IntMapSize_def Native_IntMapHasKey_def Native_IntMapHasKey64_def
  by (intro native_safeI plain_rules handle_peek root_legible; assumption)+

lemma strict_getters_safe:
  "native_safe Native_JsonGetString" "native_safe Native_JsonGetInt" "native_safe Native_JsonGetFloat"
  "native_safe Native_JsonGetBool" "native_safe Native_JsonGetInt64" "native_safe Native_JsonArrayGetInt64"
  "native_safe Native_JsonArrayGetString" "native_safe Native_JsonArrayGetInt" "native_safe Native_JsonArrayGetFloat"
  "native_safe Native_JsonArrayGetBool"
  unfolding Native_JsonGetString_def Native_JsonGetInt_def Native_JsonGetFloat_def Native_JsonGetBool_def
    Native_JsonGetInt64_def Native_JsonArrayGetInt64_def Native_JsonArrayGetString_def Native_JsonArrayGetInt_def
    Native_JsonArrayGetFloat_def Native_JsonArrayGetBool_def
  by (intro native_safeI plain_rules safe_key safe_elem safe_strict_as; assumption)+

lemma intmap_getters_safe:
  "native_safe Native_IntMapGetString" "native_safe Native_IntMapGetInt" "native_safe Native_IntMapGetFloat"
  "native_safe Native_IntMapGetBool" "native_safe Native_IntMapGetString64" "native_safe Native_IntMapGetInt64Key"
  "native_safe Native_IntMapGetInt64KeyValue" "native_safe Native_IntMapGetFloat64" "native_safe Native_IntMapGetBool64"
  unfolding Native_IntMapGetString_def Native_IntMapGetInt_def Native_IntMapGetFloat_def Native_IntMapGetBool_def
    Native_IntMapGetString64_def Native_IntMapGetInt64Key_def Native_IntMapGetInt64KeyValue_def
    Native_IntMapGetFloat64_def Native_IntMapGetBool64_def
  by (intro native_safeI plain_rules safe_key safe_strict_as; assumption)+

lemma scalar_handles_safe:
  "native_safe Native_JsonAsInt" "native_safe Native_JsonAsInt64" "native_safe Native_JsonAsFloat"
  "native_safe Native_JsonAsBool" "native_safe Native_JsonAsString"
  unfolding Native_JsonAsInt_def Native_JsonAsInt64_def Native_JsonAsFloat_def Native_JsonAsBool_def
    Native_JsonAsString_def
  by (intro native_safeI plain_rules safe_strict_as root_somewhere; assumption)+

lemma child_getters_safe:
  "native_safe Native_JsonGetObject" "native_safe Native_JsonGetArray" "native_safe Native_JsonGet"
  "native_safe Native_JsonArrayGet" "native_safe Native_JsonArrayGetObject" "native_safe Native_IntMapGetObject"
  "native_safe Native_IntMapGetArray" "native_safe Native_IntMapGetObject64" "native_safe Native_IntMapGetArray64"
  "native_safe Native_IntMapGet" "native_safe Native_IntMapGet64"
  unfolding Native_JsonGetObject_def Native_JsonGetArray_def Native_JsonGet_def Native_JsonArrayGet_def
    Native_JsonArrayGetObject_def Native_IntMapGetObject_def Native_IntMapGetArray_def Native_IntMapGetObject64_def
    Native_IntMapGetArray64_def Native_IntMapGet_def Native_IntMapGet64_def
  by (intro native_safeI plain_rules handle_find root_legible safe_wrap; assumption)+

subsection \<open>Setters\<close>

text \<open>What the setters of a handle change.\<close>

lemma setters_mutate:
  assumes "layouts_ok L" "1 \<le> n"
  shows "mutates n a (SetString k L \<lparr>node = Some a\<rparr> key str)" "mutates n a (SetInt k L \<lparr>node = Some a\<rparr> key i)"
    "mutates n a (SetFloat k L \<lparr>node = Some a\<rparr> key d)" "mutates n a (SetBool k L \<lparr>node = Some a\<rparr> key b)"
    "mutates n a (SetNull k L \<lparr>node = Some a\<rparr> key)"
    "mutates n a (IntMapSetString k L \<lparr>node = Some a\<rparr> j str)" "mutates n a (IntMapSetInt k L \<lparr>node = Some a\<rparr> j i)"
    "mutates n a (IntMapSetFloat k L \<lparr>node = Some a\<rparr> j d)" "mutates n a (IntMapSetBool k L \<lparr>node = Some a\<rparr> j b)"
    "mutates n a (IntMapSetNull k L \<lparr>node = Some a\<rparr> j)"
  unfolding SetString_def SetInt_def SetFloat_def SetBool_def SetNull_def IntMapSetString_def IntMapSetInt_def
    IntMapSetFloat_def IntMapSetBool_def IntMapSetNull_def make_defs
  by (intro set_member_mutates om.ins_takes im.ins_takes assms; simp)+

lemma array_setters_mutate:
  assumes "1 \<le> n"
  shows "mutates n a (ArrayAppendString \<lparr>node = Some a\<rparr> str)" "mutates n a (ArrayAppendInt \<lparr>node = Some a\<rparr> i)"
    "mutates n a (ArrayAppendFloat \<lparr>node = Some a\<rparr> d)" "mutates n a (ArrayAppendBool \<lparr>node = Some a\<rparr> b)"
    "mutates n a (ArrayAppendNull \<lparr>node = Some a\<rparr>)"
    "mutates n a (ArraySetString k \<lparr>node = Some a\<rparr> idx str)" "mutates n a (ArraySetInt k \<lparr>node = Some a\<rparr> idx i)"
    "mutates n a (ArraySetFloat k \<lparr>node = Some a\<rparr> idx d)" "mutates n a (ArraySetBool k \<lparr>node = Some a\<rparr> idx b)"
    "mutates n a (ArraySetNull k \<lparr>node = Some a\<rparr> idx)"
  unfolding ArrayAppendString_def ArrayAppendInt_def ArrayAppendFloat_def ArrayAppendBool_def ArrayAppendNull_def
    ArraySetString_def ArraySetInt_def ArraySetFloat_def ArraySetBool_def ArraySetNull_def make_defs with_node_def
    DataHandle.select_convs option.case
  by (intro append_mutates array_set_mutates assms; simp)+

lemma removals_mutate:
  assumes "layouts_ok L"
  shows "mutates n a (RemoveKey k L \<lparr>node = Some a\<rparr> key)" "mutates n a (ObjectClear k \<lparr>node = Some a\<rparr>)"
    "mutates n a (DataHandle_IntMapRemoveKey k L \<lparr>node = Some a\<rparr> j)"
    "mutates n a (DataHandle_IntMapClear k \<lparr>node = Some a\<rparr>)"
    "mutates n a (ArrayRemove k \<lparr>node = Some a\<rparr> i)" "mutates n a (ArrayClear k \<lparr>node = Some a\<rparr>)"
  unfolding RemoveKey_def ObjectClear_def DataHandle_IntMapRemoveKey_def DataHandle_IntMapClear_def ArrayRemove_def
    ArrayClear_def with_node_def DataHandle.select_convs option.case
  by (intro om.del_mutates im.del_mutates om.clr_mutates im.clr_mutates ArrRemove_mutates ArrClear_mutates assms)+

lemma object_setters_safe:
  "native_safe Native_JsonSetString" "native_safe Native_JsonSetInt" "native_safe Native_JsonSetInt64"
  "native_safe Native_JsonSetFloat" "native_safe Native_JsonSetBool" "native_safe Native_JsonSetNull"
  "native_safe Native_IntMapSetString" "native_safe Native_IntMapSetInt" "native_safe Native_IntMapSetFloat"
  "native_safe Native_IntMapSetBool" "native_safe Native_IntMapSetNull" "native_safe Native_IntMapSetString64"
  "native_safe Native_IntMapSetInt64" "native_safe Native_IntMapSetInt64KeyValue" "native_safe Native_IntMapSetFloat64"
  "native_safe Native_IntMapSetBool64" "native_safe Native_IntMapSetNull64"
  unfolding Native_JsonSetString_def Native_JsonSetInt_def Native_JsonSetInt64_def Native_JsonSetFloat_def
    Native_JsonSetBool_def Native_JsonSetNull_def Native_IntMapSetString_def Native_IntMapSetInt_def
    Native_IntMapSetFloat_def Native_IntMapSetBool_def Native_IntMapSetNull_def Native_IntMapSetString64_def
    Native_IntMapSetInt64_def Native_IntMapSetInt64KeyValue_def Native_IntMapSetFloat64_def
    Native_IntMapSetBool64_def Native_IntMapSetNull64_def
  by (intro native_safeI plain_rules safe_mutate setters_mutate; (assumption | simp))+

lemma array_setters_safe:
  "native_safe Native_JsonArraySetString" "native_safe Native_JsonArraySetInt" "native_safe Native_JsonArraySetInt64"
  "native_safe Native_JsonArraySetFloat" "native_safe Native_JsonArraySetBool" "native_safe Native_JsonArraySetNull"
  "native_safe Native_JsonArrayAppendString" "native_safe Native_JsonArrayAppendInt"
  "native_safe Native_JsonArrayAppendInt64" "native_safe Native_JsonArrayAppendFloat"
  "native_safe Native_JsonArrayAppendBool" "native_safe Native_JsonArrayAppendNull"
  unfolding Native_JsonArraySetString_def Native_JsonArraySetInt_def Native_JsonArraySetInt64_def
    Native_JsonArraySetFloat_def Native_JsonArraySetBool_def Native_JsonArraySetNull_def
    Native_JsonArrayAppendString_def Native_JsonArrayAppendInt_def Native_JsonArrayAppendInt64_def
    Native_JsonArrayAppendFloat_def Native_JsonArrayAppendBool_def Native_JsonArrayAppendNull_def
  by (intro native_safeI plain_rules safe_mutate array_setters_mutate; (assumption | simp))+

lemma removals_safe:
  "native_safe Native_JsonRemoveKey" "native_safe Native_JsonObjectClear" "native_safe Native_JsonArrayRemove"
  "native_safe Native_JsonArrayClear" "native_safe Native_IntMapRemoveKey" "native_safe Native_IntMapRemoveKey64"
  "native_safe Native_IntMapClear"
  unfolding Native_JsonRemoveKey_def Native_JsonObjectClear_def Native_JsonArrayRemove_def Native_JsonArrayClear_def
    Native_IntMapRemoveKey_def Native_IntMapRemoveKey64_def Native_IntMapClear_def
  by (assumption | rule native_safeI plain_rules safe_mutate safe_mutates removals_mutate)+


subsection \<open>Taking over the node of another handle\<close>

lemma wp_on_heap_seq: "wp (on_heap m) (\<lambda>x. wp (on_heap (f x)) Q) s = wp (on_heap (seq m f)) Q s"
  by (simp add: wp_on_heap)

lemma Incref_then:
  assumes "counted (Suc N) R h" "Suc N < 2 ^ 24" "b \<in># R"
    "\<And>h1. counted (Suc (Suc N)) (add_mset b R) h1 \<Longrightarrow> keeps h h1 \<Longrightarrow>
      wp m (\<lambda>_ h'. counted (Suc (Suc N)) R h' \<and> moves X h1 h') h1"
  shows "wp (seq (Incref b) (\<lambda>_. m)) (\<lambda>_ h'. counted (Suc (Suc N)) R h' \<and> moves X h h') h"
proof -
  from heap_ok_live [OF assms(1,3)] obtain c where c: "cells h b = Some c" by blast
  define h1 where "h1 = h\<lparr>cells := (cells h)(b \<mapsto> c\<lparr>refcount := refcount c + 1\<rparr>)\<rparr>"
  have "Suc (Suc N) < 2 ^ 32" using assms(2) by simp
  with heap_ok_Incref [OF assms(1) c] have h1: "counted (Suc (Suc N)) (add_mset b R) h1" by (simp add: h1_def)
  have k: "keeps h h1" using c by (auto simp: h1_def keeps_def same_node_def)
  from assms(4) [OF h1 k] have "wp m (\<lambda>_ h'. counted (Suc (Suc N)) R h' \<and> moves X h h') h1"
    by (rule wp_mono) (use k in \<open>auto intro: keeps_then_moves\<close>)
  then show ?thesis using c by (simp add: Incref_def wp_modify_cell h1_def)
qed

lemma safe_set_child:
  assumes "idle env N s" "Suc N < 2 ^ 24" "a \<in># roots s"
    "\<And>b R h1. counted (Suc (Suc N)) (add_mset b R) h1 \<Longrightarrow> a \<in># R \<Longrightarrow> keeps (heap s) h1 \<Longrightarrow>
      wp (put a b) (\<lambda>_ h'. counted (Suc (Suc N)) R h' \<and> moves {} h1 h') h1"
  shows "safe env N (set_child env i msg \<lparr>node = Some a\<rparr> put) s"
  using data_handle_cases [OF assms(1), of i]
proof cases
  case 1
  then show ?thesis using safe_ret [OF assms(1)] by (simp add: set_child_def safe_def)
next
  case (2 p b h)
  have "wp (on_heap (seq (Incref b) (\<lambda>_. put a b))) (\<lambda>_. wp (free_handle env i) (\<lambda>_. rt_ok env (Suc N) {#})) s"
  proof (rule wp_heap_moves [OF assms(1), where X = "{}" and E' = "\<lambda>_. {#}"])
    fix L assume L: "counted (Suc N) (roots s + {#} + L) (heap s)"
    have "b \<in># roots s + {#} + L" "a \<in># roots s + {#} + L" using 2(3) assms(3) by simp_all
    then show "wp (seq (Incref b) (\<lambda>_. put a b)) (\<lambda>x h'. counted (Suc (Suc N)) (roots s + {#} + L) h'
        \<and> moves {} (heap s) h') (heap s)"
      by (intro Incref_then [OF L assms(2)] assms(4))
  next
    fix h' assume "rt_ok env (Suc N) {#} (s\<lparr>heap := h'\<rparr>)"
    then show "wp (free_handle env i) (\<lambda>_. rt_ok env (Suc N) {#}) (s\<lparr>heap := h'\<rparr>)"
      by (rule wp_free_data) (use 2 in auto)
  qed simp
  with 2 assms(1) show ?thesis
    using safe_throw [OF assms(1), of msg]
    by (auto simp: set_child_def safe_def wp_data_at simp flip: wp_on_heap_seq)
qed

lemma set_child_takes:
  assumes "idle env N s" "Suc N < 2 ^ 24" "a \<in># roots s" "\<And>b. takes (Suc (Suc N)) a b (put a b)"
  shows "safe env N (set_child env i msg \<lparr>node = Some a\<rparr> put) s"
  by (rule safe_set_child [OF assms(1-3)]) (use assms(4) in \<open>simp add: takes_def\<close>)

lemma set_children_safe:
  "native_safe Native_JsonSetObject" "native_safe Native_JsonArraySetObject" "native_safe Native_IntMapSetObject"
  "native_safe Native_IntMapSetObject64"
  unfolding Native_JsonSetObject_def Native_JsonArraySetObject_def Native_IntMapSetObject_def
    Native_IntMapSetObject64_def
  by (assumption | rule native_safeI plain_rules set_child_takes om.ins_takes im.ins_takes ArrSet_takes)+

subsection \<open>Extending an array\<close>

lemma safe_extend:
  assumes "idle env N s" "layouts_ok (layout env)" "a \<in># roots s" "b \<in># roots s" "a \<noteq> b"
  shows "safe env N (mutate (ArrayExtend (stack env) (layout env) \<lparr>node = Some a\<rparr> (Some b))) s"
  unfolding safe_def mutate_def wp_seq wp_ret
proof (rule wp_heap_moves [OF assms(1), where X = "{}" and E' = "\<lambda>_. {#}"])
  fix L assume L: "counted (Suc N) (roots s + {#} + L) (heap s)"
  have "wp (ArrExtend (stack env) (layout env) a (Some b))
      (\<lambda>_ h'. counted (Suc N) (roots s + {#} + L) h' \<and> moves {} (heap s) h') (heap s)"
    by (rule ArrExtend_moves [OF L]) (use assms in auto)
  then show "wp (ArrayExtend (stack env) (layout env) \<lparr>node = Some a\<rparr> (Some b))
      (\<lambda>x h'. counted (Suc (Suc N)) (roots s + {#} + L) h' \<and> moves {} (heap s) h') (heap s)"
    unfolding ArrayExtend_def with_node_def DataHandle.select_convs option.case
    by (rule wp_mono) (auto intro: heap_ok_mono)
qed auto

lemma extend_safe: "native_safe Native_JsonArrayExtend"
  unfolding Native_JsonArrayExtend_def
  by (intro native_safeI plain_rules; assumption?) (simp add: safe_extend)

subsection \<open>Creating and closing\<close>

lemma safe_publish:
  assumes "idle env N s" "Suc N < 2 ^ 24" "children p = []" "payload_ok p"
  shows "safe env N (seq (on_heap (seq (new_node p) (\<lambda>n. ret \<lparr>node = Some n\<rparr>))) (publish env ctx)) s"
  unfolding safe_def wp_seq
proof (rule wp_heap_keeps [OF assms(1) le_SucI [OF order_refl], where E' = "\<lambda>dh. ptr (node dh)"
      and P = "\<lambda>dh _. node dh \<noteq> None"])
  fix L assume L: "counted (Suc N) (roots s + {#} + L) (heap s)"
  have "wp (new_node p) (\<lambda>a h'. counted (Suc N) (add_mset a (roots s + {#} + L)) h' \<and> keeps (heap s) h') (heap s)"
    using assms by (intro wp_new_leaf [OF L]) simp_all
  then show "wp (seq (new_node p) (\<lambda>n. ret \<lparr>node = Some n\<rparr>)) (\<lambda>x h'. (\<exists>K. (unique env \<longrightarrow> K = {#})
      \<and> counted (Suc (Suc N)) (roots s + ptr (node x) + L + K) h') \<and> keeps (heap s) h' \<and> node x \<noteq> None) (heap s)"
    unfolding wp_seq wp_ret
    by (rule wp_mono) (auto intro!: exI [of _ "{#}"] intro: heap_ok_mono)
next
  fix x :: DataHandle and h'
  assume "rt_ok env (Suc N) (ptr (node x)) (s\<lparr>heap := h'\<rparr>)" "node x \<noteq> None"
  then show "wp (publish env ctx x) (\<lambda>_. rt_ok env (Suc N) {#}) (s\<lparr>heap := h'\<rparr>)"
    by (cases x) (auto intro: wp_publish)
qed

lemma create_safe: "native_safe Native_JsonCreateObject" "native_safe Native_JsonCreateArray" "native_safe Native_IntMapCreate"
  unfolding Native_JsonCreateObject_def Native_JsonCreateArray_def Native_IntMapCreate_def
    DataHandle_CreateObject_def DataHandle_CreateArray_def DataHandle_CreateIntMap_def make_defs
  by (rule native_safeI, rule safe_publish; simp)+

lemma close_safe: "native_safe Native_JsonClose"
proof (rule native_safeI)
  fix env ctx params N s assume s: "idle env N s"
  from data_handle_cases [OF s, of "params ! 1"] show "safe env N (Native_JsonClose env ctx params) s"
  proof cases
    case (2 p a h)
    from wp_free_data [OF rt_ok_mono [OF s, of "Suc N"] 2(4,5)] 2(1) show ?thesis
      by (simp add: Native_JsonClose_def safe_def)
  qed (use safe_ret [OF s] in \<open>simp add: Native_JsonClose_def safe_def\<close>)
qed

lemma iter_close_safe: "native_safe Native_IterClose"
proof (rule native_safeI)
  fix env ctx params N s assume s: "idle env N s"
  from iterator_cases [OF s, of "params ! 1"] show "safe env N (Native_IterClose env ctx params) s"
  proof cases
    case (2 p it c h)
    from wp_free_iter [OF rt_ok_mono [OF s, of "Suc N"] 2(6,7)] 2(1,2) show ?thesis
      by (simp add: Native_IterClose_def with_iter_def safe_def wp_iter_at)
  qed (use safe_ret [OF s] in \<open>simp add: Native_IterClose_def with_iter_def safe_def\<close>)
qed


subsection \<open>Parsing\<close>

lemma safe_parse:
  assumes "idle env N s" "Suc N < 2 ^ 24" "layouts_ok (layout env)"
  shows "safe env N (seq (on_heap (DataHandle_Parse env data)) (publish_opt env ctx)) s"
  unfolding safe_def wp_seq
proof (rule wp_heap_keeps [OF assms(1) le_SucI [OF order_refl],
      where E' = "\<lambda>dh. case dh of None \<Rightarrow> {#} | Some dh \<Rightarrow> ptr (node dh)"
      and P = "\<lambda>dh _. \<forall>x \<in> set_option dh. node x \<noteq> None"])
  fix L assume L: "counted (Suc N) (roots s + {#} + L) (heap s)"
  have "wp (DataParseJson (stack env) (layout env) (iterate env) data) (\<lambda>(r, e) h'.
      lossy (Suc N) (roots s + {#} + L) (\<forall>doc. iterate env data = Inr doc \<longrightarrow> unique_keys doc) r h' \<and> keeps (heap s) h') (heap s)"
    using assms by (intro DataParseJson_ok [OF L]) simp_all
  then show "wp (DataHandle_Parse env data) (\<lambda>x h'. (\<exists>K. (unique env \<longrightarrow> K = {#})
      \<and> counted (Suc (Suc N)) (roots s + (case x of None \<Rightarrow> {#} | Some dh \<Rightarrow> ptr (node dh)) + L + K) h')
      \<and> keeps (heap s) h' \<and> (\<forall>x \<in> set_option x. node x \<noteq> None)) (heap s)"
    unfolding DataHandle_Parse_def wp_seq
  proof (rule wp_mono, clarsimp simp: lossy_def unique_def split: option.splits)
    fix r h' K assume "counted (Suc N) (roots s + L + ptr r + K) h'"
      and "(\<forall>doc. iterate env data = Inr doc \<longrightarrow> unique_keys doc) \<longrightarrow> K = {#}"
    then show "(r = None \<longrightarrow> (\<exists>K. ((\<forall>data doc. iterate env data = Inr doc \<longrightarrow> unique_keys doc) \<longrightarrow> K = {#})
          \<and> counted (Suc (Suc N)) (roots s + L + K) h'))
        \<and> (\<forall>x. r = Some x \<longrightarrow> (\<exists>K. ((\<forall>data doc. iterate env data = Inr doc \<longrightarrow> unique_keys doc) \<longrightarrow> K = {#})
          \<and> counted (Suc (Suc N)) (add_mset x (roots s + L + K)) h'))"
      by (cases r) (auto intro!: exI [of _ K] intro: heap_ok_mono)
  qed
next
  fix x :: "DataHandle option" and h'
  assume "rt_ok env (Suc N) (case x of None \<Rightarrow> {#} | Some dh \<Rightarrow> ptr (node dh)) (s\<lparr>heap := h'\<rparr>)"
    "\<forall>x \<in> set_option x. node x \<noteq> None"
  then show "wp (publish_opt env ctx x) (\<lambda>_. rt_ok env (Suc N) {#}) (s\<lparr>heap := h'\<rparr>)"
    by (cases x; cases "the x") (auto simp: publish_opt_def intro: wp_publish)
qed

lemma parse_safe: "native_safe Native_JsonParseString" "native_safe Native_JsonParseFile"
proof -
  show "native_safe Native_JsonParseString"
    unfolding Native_JsonParseString_def DataHandle_ParseString_def
    by (assumption | rule native_safeI plain_rules safe_parse)+
  show "native_safe Native_JsonParseFile"
  proof (rule native_safeI)
    fix env ctx params N s assume s: "layouts_ok (layout env)" "Suc N < 2 ^ 24" "idle env N s"
    show "safe env N (Native_JsonParseFile env ctx params) s"
      unfolding Native_JsonParseFile_def
    proof (rule safe_string)
      fix path show "safe env N (case open_file env path of None \<Rightarrow> ret 0 | Some (sz, buf) \<Rightarrow>
         if sz \<le> 0 \<or> 64 * 1024 * 1024 < sz then ret 0
         else if int (length buf) \<noteq> sz then ret 0
         else seq (on_heap (DataHandle_Parse env buf)) (publish_opt env ctx)) s"
        using s by (auto split: option.split intro!: safe_ret safe_parse)
    qed
  qed
qed

text \<open>The response of a request, taken once.\<close>

lemma rt_ok_take_response:
  assumes "idle env N s" "requests s p = Some r" "response_node r = Some a"
  shows "rt_ok env N {#a#} (s\<lparr>requests := (requests s)(p \<mapsto> r\<lparr>response_node := None\<rparr>)\<rparr>)" (is "rt_ok _ _ _ ?s")
proof -
  from assms(1) obtain L where L: "unique env \<longrightarrow> L = {#}" "counted (Suc N) (roots s + {#} + L) (heap s)"
    "objects_ok s" "iters_ok N s" by (rule rt_okE)
  have "roots s = add_mset a (roots ?s)"
    using held_by_upd [OF objects_okD(5) [OF L(3)] assms(2), of "\<lambda>r. ptr (response_node r)" "r\<lparr>response_node := None\<rparr>"] assms(3)
    by (simp add: roots_def)
  moreover have "dom ((requests s)(p \<mapsto> r\<lparr>response_node := None\<rparr>)) = dom (requests s)" using assms(2) by auto
  then have "objects_ok ?s" using L(3) objects_ok_requests by blast
  ultimately show ?thesis using L by (intro rt_okI [OF L(1)]) (simp_all add: iters_ok_def)
qed

lemma parse_response_safe: "native_safe Native_JsonParse"
proof (rule native_safeI)
  fix env ctx params N s assume s: "layouts_ok (layout env)" "Suc N < 2 ^ 24" "idle env N s"
  show "safe env N (Native_JsonParse env ctx params) s"
  proof (cases "GetHttpRequest (params ! 1) (manager s)")
    case None
    then show ?thesis using safe_ret [OF s(3)] by (simp add: Native_JsonParse_def safe_def)
  next
    case (Some p)
    from s(3) have "objects_ok s" by (elim rt_okE)
    from Some have "p \<in> behind (manager s) HANDLE_HTTP_REQUEST"
      unfolding GetHttpRequest_def behind_iff using GetHandle_Some by blast
    with objects_okD(10) [OF \<open>objects_ok s\<close>] obtain r where r: "requests s p = Some r" by blast
    have upd: "requests_update (\<lambda>rs. rs(p \<mapsto> r\<lparr>response_node := None\<rparr>)) s
        = s\<lparr>requests := (requests s)(p \<mapsto> r\<lparr>response_node := None\<rparr>)\<rparr>" by simp
    have "wp (publish env ctx \<lparr>node = Some a\<rparr>) (\<lambda>_. rt_ok env (Suc N) {#})
        (requests_update (\<lambda>rs. rs(p \<mapsto> r\<lparr>response_node := None\<rparr>)) s)" if "response_node r = Some a" for a
      unfolding upd using rt_ok_mono [OF rt_ok_take_response [OF s(3) r that], of "Suc N"] by (intro wp_publish) simp
    moreover have "wp (request_at p) Q s = Q r s" for Q using r by (simp add: wp_def request_at_def)
    ultimately show ?thesis
      using Some safe_ret [OF s(3)] safe_parse [OF s(3,2,1)]
      by (auto simp: Native_JsonParse_def safe_def split: option.split)
  qed
qed

subsection \<open>Whole values\<close>

lemma ref_safe: "native_safe Native_JsonRef"
  unfolding Native_JsonRef_def
  by (assumption | rule native_safeI plain_rules safe_wrap root_somewhere)+

lemma safe_copy:
  assumes "idle env N s" "Suc N < 2 ^ 24" "layouts_ok (layout env)" "a \<in># roots s"
  shows "safe env N (seq (on_heap (DeepCopy_at k (layout env) a)) (\<lambda>copy. publish env ctx \<lparr>node = Some copy\<rparr>)) s"
  unfolding safe_def wp_seq
proof (rule wp_heap_keeps [OF assms(1) le_SucI [OF order_refl], where E' = "\<lambda>a. {#a#}" and P = "\<lambda>_ _. True"])
  fix L assume L: "counted (Suc N) (roots s + {#} + L) (heap s)"
  have "wp (DeepCopy_at k (layout env) a) (\<lambda>a' h'. counted (Suc N) (add_mset a' (roots s + {#} + L)) h'
      \<and> extends (heap s) h' \<and> next_addr (heap s) \<le> a') (heap s)"
    by (rule DeepCopy_ok [OF L _ readable_all [OF L]]) (use assms rt_ok_live in auto)
  then show "wp (DeepCopy_at k (layout env) a) (\<lambda>x h'. (\<exists>K. (unique env \<longrightarrow> K = {#})
      \<and> counted (Suc (Suc N)) (roots s + {#x#} + L + K) h') \<and> keeps (heap s) h' \<and> True) (heap s)"
    by (rule wp_mono) (auto intro!: exI [of _ "{#}"] intro: heap_ok_mono keeps_extends)
qed (auto intro: wp_publish)

lemma copy_safe: "native_safe Native_JsonCopy"
  unfolding Native_JsonCopy_def
  by (rule native_safeI, rule safe_json) (simp_all add: safe_copy)

lemma equals_safe: "native_safe Native_JsonEquals"
  unfolding Native_JsonEquals_def
proof (intro native_safeI plain_rules, assumption)
  fix env N s a b assume "idle env N s" "a \<in># roots s" "b \<in># roots s"
  then show "safe env N (case node \<lparr>node = Some a\<rparr> of None \<Rightarrow> crash NullDeref | Some a \<Rightarrow>
      seq (on_heap (Equals_at (stack env) a (node \<lparr>node = Some b\<rparr>))) (\<lambda>b. ret (cell_of_bool b))) s"
    by (auto intro!: safe_peek [OF Equals_at_peeks] safe_ret simp: rt_ok_sealed dest: rt_ok_live)
qed assumption

lemma size_safe: "native_safe Native_JsonMemorySize"
  unfolding Native_JsonMemorySize_def
  by (rule native_safeI, rule safe_json)
    (auto intro!: safe_peek [OF EstimateBytes_peeks] safe_ret simp: rt_ok_sealed dest: rt_ok_live)

lemma serialize_safe: "native_safe Native_JsonSerialize"
proof (rule native_safeI)
  fix env ctx params N s assume s: "idle env N s"
  have "peeks (heap s) (Serialize (stack env) \<lparr>node = Some a\<rparr> n pretty)" if "a \<in># roots s" for a n pretty
    using rt_ok_sealed [OF s] rt_ok_live [OF s that]
    by (auto simp: Serialize_def with_node_def intro!: reads_seq [OF read_tree_peeks])
  then show "safe env N (Native_JsonSerialize env ctx params) s"
    unfolding Native_JsonSerialize_def Let_def
    by (intro plain_rules safe_peek) (auto split: option.split intro!: safe_emit safe_ret s)
qed

lemma buffer_safe: "native_safe Native_JsonGetBuffer"
proof (rule native_safeI)
  fix env ctx params N s assume s: "idle env N s"
  from data_handle_cases [OF s, of "params ! 1"] show "safe env N (Native_JsonGetBuffer env ctx params) s"
  proof cases
    case (2 p a h)
    from rt_ok_live [OF s 2(3)] obtain c where c: "cells (heap s) a = Some c" by blast
    have ok: "wp (emit w) (\<lambda>_. rt_ok env (Suc N) {#}) s" for w
      using rt_ok_mono [OF s, of "Suc N"] by (simp add: emit_def)
    have "rt_ok env (Suc N) {#} s" using rt_ok_mono [OF s, of "Suc N"] by simp
    with 2 c ok show ?thesis
      by (cases "payload c")
        (auto simp: Native_JsonGetBuffer_def safe_def wp_data_at wp_on_heap wp_cell_at Let_def phys_addr_def
          split: option.splits)
  qed (use safe_ret [OF s] in \<open>simp add: Native_JsonGetBuffer_def safe_def\<close>)
qed

subsection \<open>Paths\<close>

lemma sealed_index:
  "sealed h \<Longrightarrow> cells h a = Some c \<Longrightarrow> payload c = ArrayV xs \<Longrightarrow> \<not> i < 0 \<Longrightarrow> \<not> int (length xs) \<le> i \<Longrightarrow>
    \<exists>d. cells h (xs ! nat i) = Some d"
  by (rule sealed_nth) auto

lemma path_string_peeks:
  assumes "sealed h" "nd \<in> dom (cells h)"
  shows "peeks h (path_string ctx args path nd)"
  using assms(2)
proof (induction args arbitrary: path nd)
  case (Cons arg args)
  then obtain c where c: "cells h nd = Some c" by blast
  show ?case
  proof (cases "payload c")
    case (ObjectV m)
    then show ?thesis
      using Cons.prems c by (auto simp: reads_cell Let_def split: option.splits
          intro!: finds_then_peeks ObjFind_finds assms(1) Cons.IH)
  next
    case (IntMapV m)
    then show ?thesis
      using Cons.prems c by (auto simp: reads_cell Let_def split: option.splits
          intro!: finds_then_peeks IntMapFind_finds assms(1) Cons.IH)
  next
    case (ArrayV xs)
    with Cons.prems c show ?thesis
      by (auto simp: reads_cell Let_def split: option.splits intro!: Cons.IH sealed_index [OF assms(1) c ArrayV])
  qed (use Cons.prems c in \<open>auto simp: reads_cell\<close>)
qed simp

text \<open>Resolving a path changes the two variables that report its failure, and nothing else.\<close>

definition reports :: "Runtime \<Rightarrow> Runtime \<Rightarrow> bool" where
  "reports s s' \<longleftrightarrow> (\<exists>b e. s' = s\<lparr>g_path_failed := b, g_path_error := e\<rparr>)"

lemma reportsI: "reports s (s\<lparr>g_path_failed := b, g_path_error := e\<rparr>)"
  by (auto simp: reports_def)

lemma reports_refl [simp]: "reports s s"
  unfolding reports_def by (rule exI [of _ "g_path_failed s"], rule exI [of _ "g_path_error s"]) simp

lemma reports_idle: "reports s s' \<Longrightarrow> idle env N s' = idle env N s \<and> heap s' = heap s \<and> roots s' = roots s"
  by (auto simp: reports_def)

lemma wp_SetPathError:
  assumes "sealed (heap s)" "root \<in> dom (cells (heap s))" "\<And>s'. reports s s' \<Longrightarrow> Q () s'"
  shows "wp (SetPathError ctx root args reason) Q s"
proof -
  have "wp (path_string ctx args [] root) (\<lambda>path h'. Q () (s\<lparr>g_path_failed := True, heap := h',
      g_path_error := (if path = [] then ''<root>'' else path) @ em_dash @ reason\<rparr>)) (heap s)"
    using path_string_peeks [OF assms(1,2)] unfolding reads_def
    by (rule wp_mono) (auto intro!: assms(3) reportsI)
  then show ?thesis
    by (simp add: SetPathError_def BuildPathString_def wp_on_heap)
qed

lemma resolve_steps_ok:
  assumes "sealed (heap s)" "root \<in> dom (cells (heap s))" "nd \<in> dom (cells (heap s))"
  shows "wp (resolve_steps ctx root seen args nd) (\<lambda>v s'. reports s s' \<and> somewhere (heap s) v) s"
  using assms(3)
proof (induction args arbitrary: seen nd)
  case (Cons arg args)
  then obtain c where c: "cells (heap s) nd = Some c" by blast
  have fail: "wp (SetPathError ctx root seen' reason) (\<lambda>_ s'. reports s s') s" for seen' reason
    by (rule wp_SetPathError [OF assms(1,2)])
  have find: "wp m (\<lambda>v h'. wp (f v) (\<lambda>v s'. reports s s' \<and> somewhere (heap s) v) (s\<lparr>heap := h'\<rparr>)) (heap s)"
    if "finds (heap s) m" "\<And>v. somewhere (heap s) v \<Longrightarrow> wp (f v) (\<lambda>v s'. reports s s' \<and> somewhere (heap s) v) s" for m f
    using that(1) unfolding reads_def by (rule wp_mono) (use that(2) in auto)
  show ?case
  proof (cases "payload c")
    case (ObjectV m)
    with c show ?thesis
      using Cons.IH Cons.prems fail
      by (auto simp: wp_on_heap wp_cell_at split: option.splits intro!: find ObjFind_finds assms(1))
  next
    case (IntMapV m)
    with c show ?thesis
      using Cons.IH Cons.prems fail
      by (auto simp: wp_on_heap wp_cell_at split: option.splits intro!: find IntMapFind_finds assms(1))
  next
    case (ArrayV xs)
    with c fail show ?thesis
      by (auto simp: wp_on_heap wp_cell_at split: option.splits intro!: Cons.IH sealed_index [OF assms(1) c ArrayV])
  qed (use c fail in \<open>auto simp: wp_on_heap wp_cell_at\<close>)
qed simp

lemma safe_resolve:
  assumes "idle env N s" "a \<in># roots s"
    "\<And>v s. idle env N s \<Longrightarrow> somewhere (heap s) v \<Longrightarrow> safe env N (f v) s"
  shows "safe env N (seq (ResolveJsonPath ctx (node \<lparr>node = Some a\<rparr>) params start steps) f) s"
proof -
  define s0 where "s0 = s\<lparr>g_path_failed := False, g_path_error := []\<rparr>"
  have s0: "idle env N s0" "roots s0 = roots s" using assms(1) by (simp_all add: s0_def)
  have "wp (resolve_steps ctx a [] (take (nat steps) (drop start params)) a)
      (\<lambda>v s'. reports s0 s' \<and> somewhere (heap s0) v) s0"
    using rt_ok_sealed [OF s0(1)] rt_ok_live [OF s0(1)] assms(2) s0(2) by (intro resolve_steps_ok) auto
  then have "wp (resolve_steps ctx a [] (take (nat steps) (drop start params)) a)
      (\<lambda>v. wp (f v) (\<lambda>_. rt_ok env (Suc N) {#})) s0"
    by (rule wp_mono) (use assms(3) s0(1) in \<open>auto simp: safe_def dest!: reports_idle\<close>)
  then show ?thesis by (simp add: safe_def ResolveJsonPath_def s0_def)
qed

lemma safe_path_get:
  assumes "idle env N s" "\<And>s. idle env N s \<Longrightarrow> safe env N none s" "\<And>p s. idle env N s \<Longrightarrow> safe env N (f p) s"
  shows "safe env N (path_get ctx params skip none f) s"
  unfolding path_get_def
proof (rule safe_json [OF assms(1)], rule safe_resolve [OF assms(1)])
  fix v s assume s: "idle env N s" "somewhere (heap s) v"
  show "safe env N (case v of None \<Rightarrow> none | Some a \<Rightarrow> seq (on_heap (cell_at a)) (\<lambda>c. f (payload c))) s"
    using s(2) assms(2,3) [OF s(1)] by (cases v) (auto simp: safe_def wp_on_heap wp_cell_at)
qed

lemma safe_cell: "idle env N s \<Longrightarrow> safe env N (cell_of_payload p) s"
  by (cases p) (auto simp: safe_ret safe_crash split: option.split)

lemma paths_safe:
  "native_safe Native_JsonPathGetInt" "native_safe Native_JsonPathGetInt64" "native_safe Native_JsonPathGetFloat"
  "native_safe Native_JsonPathGetBool" "native_safe Native_JsonPathGetString" "native_safe Native_JsonPathGet"
  "native_safe Native_JsonPathGetType"
  unfolding Native_JsonPathGetInt_def Native_JsonPathGetInt64_def Native_JsonPathGetFloat_def
    Native_JsonPathGetBool_def Native_JsonPathGetString_def Native_JsonPathGet_def Native_JsonPathGetType_def
  by (assumption | rule native_safeI plain_rules safe_path_get safe_cell safe_resolve safe_wrap
      safe_peek [OF coerce_peeks(1)] safe_peek [OF coerce_peeks(3)] safe_peek [OF coerce_peeks(4)])+

lemma path_status_safe: "native_safe Native_JsonPathFailed" "native_safe Native_JsonPathError"
  unfolding Native_JsonPathFailed_def Native_JsonPathError_def
  by (assumption | rule native_safeI plain_rules safe_get)+

end
