(* ===== verification/Json_Calls.thy ===== *)
theory Json_Calls
  imports Json_Natives_Safe
begin

text \<open>
  Sequences of calls of the natives in \<^verbatim>\<open>g_JsonNatives\<close>.  A few natives rely on the script: appending
  a handle to something that is not an array, merging a container into one of its own parts, merging
  into a map while an iterator runs over it, and reading the current value of an iterator after the
  map was changed are not caught.  Apart from these, no sequence of calls touches memory it should not.
\<close>

section \<open>Iterators\<close>

lemma wp_Create:
  assumes "idle env N s" "Suc N < 2 ^ 24" "cells (heap s) a = Some c" "type_of (payload c) = container it"
    "\<And>h' c' x. rt_ok env (Suc N) {#a#} (s\<lparr>heap := h'\<rparr>) \<Longrightarrow> cells h' a = Some c' \<Longrightarrow> inode x = a \<Longrightarrow>
      iter_ok (Suc N) c' x \<Longrightarrow> Q (Some x) (s\<lparr>heap := h'\<rparr>)"
  shows "wp (on_heap (DataIterator_Create it (container it) (Some a))) Q s"
proof -
  define x where "x = \<lparr>itype = it, inode = a, iversion = ucast (version c), ipos = 0, iepoch = epoch c,
    obj_key = None, intmap_key = 0, ivalue = None\<rparr>"
  have "wp (on_heap (Incref a)) (\<lambda>_. Q (Some x)) s"
  proof (rule wp_Incref [OF assms(1,2)])
    show "a \<in> dom (cells (heap s))" using assms(3) by blast
    fix h' assume h': "rt_ok env (Suc N) {#a#} (s\<lparr>heap := h'\<rparr>)" "keeps (heap s) h'"
    from h'(1) obtain L where L: "counted (Suc (Suc N)) (roots (s\<lparr>heap := h'\<rparr>) + {#a#} + L) h'"
      by (elim rt_okE) simp
    from heap_ok_live [OF L] obtain c' where c': "cells h' a = Some c'" by fastforce
    from assms(1) obtain K where "counted (Suc N) (roots s + {#} + K) (heap s)" by (elim rt_okE)
    from keeps_cell [OF h'(2) heap_okD(2) [OF this assms(3)] c'] assms(3) have "same_node c c'" by simp
    then have "iter_ok (Suc N) c' x"
      using assms(4) by (auto simp: iter_ok_def x_def same_node_def intro!: exI [of _ "version c"] exI [of _ "0 :: nat"])
    with assms(5) [OF h'(1) c'] show "Q (Some x) (s\<lparr>heap := h'\<rparr>)" by (simp add: x_def)
  qed
  with assms(3,4) show ?thesis
    by (simp add: DataIterator_Create_def wp_on_heap wp_cell_at x_def)
qed

lemma iter_create_safe:
  assumes "idle env N s" "Suc N < 2 ^ 24"
  shows "safe env N (iter_create env ctx params (container it) (DataIterator_Create it (container it))) s"
  using data_handle_cases [OF assms(1), of "params ! 1"]
proof cases
  case 1
  then show ?thesis using safe_ret [OF assms(1)] by (simp add: iter_create_def safe_def)
next
  case (2 p a h)
  from rt_ok_live [OF assms(1) 2(3)] obtain c where c: "cells (heap s) a = Some c" by blast
  have "wp (on_heap (DataIterator_Create it (container it) (Some a))) (\<lambda>iter. wp (case iter of
      None \<Rightarrow> ret 0
    | Some it \<Rightarrow> seq (new_iter it) (\<lambda>q. seq (create_handle ctx q HANDLE_ITERATOR) (\<lambda>handle.
        if handle = 0 then seq (delete_iter env q) (\<lambda>_. ret 0) else ret handle))) (\<lambda>_. rt_ok env (Suc N) {#})) s"
    if "type_of (payload c) = container it"
    by (rule wp_Create [OF assms c that]) (auto intro!: wp_publish_iter simp del: wp_seq)
  with 2 c safe_ret [OF assms(1), of 0] show ?thesis
    by (simp add: iter_create_def safe_def wp_data_at wp_on_heap wp_cell_at)
qed

lemma iter_creation_safe: "native_safe Native_ObjectIterCreate" "native_safe Native_IntMapIterCreate"
  unfolding Native_ObjectIterCreate_def Native_IntMapIterCreate_def DataIterator_CreateObject_def
    DataIterator_CreateIntMap_def
  using iter_create_safe [where it = ObjectIter] iter_create_safe [where it = IntMapIter]
  by (auto intro!: native_safeI)

text \<open>A step of an iterator whose version is current stays within the table.\<close>

lemma Next_ok:
  assumes "iter_ok N c it" "N < 2 ^ 24" "cells h (inode it) = Some c"
  shows "\<exists>b it'. Next it h = Done ((b, it'), h) \<and> inode it' = inode it \<and> iter_ok N c it'"
proof (cases "ucast (version c) = iversion it")
  case False
  with assms show ?thesis by (auto simp: Next_def cell_at_def seq_def)
next
  case True
  note cur = iter_ok_current [OF assms(1,2) True]
  have step: "iter_ok N c it'" if "itype it' = itype it" "iversion it' = iversion it" "iepoch it' = iepoch it"
    "ivalue it' = Some v" "v \<in> set (children (payload c))" for it' v
    using assms(1) that by (auto simp: iter_ok_def)
  show ?thesis
  proof (cases "itype it")
    case ObjectIter
    with assms(1) obtain m where m: "payload c = ObjectV m" by (cases "payload c") (auto simp: iter_ok_def)
    then have "iter_ok N c (it\<lparr>obj_key := Some k, ivalue := Some (snd (m ! i)), ipos := n\<rparr>)" if "i < length m" for k i n
      using that by (intro step [of _ "snd (m ! i)"]) simp_all
    with True cur ObjectIter m assms(1,3) show ?thesis by (auto simp: Next_def cell_at_def seq_def not_le)
  next
    case IntMapIter
    with assms(1) obtain m where m: "payload c = IntMapV m" by (cases "payload c") (auto simp: iter_ok_def)
    then have "iter_ok N c (it\<lparr>intmap_key := k, ivalue := Some (snd (m ! i)), ipos := n\<rparr>)" if "i < length m" for k i n
      using that by (intro step [of _ "snd (m ! i)"]) simp_all
    with True cur IntMapIter m assms(1,3) show ?thesis by (auto simp: Next_def cell_at_def seq_def not_le)
  qed
qed

lemma rt_ok_set_iter:
  assumes "rt_ok env N E s" "iters s p = Some it" "inode it' = inode it"
    "cells (heap s) (inode it) = Some c" "iter_ok N c it'"
  shows "rt_ok env N E (s\<lparr>iters := (iters s)(p \<mapsto> it')\<rparr>)" (is "rt_ok _ _ _ ?s")
proof -
  from assms(1) obtain L where L: "unique env \<longrightarrow> L = {#}" "counted (Suc N) (roots s + E + L) (heap s)"
    "objects_ok s" "iters_ok N s" by (rule rt_okE)
  have "roots ?s = roots s"
    using held_by_upd [OF objects_okD(4) [OF L(3)] assms(2), of "\<lambda>it. {#inode it#}" it'] assms(3) by (simp add: roots_def)
  moreover have "dom ((iters s)(p \<mapsto> it')) = dom (iters s)" using assms(2) by auto
  then have "objects_ok ?s" using L(3) objects_ok_iters by blast
  moreover have "iters_ok N ?s" using L(4) assms(3-5) by (simp add: iters_ok_def)
  ultimately show ?thesis using L by (intro rt_okI [OF L(1)]) simp_all
qed

lemma safe_iter:
  assumes "idle env N s" "safe env N none s"
    "\<And>p it c. iters s p = Some it \<Longrightarrow> cells (heap s) (inode it) = Some c \<Longrightarrow> iter_ok N c it \<Longrightarrow>
      GetDataIterator (params ! 1) (manager s) = Some p \<Longrightarrow> safe env N (f p it) s"
  shows "safe env N (with_iter params none f) s"
  using iterator_cases [OF assms(1), of "params ! 1"] assms(2,3)
  by cases (auto simp: with_iter_def safe_def wp_iter_at)

lemma safe_iter_next:
  assumes "idle env N s" "Suc N < 2 ^ 24" "iters s p = Some it" "cells (heap s) (inode it) = Some c" "iter_ok N c it"
    "\<And>b it' s. idle env N s \<Longrightarrow> safe env N (f (b, it')) s"
  shows "safe env N (seq (iter_next p it) f) s"
proof -
  from Next_ok [OF assms(5) _ assms(4)] assms(2) obtain b it' where
    nx: "Next it (heap s) = Done ((b, it'), heap s)" "inode it' = inode it" "iter_ok N c it'" by auto
  have "idle env N (s\<lparr>iters := (iters s)(p \<mapsto> it')\<rparr>)" by (rule rt_ok_set_iter [OF assms(1,3) nx(2) assms(4) nx(3)])
  moreover have upd: "iters_update (\<lambda>is. is(p \<mapsto> it')) s = s\<lparr>iters := (iters s)(p \<mapsto> it')\<rparr>" by simp
  ultimately have "safe env N (f (b, it')) (iters_update (\<lambda>is. is(p \<mapsto> it')) s)"
    unfolding upd by (intro assms(6))
  with nx(1) show ?thesis
    by (simp add: safe_def iter_next_def wp_on_heap wp_Done)
qed

lemma iter_steps_safe: "native_safe Native_IterNext" "native_safe Native_IntMapIterNext" "native_safe Native_IntMapIterNext64"
proof -
  have "safe env N (case x of (b, it') \<Rightarrow> if \<not> b then ret 0 else f it') s"
    if "\<And>it' s. idle env N s \<Longrightarrow> safe env N (f it') s" "idle env N s" for env N f s x
    using that by (auto intro: safe_ret split: prod.split)
  note step = this
  show "native_safe Native_IterNext" "native_safe Native_IntMapIterNext" "native_safe Native_IntMapIterNext64"
    unfolding Native_IterNext_def Native_IntMapIterNext_def Native_IntMapIterNext64_def
    by (assumption | rule native_safeI safe_iter safe_iter_next step plain_rules)+
qed

section \<open>Natives with a condition\<close>

definition on_handle :: "i32 \<Rightarrow> Runtime \<Rightarrow> addr \<Rightarrow> bool" where
  "on_handle i s a \<longleftrightarrow> (\<exists>p. GetDataHandle i (manager s) = Some p \<and> datas s p = Some \<lparr>node = Some a\<rparr>)"

text \<open>The current value of an iterator is read before its map is changed.\<close>

definition unchanged :: "i32 \<Rightarrow> Runtime \<Rightarrow> bool" where
  "unchanged i s \<longleftrightarrow> (\<forall>p it c. GetDataIterator i (manager s) = Some p \<longrightarrow> iters s p = Some it \<longrightarrow>
     cells (heap s) (inode it) = Some c \<longrightarrow> ucast (version c) = iversion it)"

definition mergeable :: "i32 list \<Rightarrow> Runtime \<Rightarrow> bool" where
  "mergeable params s \<longleftrightarrow> (\<forall>a b. on_handle (params ! 1) s a \<longrightarrow> on_handle (params ! 2) s b \<longrightarrow> a \<noteq> b \<longrightarrow>
     (\<forall>it \<in> ran (iters s). inode it \<noteq> a) \<and> (params ! 3 \<noteq> 0 \<longrightarrow> a \<notin> reach (heap s) b))"

definition appendable :: "i32 list \<Rightarrow> Runtime \<Rightarrow> bool" where
  "appendable params s \<longleftrightarrow> (\<forall>a c. on_handle (params ! 1) s a \<longrightarrow> cells (heap s) a = Some c \<longrightarrow> type_of (payload c) = TArray)"

definition safe_when :: "(i32 list \<Rightarrow> Runtime \<Rightarrow> bool) \<Rightarrow> native \<Rightarrow> bool" where
  "safe_when P f \<longleftrightarrow> (\<forall>env ctx params N s. layouts_ok (layout env) \<longrightarrow> Suc N < 2 ^ 24 \<longrightarrow> idle env N s \<longrightarrow>
     P params s \<longrightarrow> safe env N (f env ctx params) s)"

lemma safe_whenI:
  "(\<And>env ctx params N s. layouts_ok (layout env) \<Longrightarrow> Suc N < 2 ^ 24 \<Longrightarrow> idle env N s \<Longrightarrow> P params s \<Longrightarrow>
     safe env N (f env ctx params) s) \<Longrightarrow> safe_when P f"
  by (simp add: safe_when_def)

lemma native_safe_when: "native_safe f \<Longrightarrow> safe_when P f"
  by (simp add: native_safe_def safe_when_def)

lemma safe_value:
  assumes "idle env N s" "Suc N < 2 ^ 24" "unchanged (params ! 1) s" "safe env N none s"
    "\<And>v c. somewhere (heap s) (Some v) \<Longrightarrow> safe env N (f v c) s"
  shows "safe env N (with_value params none f) s"
  unfolding with_value_def
proof (rule safe_iter [OF assms(1,4)])
  fix p it c assume it: "iters s p = Some it" "cells (heap s) (inode it) = Some c" "iter_ok N c it"
    "GetDataIterator (params ! 1) (manager s) = Some p"
  show "safe env N (case ivalue it of None \<Rightarrow> none | Some v \<Rightarrow> seq (on_heap (cell_at v)) (f v)) s"
  proof (cases "ivalue it")
    case (Some v)
    have "ucast (version c) = iversion it" using assms(3) it by (auto simp: unchanged_def)
    from iter_ok_current(2) [OF it(3) _ this] assms(2) Some have "v \<in> set (children (payload c))" by auto
    from sealedD [OF rt_ok_sealed [OF assms(1)] it(2) this] obtain d where "cells (heap s) v = Some d" by blast
    with assms(5) [of v] Some show ?thesis by (simp add: safe_def wp_on_heap wp_cell_at domIff)
  qed (simp add: assms(4))
qed

abbreviation iter_unchanged :: "i32 list \<Rightarrow> Runtime \<Rightarrow> bool" where
  "iter_unchanged params s \<equiv> unchanged (params ! 1) s"

lemma iter_values_safe:
  "safe_when iter_unchanged Native_IterGetType" "safe_when iter_unchanged Native_IterGetInt"
  "safe_when iter_unchanged Native_IterGetInt64" "safe_when iter_unchanged Native_IterGetFloat"
  "safe_when iter_unchanged Native_IterGetBool" "safe_when iter_unchanged Native_IterGetString"
  "safe_when iter_unchanged Native_IterGetObject"
  unfolding Native_IterGetType_def Native_IterGetInt_def Native_IterGetInt64_def Native_IterGetFloat_def
    Native_IterGetBool_def Native_IterGetString_def Native_IterGetObject_def
  by (assumption | rule safe_whenI safe_value plain_rules safe_cell safe_wrap
      safe_peek [OF coerce_peeks(1)] safe_peek [OF coerce_peeks(3)] safe_peek [OF coerce_peeks(4)])+

lemma append_safe: "safe_when appendable Native_JsonArrayAppendObject"
proof (rule safe_whenI)
  fix env ctx params N s assume s: "Suc N < 2 ^ 24" "idle env N s" "appendable params s"
  from data_handle_cases [OF s(2), of "params ! 1"] show "safe env N (Native_JsonArrayAppendObject env ctx params) s"
  proof cases
    case (2 p a h)
    from rt_ok_live [OF s(2) 2(3)] obtain c where c: "cells (heap s) a = Some c" by blast
    with s(3) 2 have "type_of (payload c) = TArray" by (auto simp: appendable_def on_handle_def)
    moreover from s(2) obtain L where L: "counted (Suc N) (roots s + {#} + L) (heap s)" by (elim rt_okE)
    ultimately have "wp (arr_push_back a b) (\<lambda>_ h'. counted (Suc (Suc N)) R h' \<and> moves {} h1 h') h1"
      if "counted (Suc (Suc N)) (add_mset b R) h1" "a \<in># R" "keeps (heap s) h1" for b R h1
      using live_keeps [OF L that(1) _ _ that(3), of a] 2(3) c that(2)
      by (auto intro!: push_back_takes [OF that(1,2)] simp: same_node_def)
    then have "safe env N (set_child env (params ! 2) ''Cannot ArrayAppendObject with self as child''
        \<lparr>node = Some a\<rparr> arr_push_back) s"
      by (rule safe_set_child [OF s(2,1) 2(3)])
    with 2 show ?thesis by (simp add: Native_JsonArrayAppendObject_def with_json_def safe_def wp_data_at)
  qed (use safe_throw [OF s(2)] in \<open>simp add: Native_JsonArrayAppendObject_def with_json_def safe_def\<close>)
qed

lemma safe_merge:
  assumes "idle env N s" "\<forall>it \<in> ran (iters s). inode it \<noteq> a"
    "\<And>L. counted (Suc N) (roots s + L) (heap s) \<Longrightarrow>
      wp m (\<lambda>_ h'. counted (Suc N) (roots s + L) h' \<and> touches a (heap s) h') (heap s)"
  shows "safe env N (mutate m) s"
  unfolding safe_def mutate_def wp_seq wp_ret
proof (rule wp_heap_moves [OF assms(1), where X = "{a}" and E' = "\<lambda>_. {#}"])
  fix L assume "counted (Suc N) (roots s + {#} + L) (heap s)"
  then have "wp m (\<lambda>_ h'. counted (Suc N) (roots s + L) h' \<and> touches a (heap s) h') (heap s)"
    by (intro assms(3)) simp
  then show "wp m (\<lambda>x h'. counted (Suc (Suc N)) (roots s + {#} + L) h' \<and> moves {a} (heap s) h') (heap s)"
    by (rule wp_mono) (auto intro: heap_ok_mono touches_moves)
qed (use assms(2) in auto)

lemma on_handles:
  assumes "idle env N s"
    "\<And>a b. on_handle (params ! 1) s a \<Longrightarrow> on_handle (params ! 2) s b \<Longrightarrow> a \<in># roots s \<Longrightarrow> b \<in># roots s \<Longrightarrow>
      safe env N (f \<lparr>node = Some a\<rparr> \<lparr>node = Some b\<rparr>) s"
  shows "safe env N (with_json params (\<lambda>json. with_other params json (f json))) s"
  using data_handle_cases [OF assms(1), of "params ! 1"]
proof cases
  case (2 p a h)
  from data_handle_cases [OF assms(1), of "params ! 2"]
  show ?thesis
  proof cases
    case (2 q b g)
    with \<open>datas s p = _\<close> \<open>GetDataHandle (params ! 1) _ = _\<close> assms(2) [of a b] \<open>a \<in># roots s\<close> show ?thesis
      by (simp add: with_json_def with_other_def safe_def wp_data_at on_handle_def)
  qed (use 2 safe_ret [OF assms(1)] in \<open>simp add: with_json_def with_other_def safe_def wp_data_at\<close>)
qed (use safe_throw [OF assms(1)] in \<open>simp add: with_json_def safe_def\<close>)

lemma merge_safe: "safe_when mergeable Native_JsonObjectMerge" "safe_when mergeable Native_IntMapMerge"
proof -
  show "safe_when mergeable Native_JsonObjectMerge"
    unfolding Native_JsonObjectMerge_def
  proof (rule safe_whenI, rule on_handles)
    fix env params N s a b
    assume s: "layouts_ok (layout env)" "idle env N s" "mergeable params s" "on_handle (params ! 1) s a"
      "on_handle (params ! 2) s b" "a \<in># roots s" "b \<in># roots s"
    show "safe env N (if node \<lparr>node = Some a\<rparr> = node \<lparr>node = Some b\<rparr> then ret 0 else
        mutate (ObjectMerge (stack env) (layout env) \<lparr>node = Some a\<rparr> (node \<lparr>node = Some b\<rparr>) (params ! 3 \<noteq> 0))) s"
    proof (rule safe_if)
      assume "node \<lparr>node = Some a\<rparr> \<noteq> node \<lparr>node = Some b\<rparr>"
      with s(3-5) have ab: "a \<noteq> b" "\<forall>it \<in> ran (iters s). inode it \<noteq> a" "params ! 3 \<noteq> 0 \<Longrightarrow> a \<notin> reach (heap s) b"
        by (auto simp: mergeable_def)
      show "safe env N (mutate (ObjectMerge (stack env) (layout env) \<lparr>node = Some a\<rparr> (node \<lparr>node = Some b\<rparr>) (params ! 3 \<noteq> 0))) s"
        unfolding ObjectMerge_def with_node_def DataHandle.select_convs option.case
        by (rule safe_merge [OF s(2) ab(2)], rule om.mrg_ok) (use s ab in auto)
    qed (rule safe_ret [OF s(2)])
  qed
  show "safe_when mergeable Native_IntMapMerge"
    unfolding Native_IntMapMerge_def
  proof (rule safe_whenI, rule on_handles)
    fix env params N s a b
    assume s: "layouts_ok (layout env)" "idle env N s" "mergeable params s" "on_handle (params ! 1) s a"
      "on_handle (params ! 2) s b" "a \<in># roots s" "b \<in># roots s"
    show "safe env N (if node \<lparr>node = Some a\<rparr> = node \<lparr>node = Some b\<rparr> then ret 0 else
        mutate (DataHandle_IntMapMerge (stack env) (layout env) \<lparr>node = Some a\<rparr> (node \<lparr>node = Some b\<rparr>) (params ! 3 \<noteq> 0))) s"
    proof (rule safe_if)
      assume "node \<lparr>node = Some a\<rparr> \<noteq> node \<lparr>node = Some b\<rparr>"
      with s(3-5) have ab: "a \<noteq> b" "\<forall>it \<in> ran (iters s). inode it \<noteq> a" "params ! 3 \<noteq> 0 \<Longrightarrow> a \<notin> reach (heap s) b"
        by (auto simp: mergeable_def)
      show "safe env N (mutate (DataHandle_IntMapMerge (stack env) (layout env) \<lparr>node = Some a\<rparr>
          (node \<lparr>node = Some b\<rparr>) (params ! 3 \<noteq> 0))) s"
        unfolding DataHandle_IntMapMerge_def with_node_def DataHandle.select_convs option.case
        by (rule safe_merge [OF s(2) ab(2)], rule im.mrg_ok) (use s ab in auto)
    qed (rule safe_ret [OF s(2)])
  qed
qed

section \<open>The whole table\<close>

text \<open>The conditions, by the name of the native.\<close>

definition careful :: "string \<Rightarrow> i32 list \<Rightarrow> Runtime \<Rightarrow> bool" where
  "careful name params s \<longleftrightarrow>
     (name = ''async2_JsonArrayAppendObject'' \<longrightarrow> appendable params s)
     \<and> (name \<in> {''async2_JsonObjectMerge'', ''async2_IntObjectMerge''} \<longrightarrow> mergeable params s)
     \<and> (name \<in> {''async2_IterGetType'', ''async2_IterGetInt'', ''async2_IterGetInt64'', ''async2_IterGetFloat'',
          ''async2_IterGetBool'', ''async2_IterGetString'', ''async2_IterGetObject''} \<longrightarrow> unchanged (params ! 1) s)"

lemma careful_when:
  "safe_when appendable f \<Longrightarrow> safe_when (careful ''async2_JsonArrayAppendObject'') f"
  "safe_when mergeable f \<Longrightarrow> safe_when (careful ''async2_JsonObjectMerge'') f"
  "safe_when mergeable f \<Longrightarrow> safe_when (careful ''async2_IntObjectMerge'') f"
  "safe_when iter_unchanged f \<Longrightarrow> safe_when (careful ''async2_IterGetType'') f"
  "safe_when iter_unchanged f \<Longrightarrow> safe_when (careful ''async2_IterGetInt'') f"
  "safe_when iter_unchanged f \<Longrightarrow> safe_when (careful ''async2_IterGetInt64'') f"
  "safe_when iter_unchanged f \<Longrightarrow> safe_when (careful ''async2_IterGetFloat'') f"
  "safe_when iter_unchanged f \<Longrightarrow> safe_when (careful ''async2_IterGetBool'') f"
  "safe_when iter_unchanged f \<Longrightarrow> safe_when (careful ''async2_IterGetString'') f"
  "safe_when iter_unchanged f \<Longrightarrow> safe_when (careful ''async2_IterGetObject'') f"
  by (simp_all add: safe_when_def careful_def)

lemmas natives_safe = inspecting_safe strict_getters_safe intmap_getters_safe scalar_handles_safe child_getters_safe
  object_setters_safe array_setters_safe removals_safe set_children_safe extend_safe create_safe close_safe
  iter_close_safe parse_safe parse_response_safe ref_safe copy_safe equals_safe size_safe serialize_safe buffer_safe
  paths_safe path_status_safe iter_creation_safe iter_steps_safe

lemma table_safe: "list_all (\<lambda>(name, f). safe_when (careful name) f) g_JsonNatives"
  unfolding g_JsonNatives_def list.pred_inject(2) prod.case
  by (intro conjI list.pred_inject(1) careful_when append_safe merge_safe iter_values_safe;
      rule native_safe_when, rule natives_safe)

lemma native_step:
  assumes "(name, f) \<in> set g_JsonNatives" "careful name params s" "idle env N s" "Suc N < 2 ^ 24" "layouts_ok (layout env)"
  shows "wp (f env ctx params) (\<lambda>_. idle env (Suc N)) s"
proof -
  from table_safe assms(1) have "safe_when (careful name) f" by (auto simp: list_all_iff)
  with assms(2-) show ?thesis by (simp add: safe_when_def safe_def)
qed

section \<open>Sequences of calls\<close>

text \<open>A finished request: its body has arrived and may have been parsed on the event thread, and the
  script has a handle for it.\<close>

definition finished :: "Env \<Rightarrow> ctx option \<Rightarrow> string \<Rightarrow> bool \<Rightarrow> Runtime \<Rightarrow> Runtime \<Rightarrow> bool" where
  "finished env own body parse s s' \<longleftrightarrow>
     (\<exists>i m' r e h'. CreateHandle (next_obj s) HANDLE_HTTP_REQUEST own (manager s) = Some (i, m') \<and> i \<noteq> 0
        \<and> (if parse then DataParseJson (stack env) (layout env) (iterate env) body (heap s) = Done ((r, e), h')
           else r = None \<and> h' = heap s)
        \<and> s' = s\<lparr>heap := h', manager := m', next_obj := Suc (next_obj s), requests := (requests s)(next_obj s \<mapsto>
             \<lparr>in_event_thread = False, response_node = r, response_body = body\<rparr>)\<rparr>)"

inductive reachable :: "Env \<Rightarrow> nat \<Rightarrow> Runtime \<Rightarrow> bool" for env where
  start: "reachable env 0 Runtime_init"
| call: "reachable env N s \<Longrightarrow> (name, f) \<in> set g_JsonNatives \<Longrightarrow> careful name params s \<Longrightarrow>
    f env ctx params s = Done (r, s') \<Longrightarrow> reachable env (Suc N) s'"
| response: "reachable env N s \<Longrightarrow> finished env own body parse s s' \<Longrightarrow> reachable env (Suc N) s'"

lemma objects_ok_request:
  assumes "objects_ok s" "used (manager s) i = None" "hm_ok m'"
    "used m' = (used (manager s))(i \<mapsto> \<lparr>htype = HANDLE_HTTP_REQUEST, pointer = next_obj s, owner = own, closed = False\<rparr>)"
  shows "objects_ok (s\<lparr>manager := m', next_obj := Suc (next_obj s), requests := (requests s)(next_obj s \<mapsto> q)\<rparr>)"
proof -
  note D = objects_okD [OF assms(1)]
  have b: "behind m' t = (if HANDLE_HTTP_REQUEST = t then insert (next_obj s) (behind (manager s) t) else behind (manager s) t)" for t
    using behind_add [OF assms(4,2)] by simp
  have "next_obj s \<notin> behind (manager s) HANDLE_HTTP_REQUEST"
    using D(6) [of "next_obj s"] D(10) by blast
  then have "single m'" by (intro single_add [OF D(2) assms(4)]) simp
  moreover have "\<forall>p \<in> dom (datas s) \<union> dom (iters s) \<union> dom ((requests s)(next_obj s \<mapsto> q)). p < Suc (next_obj s)"
    using D(6) by (metis Un_iff dom_fun_upd insert_iff less_Suc_eq option.distinct(1))
  moreover have "\<forall>p dh. datas s p = Some dh \<longrightarrow> node dh \<noteq> None" using D(7) by (metis option.distinct(1))
  moreover have "dom (datas s) = behind m' HANDLE_JSON_VALUE" "dom (iters s) = behind m' HANDLE_ITERATOR"
    using D(8,9) by (simp_all add: b)
  moreover have "behind m' HANDLE_HTTP_REQUEST \<subseteq> dom ((requests s)(next_obj s \<mapsto> q))"
    unfolding b using D(10) by (simp add: subset_insertI2)
  ultimately show ?thesis using assms(3) D(3-5) by (simp add: objects_ok_def)
qed

lemma finished_idle:
  assumes "idle env N s" "finished env own body parse s s'" "layouts_ok (layout env)" "Suc N < 2 ^ 24"
  shows "idle env (Suc N) s'"
proof -
  from assms(2) obtain i m' r e h' where s': "CreateHandle (next_obj s) HANDLE_HTTP_REQUEST own (manager s) = Some (i, m')"
    "i \<noteq> 0" "if parse then DataParseJson (stack env) (layout env) (iterate env) body (heap s) = Done ((r, e), h')
      else r = None \<and> h' = heap s"
    "s' = s\<lparr>heap := h', manager := m', next_obj := Suc (next_obj s), requests := (requests s)(next_obj s \<mapsto>
       \<lparr>in_event_thread = False, response_node = r, response_body = body\<rparr>)\<rparr>" by (auto simp: finished_def)
  from assms(1) obtain L where L: "unique env \<longrightarrow> L = {#}" "counted (Suc N) (roots s + {#} + L) (heap s)"
    "objects_ok s" "iters_ok N s" by (rule rt_okE)
  have "\<exists>K. (unique env \<longrightarrow> K = {#}) \<and> counted (Suc (Suc N)) (roots s + ptr r + L + K) h' \<and> keeps (heap s) h'"
  proof (cases parse)
    case True
    from wp_DoneD [OF DataParseJson_ok [OF L(2) _ assms(3), of "stack env" "iterate env" body]] s'(3) True
    obtain K where "counted (Suc N) (roots s + L + ptr r + K) h'" "keeps (heap s) h'"
      "(\<forall>doc. iterate env body = Inr doc \<longrightarrow> unique_keys doc) \<longrightarrow> K = {#}" by (auto simp: lossy_def)
    then show ?thesis
      by (intro exI [of _ K]) (auto simp: unique_def ac_simps intro: heap_ok_mono)
  next
    case False
    with s'(3) L(2) show ?thesis by (intro exI [of _ "{#}"]) (auto intro: heap_ok_mono)
  qed
  then obtain K where K: "unique env \<longrightarrow> K = {#}" "counted (Suc (Suc N)) (roots s + ptr r + L + K) h'" "keeps (heap s) h'"
    by blast
  from create_cases [OF objects_okD(1) [OF L(3)], of "next_obj s" HANDLE_HTTP_REQUEST own] s'(1,2)
  have m': "hm_ok m'" "used (manager s) i = None" "used m' = (used (manager s))(i \<mapsto>
      \<lparr>htype = HANDLE_HTTP_REQUEST, pointer = next_obj s, owner = own, closed = False\<rparr>)" by auto
  have upd: "s' = heap_update (\<lambda>_. h') (s\<lparr>manager := m', next_obj := Suc (next_obj s), requests := (requests s)(next_obj s \<mapsto>
       \<lparr>in_event_thread = False, response_node = r, response_body = body\<rparr>)\<rparr>)" by (simp add: s'(4))
  have "objects_ok s'" unfolding upd objects_ok_heap by (rule objects_ok_request [OF L(3) m'(2,1,3)])
  moreover have "requests s (next_obj s) = None" using objects_okD(6) [OF L(3), of "next_obj s"] by auto
  then have "roots s' = roots s + ptr r"
    using held_by_new [OF objects_okD(5) [OF L(3)], of "next_obj s" "\<lambda>r. ptr (response_node r)"]
    by (simp add: roots_def s'(4))
  moreover have "iters_ok (Suc N) (s\<lparr>heap := h'\<rparr>)"
    by (rule iters_ok_keeps [OF L(4,3) _ _ K(3), where E = L and E' = "ptr r + L + K"])
      (use L(2) K(2) in \<open>simp_all add: add.assoc\<close>)
  then have "iters_ok (Suc N) s'" by (simp add: s'(4) iters_ok_def)
  ultimately show ?thesis
    using L(1) K(1,2) by (intro rt_okI [where L = "L + K"]) (simp_all add: s'(4) add.assoc)
qed

lemma reachable_idle:
  assumes "layouts_ok (layout env)" "reachable env N s" "N < 2 ^ 24"
  shows "idle env N s"
  using assms(2,3)
proof (induction rule: reachable.induct)
  case start
  show ?case by (rule rt_ok_init)
next
  case (call N s name f params ctx r s')
  then show ?case using wp_DoneD [OF native_step [OF call.hyps(2,3) _ _ assms(1)] call.hyps(4)] by simp
next
  case (response N s own body parse s')
  then show ?case using finished_idle [OF _ response.hyps(2) assms(1)] by simp
qed

text \<open>Without pointers from outside, what is left of the heap is cycles.\<close>

lemma parent_of:
  assumes "counted n {#} h" "cells h a = Some c"
  shows "\<exists>b. (b, a) \<in> child_of h"
proof -
  from heap_okD(8) [OF assms] have "count (\<Sum>b \<in> dom (cells h). kids (the (cells h b))) a \<noteq> 0"
    by (simp add: refs_def)
  then have "(\<Sum>b \<in> dom (cells h). count (kids (the (cells h b))) a) \<noteq> 0" by (simp add: count_sum)
  then obtain b where "b \<in> dom (cells h)" "count (kids (the (cells h b))) a \<noteq> 0" by (meson sum.neutral)
  then show ?thesis unfolding child_of_def kids_def count_eq_zero_iff by fastforce
qed

lemma no_roots_empty:
  assumes "counted n {#} h" "acyclic (child_of h)"
  shows "cells h = Map.empty"
proof -
  have "child_of h \<subseteq> (SIGMA b : dom (cells h). set (children (payload (the (cells h b)))))"
    by (auto simp: child_of_def)
  moreover have "finite (SIGMA b : dom (cells h). set (children (payload (the (cells h b)))))"
    using heap_okD(1) [OF assms(1)] by auto
  ultimately have wf: "wf (child_of h)" using assms(2) by (meson finite_acyclic_wf finite_subset)
  have "cells h a = None" for a
    using wf
  proof (induction a rule: wf_induct_rule)
    case (less a)
    show ?case
    proof (rule ccontr)
      assume "cells h a \<noteq> None"
      then obtain b where b: "(b, a) \<in> child_of h" using parent_of [OF assms(1), of a] by auto
      from less [OF b] b show False by (auto simp: child_of_def)
    qed
  qed
  then show ?thesis by auto
qed

end
