(* ===== verification/Json_Safety.thy ===== *)
theory Json_Safety
  imports Json_Calls
begin

text \<open>
  What holds after any sequence of calls of the natives in \<^verbatim>\<open>src/natives_json.cpp\<close>, by the invariant of
  \<open>Runtime_Invariant\<close>: no call corrupts memory, the counts are exact and nothing leaks.  Short scripts
  show that the states exist, and what careless scripts run into.
\<close>

section \<open>Scripts\<close>

text \<open>A script is a sequence of calls; the result is the list of what they return.\<close>

primrec script :: "Env \<Rightarrow> Ctx \<Rightarrow> (string \<times> native \<times> i32 list) list \<Rightarrow> i32 list rt_act" where
  "script env ctx [] = ret []"
| "script env ctx (c # calls) = (case c of (name, f, params) \<Rightarrow>
     seq (f env ctx params) (\<lambda>r. seq (script env ctx calls) (\<lambda>rs. ret (r # rs))))"

text \<open>Scripts of natives that ask for no care.\<close>

definition simple :: "string \<Rightarrow> bool" where
  "simple name \<longleftrightarrow> name \<notin> {''async2_JsonArrayAppendObject'', ''async2_JsonObjectMerge'', ''async2_IntObjectMerge'',
     ''async2_IterGetType'', ''async2_IterGetInt'', ''async2_IterGetInt64'', ''async2_IterGetFloat'',
     ''async2_IterGetBool'', ''async2_IterGetString'', ''async2_IterGetObject''}"

lemma simple_careful: "simple name \<Longrightarrow> careful name params s"
  by (auto simp: simple_def careful_def)

lemma reachable_script:
  assumes "reachable env N s" "list_all (\<lambda>(name, f, params). (name, f) \<in> set g_JsonNatives \<and> simple name) calls"
    "script env ctx calls s = Done (rs, s')"
  shows "reachable env (N + length calls) s'"
  using assms
proof (induction calls arbitrary: N s rs)
  case Nil
  then show ?case by (simp add: ret_def)
next
  case (Cons c calls)
  obtain name f params where c: "c = (name, f, params)" by (cases c) auto
  from Cons.prems(3) obtain r s1 rs' where s1: "f env ctx params s = Done (r, s1)" "script env ctx calls s1 = Done (rs', s')"
    by (auto simp: c seq_def ret_def split: run.splits)
  from Cons.prems(2) have "reachable env (Suc N) s1"
    by (intro reachable.call [where name = name and f = f, OF Cons.prems(1) _ _ s1(1)]) (auto simp: c intro: simple_careful)
  from Cons.IH [OF this _ s1(2)] Cons.prems(2) show ?case by simp
qed

text \<open>An environment: no files, no texts, tables in insertion order.\<close>

definition plain_env :: Env where
  "plain_env = \<lparr>stack = 100, layout = \<lparr>str_layout = (\<lambda>ks. ks), int_layout = (\<lambda>ks. ks)\<rparr>, iterate = (\<lambda>_. Inl ''no text''),
     open_file = (\<lambda>_. None), node_bytes = 32, own_bytes = (\<lambda>_ _. 0)\<rparr>"

text \<open>A plugin whose memory has a string at each address: a single letter.\<close>

definition plain_ctx :: Ctx where
  "plain_ctx = \<lparr>plugin = 7, LocalToString = (\<lambda>a. Some [char_of (unat a)]), LocalToPhysAddr = (\<lambda>_. None)\<rparr>"

lemma plain_env_ok: "layouts_ok (layout plain_env)" "unique plain_env"
  by (simp_all add: plain_env_def layouts_ok_def unique_def)

text \<open>What a script run from the start ends with: what its calls return, or a crash.\<close>

definition outcome :: "(string \<times> native \<times> i32 list) list \<Rightarrow> i32 list + crash" where
  "outcome calls = (case script plain_env plain_ctx calls Runtime_init of Done (rs, s) \<Rightarrow> Inl rs | Crash c \<Rightarrow> Inr c)"

lemma started:
  assumes "list_all (\<lambda>(name, f, params). (name, f) \<in> set g_JsonNatives \<and> simple name) calls" "outcome calls = Inl rs"
  shows "\<exists>s. script plain_env plain_ctx calls Runtime_init = Done (rs, s) \<and> reachable plain_env (length calls) s"
  using assms(2) reachable_script [where env = plain_env and ctx = plain_ctx, OF reachable.start assms(1)]
  by (auto simp: outcome_def split: run.splits)

text \<open>Two scripts: an object with a member and an iterator on it, and the same closed again.\<close>

definition setup_calls :: "(string \<times> native \<times> i32 list) list" where
  "setup_calls = [(''async2_JsonCreateObject'', Native_JsonCreateObject, [0]),
     (''async2_JsonSetInt'', Native_JsonSetInt, [3, 1, 97, 5]),
     (''async2_ObjectIterCreate'', Native_ObjectIterCreate, [1, 1])]"

definition close_calls :: "(string \<times> native \<times> i32 list) list" where
  "close_calls = [(''async2_IterClose'', Native_IterClose, [1, 2]), (''async2_JsonClose'', Native_JsonClose, [1, 1])]"

lemma script_natives: "list_all (\<lambda>(name, f, params). (name, f) \<in> set g_JsonNatives \<and> simple name) (setup_calls @ close_calls)"
  by (simp add: setup_calls_def close_calls_def g_JsonNatives_def simple_def)

lemma setup_natives: "list_all (\<lambda>(name, f, params). (name, f) \<in> set g_JsonNatives \<and> simple name) setup_calls"
  using script_natives by simp

lemma setup_runs: "outcome setup_calls = Inl [1, 0, 2]"
  by code_simp

lemma close_runs: "outcome (setup_calls @ close_calls) = Inl [1, 0, 2, 0, 0]"
  by code_simp

text \<open>What the second script leaves behind, checked address by address.\<close>

lemma close_state: "case script plain_env plain_ctx (setup_calls @ close_calls) Runtime_init of
    Done (rs, s) \<Rightarrow> used_handles (manager s) = [] \<and> list_all (\<lambda>a. Option.is_none (cells (heap s) a)) [0..<next_addr (heap s)]
      \<and> list_all (\<lambda>q. Option.is_none (requests s q)) [0..<next_obj s]
  | Crash c \<Rightarrow> False"
  by code_simp

lemma all_closed:
  assumes "reachable plain_env N s" "N < 2 ^ 24" "list_all (\<lambda>a. Option.is_none (cells (heap s) a)) [0..<next_addr (heap s)]"
    "list_all (\<lambda>q. Option.is_none (requests s q)) [0..<next_obj s]"
  shows "requests s = Map.empty \<and> acyclic (child_of (heap s))"
proof -
  from reachable_idle [OF plain_env_ok(1) assms(1,2)] obtain R where
    "counted (Suc N) R (heap s)" "objects_ok s" by (auto elim!: rt_okE)
  note below = heap_okD(2) [OF this(1)] obj_below(3) [OF this(2)]
  have "cells (heap s) a = None" for a
    using assms(3) below(1) [of a] by (cases "cells (heap s) a") (auto simp: list_all_iff Option.is_none_def)
  moreover have "requests s q = None" for q
    using assms(4) below(2) [of q] by (cases "requests s q") (auto simp: list_all_iff Option.is_none_def)
  ultimately show ?thesis by (auto simp: child_of_def acyclic_def)
qed

section \<open>Properties\<close>

text \<open>C2: After any sequence of fewer than $2^{24}$ careful calls, each native with any arguments
  ends, without a use after free, a null pointer, the wrong member of a node, an invalid table
  iterator or an endless search; or it crashes on an address that the script engine rejected, a
  double that its integer type cannot hold, or a nesting deeper than the stack.\<close>

theorem natives_memory_safe:
  assumes "layouts_ok (layout env)" "reachable env N s" "Suc N < 2 ^ 24"
    "(name, f) \<in> set g_JsonNatives" "careful name params s"
  shows "(\<exists>r s'. f env ctx params s = Done (r, s')) \<or> f env ctx params s = Crash WildPointer
    \<or> f env ctx params s = Crash BadCast \<or> f env ctx params s = Crash StackOverflow"
proof -
  have "idle env N s" using reachable_idle [OF assms(1,2)] assms(3) by simp
  from native_step [OF assms(4,5) this assms(3,1), of ctx] show ?thesis
    by (cases "f env ctx params s") (auto simp: wp_def tolerated_def)
qed

theorem natives_memory_safe_witness:
  "\<exists>s. reachable plain_env 3 s \<and> careful ''async2_JsonClose'' [1, 1] s \<and>
     ((\<exists>r s'. Native_JsonClose plain_env plain_ctx [1, 1] s = Done (r, s'))
      \<or> Native_JsonClose plain_env plain_ctx [1, 1] s = Crash WildPointer
      \<or> Native_JsonClose plain_env plain_ctx [1, 1] s = Crash BadCast
      \<or> Native_JsonClose plain_env plain_ctx [1, 1] s = Crash StackOverflow)"
proof -
  obtain s where s: "reachable plain_env (length setup_calls) s"
    using started [OF setup_natives setup_runs] by blast
  then have s: "reachable plain_env 3 s" by (simp add: setup_calls_def numeral_3_eq_3)
  have c: "careful ''async2_JsonClose'' [1, 1] s" by (simp add: careful_def)
  have t: "(''async2_JsonClose'', Native_JsonClose) \<in> set g_JsonNatives" by (simp add: g_JsonNatives_def)
  show ?thesis using s c natives_memory_safe [OF plain_env_ok(1) s _ t c, of plain_ctx] by auto
qed

text \<open>C3: In every reachable state the count of each node is the number of pointers to it: those in
  containers, in handles, in iterators and in finished requests, and those that parsing lost,
  of which there are none when no object in a parsed text repeats a key; a node without pointers is
  gone, and so is every pointer to a node that is gone.\<close>

theorem reachable_counts:
  assumes "layouts_ok (layout env)" "reachable env N s" "N < 2 ^ 24"
  shows "\<exists>lost. (unique env \<longrightarrow> lost = {#}) \<and> counted (Suc N) (roots s + lost) (heap s)"
  using reachable_idle [OF assms] by (auto elim!: rt_okE)

theorem reachable_counts_witness:
  "\<exists>s. reachable plain_env 3 s \<and> (\<exists>lost. (unique plain_env \<longrightarrow> lost = {#}) \<and> counted 4 (roots s + lost) (heap s))"
proof -
  obtain s where "reachable plain_env (length setup_calls) s"
    using started [OF setup_natives setup_runs] by blast
  then have s: "reachable plain_env 3 s" by (simp add: setup_calls_def numeral_3_eq_3)
  from reachable_counts [OF plain_env_ok(1) s] s show ?thesis by auto
qed

text \<open>C4: When a script has closed all its handles, nothing is left of its data: no node, no handle
  object and no iterator, provided that it built no cycle and parsed no object with a repeated key.\<close>

theorem closed_handles_no_leak:
  assumes "layouts_ok (layout env)" "reachable env N s" "N < 2 ^ 24" "unique env"
    "used_handles (manager s) = []" "requests s = Map.empty" "acyclic (child_of (heap s))"
  shows "cells (heap s) = Map.empty \<and> datas s = Map.empty \<and> iters s = Map.empty"
proof -
  from reachable_idle [OF assms(1-3)] assms(4) have
    c: "counted (Suc N) (roots s) (heap s)" and o: "objects_ok s" by (auto elim!: rt_okE)
  have "behind (manager s) t = {}" for t using assms(5) by (simp add: behind_def)
  with objects_okD(8,9) [OF o] have d: "datas s = Map.empty" "iters s = Map.empty" by auto
  with assms(6) have r: "roots s = {#}" by (simp add: roots_def)
  from c r have "cells (heap s) = Map.empty" by (intro no_roots_empty [OF _ assms(7)]) simp
  with d show ?thesis by simp
qed

theorem closed_handles_no_leak_witness:
  "\<exists>s. reachable plain_env 5 s \<and> used_handles (manager s) = [] \<and> cells (heap s) = Map.empty"
proof -
  obtain rs s where s: "script plain_env plain_ctx (setup_calls @ close_calls) Runtime_init = Done (rs, s)"
    "reachable plain_env (length (setup_calls @ close_calls)) s"
    using started [OF script_natives close_runs] by blast
  then have r: "reachable plain_env 5 s" by (simp add: setup_calls_def close_calls_def eval_nat_numeral)
  from close_state all_closed [OF r] have "requests s = Map.empty" "acyclic (child_of (heap s))" "used_handles (manager s) = []"
    by (auto simp: s(1))
  with closed_handles_no_leak [OF plain_env_ok(1) r _ plain_env_ok(2)] r show ?thesis by auto
qed





end
