(* ===== verification/Header_Map.thy ===== *)
theory Header_Map
  imports Async2_Prelude
begin

text \<open>
  HTTP headers (\<^verbatim>\<open>src/header_map.h\<close>): an ordered map whose keys are compared without regard to case, and the
  list of header lines that is built from it.  The theory shows that the map is a map on lower-case
  names, that a header line cannot smuggle in a second one, and that a header of the user replaces
  the default of the same name.
\<close>

section \<open>Model\<close>

text \<open>The C library's \<^verbatim>\<open>tolower\<close> and \<^verbatim>\<open>toupper\<close> in the C locale.\<close>

definition tolower :: "char \<Rightarrow> char" where
  "tolower c = (if 65 \<le> code c \<and> code c \<le> 90 then char_of (code c + 32) else c)"

definition toupper :: "char \<Rightarrow> char" where
  "toupper c = (if 97 \<le> code c \<and> code c \<le> 122 then char_of (code c - 32) else c)"

definition StripCRLF :: "string \<Rightarrow> string" where
  "StripCRLF s = [c \<leftarrow> s. c \<noteq> CHR 0x0D \<and> c \<noteq> CHR 0x0A]"

text \<open>\<^verbatim>\<open>std::lexicographical_compare\<close> on the bytes in lower case.\<close>

fun HeaderCaseInsensitive :: "string \<Rightarrow> string \<Rightarrow> bool" where
  "HeaderCaseInsensitive a [] = False"
| "HeaderCaseInsensitive [] (d # b) = True"
| "HeaderCaseInsensitive (c # a) (d # b) =
     (if code (tolower c) < code (tolower d) then True
      else if code (tolower d) < code (tolower c) then False
      else HeaderCaseInsensitive a b)"

text \<open>\<^verbatim>\<open>std::map\<close> with that order: the entries in ascending order.  Assigning to a key that is
  there under another spelling keeps the old spelling.\<close>

type_synonym HeaderMap = "(string \<times> string) list"

primrec header_find :: "string \<Rightarrow> HeaderMap \<Rightarrow> string option" where
  "header_find k [] = None"
| "header_find k (e # m) =
     (if HeaderCaseInsensitive (fst e) k then header_find k m
      else if HeaderCaseInsensitive k (fst e) then None
      else Some (snd e))"

primrec header_set :: "string \<Rightarrow> string \<Rightarrow> HeaderMap \<Rightarrow> HeaderMap" where
  "header_set k v [] = [(k, v)]"
| "header_set k v (e # m) =
     (if HeaderCaseInsensitive (fst e) k then e # header_set k v m
      else if HeaderCaseInsensitive k (fst e) then (k, v) # e # m
      else (fst e, v) # m)"

primrec header_erase :: "string \<Rightarrow> HeaderMap \<Rightarrow> HeaderMap" where
  "header_erase k [] = []"
| "header_erase k (e # m) =
     (if HeaderCaseInsensitive (fst e) k then e # header_erase k m
      else if HeaderCaseInsensitive k (fst e) then e # m
      else m)"

text \<open>A header line; \<^verbatim>\<open>curl_slist_append\<close> copies it up to the first NUL.\<close>

definition header_line :: "string \<times> string \<Rightarrow> string" where
  "header_line e = c_str (StripCRLF (fst e) @ '': '' @ StripCRLF (snd e))"

definition BuildHeaderSlist :: "HeaderMap \<Rightarrow> HeaderMap \<Rightarrow> string list" where
  "BuildHeaderSlist headers defaults =
     map header_line headers @ map header_line [e \<leftarrow> defaults. header_find (fst e) headers = None]"

section \<open>The order\<close>

definition lower :: "string \<Rightarrow> string" where
  "lower = map tolower"

lemma lower_simps [simp]: "lower [] = []" "lower (c # s) = tolower c # lower s"
  by (simp_all add: lower_def)

lemma code_inject: "code c = code d \<Longrightarrow> c = d"
  by (metis char_of_char)

lemma less_irrefl: "lower a = lower b \<Longrightarrow> \<not> HeaderCaseInsensitive a b"
  by (induction a b rule: HeaderCaseInsensitive.induct) auto

lemma less_total: "\<not> HeaderCaseInsensitive a b \<Longrightarrow> \<not> HeaderCaseInsensitive b a \<Longrightarrow> lower a = lower b"
proof (induction a b rule: HeaderCaseInsensitive.induct)
  case (1 a)
  then show ?case by (cases a) auto
next
  case (3 c a d b)
  then show ?case by (auto split: if_splits intro: code_inject)
qed simp

lemma less_trans: "HeaderCaseInsensitive a b \<Longrightarrow> HeaderCaseInsensitive b c \<Longrightarrow> HeaderCaseInsensitive a c"
proof (induction a c arbitrary: b rule: HeaderCaseInsensitive.induct)
  case (1 a)
  then show ?case by simp
next
  case (2 d c)
  then show ?case by simp
next
  case (3 x a y c)
  then show ?case by (cases b) (auto split: if_splits)
qed

lemma less_cong: "lower a = lower a' \<Longrightarrow> lower b = lower b' \<Longrightarrow> HeaderCaseInsensitive a b = HeaderCaseInsensitive a' b'"
proof (induction a b arbitrary: a' b' rule: HeaderCaseInsensitive.induct)
  case (1 a)
  then show ?case by (cases b') auto
next
  case (2 d b)
  then show ?case by (cases a'; cases b') auto
next
  case (3 c a d b)
  then show ?case by (cases a'; cases b') auto
qed

section \<open>A map on lower-case names\<close>

abbreviation headers_ok :: "HeaderMap \<Rightarrow> bool" where
  "headers_ok \<equiv> sorted_wrt (\<lambda>e f. HeaderCaseInsensitive (fst e) (fst f))"

definition header_map :: "HeaderMap \<Rightarrow> string \<Rightarrow> string option" where
  "header_map m n = map_of (map (\<lambda>e. (lower (fst e), snd e)) m) n"

lemma header_map_simps [simp]: "header_map [] n = None"
  "header_map (e # m) n = (if n = lower (fst e) then Some (snd e) else header_map m n)"
  by (auto simp: header_map_def)

lemma header_map_above:
  assumes "\<forall>f \<in> set m. HeaderCaseInsensitive k (fst f)"
  shows "header_map m (lower k) = None"
  using assms by (induction m) (auto dest: less_irrefl)

lemma header_find_map: "headers_ok m \<Longrightarrow> header_find k m = header_map m (lower k)"
proof (induction m)
  case (Cons e m)
  show ?case
  proof (cases "lower (fst e) = lower k")
    case True
    then show ?thesis by (simp add: less_irrefl)
  next
    case False
    then consider "HeaderCaseInsensitive (fst e) k" | "HeaderCaseInsensitive k (fst e)"
      using less_total by blast
    then show ?thesis
    proof cases
      case 1
      with Cons False show ?thesis by auto
    next
      case 2
      with Cons.prems have "header_map m (lower k) = None" by (intro header_map_above) (auto intro: less_trans)
      with 2 False less_trans [of "fst e" k "fst e"] less_irrefl [of "fst e" "fst e"] show ?thesis by auto
    qed
  qed
qed simp

lemma header_set_keys: "f \<in> set (header_set k v m) \<Longrightarrow> f = (k, v) \<or> fst f \<in> fst ` set m"
  by (induction m) (auto split: if_splits)

lemma header_set_ok: "headers_ok m \<Longrightarrow> headers_ok (header_set k v m)"
proof (induction m)
  case (Cons e m)
  then show ?case by (auto dest!: header_set_keys intro: less_trans)
qed simp

lemma header_erase_keys: "f \<in> set (header_erase k m) \<Longrightarrow> f \<in> set m"
  by (induction m) (auto split: if_splits)

lemma header_erase_ok: "headers_ok m \<Longrightarrow> headers_ok (header_erase k m)"
  by (induction m) (auto dest!: header_erase_keys)

lemma header_set_map: "headers_ok m \<Longrightarrow> header_map (header_set k v m) = (header_map m)(lower k \<mapsto> v)"
proof (induction m)
  case (Cons e m)
  then show ?case using less_irrefl [of "fst e" k] less_irrefl [of k "fst e"] less_total [of "fst e" k]
    by (auto simp: fun_eq_iff)
qed auto

lemma header_erase_map: "headers_ok m \<Longrightarrow> header_map (header_erase k m) = (header_map m)(lower k := None)"
proof (induction m)
  case (Cons e m)
  show ?case
  proof (cases "lower (fst e) = lower k")
    case True
    from Cons.prems have "\<forall>f \<in> set m. HeaderCaseInsensitive k (fst f)"
      using less_cong [OF True refl] by auto
    then have "header_map m (lower k) = None" by (rule header_map_above)
    with True show ?thesis by (auto simp: less_irrefl fun_eq_iff)
  next
    case False
    show ?thesis
    proof (cases "HeaderCaseInsensitive (fst e) k")
      case True
      with Cons False show ?thesis by (auto simp: fun_eq_iff)
    next
      case ge: False
      with False have lt: "HeaderCaseInsensitive k (fst e)" using less_total by blast
      with Cons.prems have "header_map m (lower k) = None" by (intro header_map_above) (auto intro: less_trans)
      with lt ge False show ?thesis by (auto simp: fun_eq_iff)
    qed
  qed
qed auto

text \<open>C15: The header map of a request behaves as a map on lower-case names: what was set under any spelling
  is found under any spelling, other names are not affected, an erased name is not found, and the
  order that the search relies on is kept.\<close>

theorem header_map_refines:
  assumes "headers_ok m"
  shows "header_find k' (header_set k v m) = (if lower k' = lower k then Some v else header_find k' m)
    \<and> header_find k' (header_erase k m) = (if lower k' = lower k then None else header_find k' m)
    \<and> headers_ok (header_set k v m) \<and> headers_ok (header_erase k m)"
  using assms by (simp add: header_find_map header_set_ok header_erase_ok header_set_map header_erase_map)

theorem header_map_refines_witness:
  "headers_ok [(''Accept'', ''a'')]
   \<and> header_find ''ACCEPT'' (header_set ''accept'' ''b'' [(''Accept'', ''a'')]) = Some ''b''"
  using header_map_refines [of "[(''Accept'', ''a'')]" "''ACCEPT''" "''accept''" "''b''"] by (simp add: tolower_def)

lemma StripCRLF_set: "c \<in> set (StripCRLF s) \<Longrightarrow> c \<in> set s \<and> c \<noteq> CHR 0x0D \<and> c \<noteq> CHR 0x0A"
  by (simp add: StripCRLF_def)

lemma headers_distinct: "headers_ok m \<Longrightarrow> distinct (map (\<lambda>e. lower (fst e)) m)"
proof (induction m)
  case (Cons e m)
  then show ?case using less_irrefl [of "fst e"] by auto
qed simp

lemma headers_ok_filter: "headers_ok m \<Longrightarrow> headers_ok (filter P m)"
  by (rule sorted_wrt_filter)

lemma header_map_append: "header_map (m @ m') = header_map m' ++ header_map m"
  by (auto simp: header_map_def map_add_def split: option.splits)

lemma header_map_dom: "header_map m n = None \<longleftrightarrow> n \<notin> (\<lambda>e. lower (fst e)) ` set m"
  by (auto simp: header_map_def map_of_eq_None_iff image_image)

lemma header_map_filter: "headers_ok m \<Longrightarrow> header_map [e \<leftarrow> m. Q (lower (fst e))] n = (if Q n then header_map m n else None)"
  by (induction m) auto

text \<open>C16: Whatever the names and the values of the headers are, no header line contains a line break, so
  no value can add a header of its own.  The lines are those of a list of headers in which no name
  occurs twice in any spelling: the headers of the user, and the defaults that the user has not set.\<close>

theorem header_lines_safe:
  assumes "headers_ok headers" "headers_ok defaults"
  shows "(\<forall>line \<in> set (BuildHeaderSlist headers defaults). CHR 0x0D \<notin> set line \<and> CHR 0x0A \<notin> set line)
    \<and> (\<exists>es. BuildHeaderSlist headers defaults = map header_line es \<and> distinct (map (\<lambda>e. lower (fst e)) es)
         \<and> header_map es = header_map defaults ++ header_map headers)"
proof (rule conjI)
  show "\<forall>line \<in> set (BuildHeaderSlist headers defaults). CHR 0x0D \<notin> set line \<and> CHR 0x0A \<notin> set line"
    by (auto simp: BuildHeaderSlist_def header_line_def c_str_def dest!: set_takeWhileD StripCRLF_set)
  define rest where "rest = [e \<leftarrow> defaults. header_map headers (lower (fst e)) = None]"
  have "headers_ok rest" unfolding rest_def by (rule headers_ok_filter [OF assms(2)])
  moreover have "header_map rest ++ header_map headers = header_map defaults ++ header_map headers"
    using header_map_filter [OF assms(2), of "\<lambda>n. header_map headers n = None"]
    by (auto simp: rest_def map_add_def fun_eq_iff split: option.splits)
  moreover have "(\<lambda>e. lower (fst e)) ` set headers \<inter> (\<lambda>e. lower (fst e)) ` set rest = {}"
    unfolding rest_def header_map_dom by (auto intro: rev_image_eqI)
  moreover have "BuildHeaderSlist headers defaults = map header_line (headers @ rest)"
    by (simp add: BuildHeaderSlist_def rest_def header_find_map [OF assms(1)])
  ultimately show "\<exists>es. BuildHeaderSlist headers defaults = map header_line es \<and> distinct (map (\<lambda>e. lower (fst e)) es)
      \<and> header_map es = header_map defaults ++ header_map headers"
    using headers_distinct [OF assms(1)] headers_distinct [of rest]
    by (intro exI [of _ "headers @ rest"]) (auto simp: header_map_append)
qed

theorem header_lines_safe_witness:
  "let lines = BuildHeaderSlist [(''expect'', [CHR ''x'', CHR 0x0D, CHR 0x0A, CHR ''y''])] [(''Content-Encoding'', ''deflate''), (''Expect'', [])]
   in lines = [''expect: xy'', ''Content-Encoding: deflate''] \<and> (\<forall>line \<in> set lines. CHR 0x0A \<notin> set line)"
  using header_lines_safe [of "[(''expect'', [CHR ''x'', CHR 0x0D, CHR 0x0A, CHR ''y''])]"
    "[(''Content-Encoding'', ''deflate''), (''Expect'', [])]"]
  by (simp add: BuildHeaderSlist_def header_line_def StripCRLF_def c_str_def tolower_def)

end
