(* ===== verification/Http_Request.thy ===== *)
theory Http_Request
  imports Effects Script_Memory Header_Map Locked_Queue MsgPack Json_Text
begin

text \<open>
  HTTP requests (\<^verbatim>\<open>src/http_request.h\<close>, \<^verbatim>\<open>http_request.cpp\<close>), the state that they share with the
  event loop and the extension, and the operations on one request.  Trees of nodes are values here:
  a request owns the trees it holds, because \<^verbatim>\<open>CopyNodeForSend\<close> copies what a script passes.  libcurl
  is seen through the calls that the code makes: which handles exist, which are in the multi handle,
  and the options that were set.
\<close>

section \<open>State\<close>

type_synonym CURL = nat

datatype BodyFormat = NO_BODY | JSON | MSGPACK

text \<open>The curl code -1 stands for a transfer that has not ended, 0 is \<^verbatim>\<open>CURLE_OK\<close>.\<close>

record HttpRequest =
  curl :: CURL
  curlcode :: i32
  req_headers :: HeaderMap
  built_headers :: "string list"
  auto_headers :: HeaderMap
  response_headers :: "(string \<times> string) list"
  response_body :: string
  req_method :: string
  post_body :: string
  compress_body :: bool
  compress_min_size :: nat
  plugin_context :: ctx
  callback_id :: i32
  handle_id :: i32
  userdata :: i32
  client_index :: i32
  in_event_thread :: bool
  handle_closed :: bool
  completed :: bool
  max_retries :: i32
  retry_count :: i32
  retry_delay_ms :: i32
  retry_backoff :: u32
  retry_max_delay_ms :: i32
  in_retry_wait :: bool
  log_retries :: bool
  log_caller :: "(string \<times> i32) option"
  body_node :: "DataNode option"
  body_format :: BodyFormat
  response_node :: "DataNode option"
  parse_mode :: i32

text \<open>The float 2.0 by its bits.\<close>

definition HttpRequest_new :: "CURL \<Rightarrow> ctx \<Rightarrow> HttpRequest" where
  "HttpRequest_new c ctx = \<lparr>curl = c, curlcode = -1, req_headers = [], built_headers = [], auto_headers = [],
     response_headers = [], response_body = [], req_method = [], post_body = [], compress_body = False,
     compress_min_size = 0, plugin_context = ctx, callback_id = 0, handle_id = 0, userdata = 0, client_index = 0,
     in_event_thread = False, handle_closed = False, completed = False, max_retries = 0, retry_count = 0,
     retry_delay_ms = 1000, retry_backoff = 0x40000000, retry_max_delay_ms = 30000, in_retry_wait = False,
     log_retries = False, log_caller = None, body_node = None, body_format = NO_BODY, response_node = None,
     parse_mode = 0\<rparr>"

datatype CurlOption =
    OptUrl string | OptCustomRequest string | OptPost | OptTimeoutMs i32 | OptFollowLocation | OptMaxRedirs
  | OptUserAgent string | OptAcceptEncoding string | OptPostFields string | OptHttpHeader "string list"
  | OptWriteData obj | OptHeaderData obj | OptPrivate obj | OptNoSignal | OptErrorBuffer

text \<open>The state: the objects behind handles, the handle table, the queues between the two threads with
  the wake-up signals that were sent and not yet handled, what the event thread keeps, the counters,
  the pool of curl handles, the index of the clients' requests, the plugins, libcurl, and what went
  out: calls of script functions and writes to script memory.\<close>

record World =
  reqs :: "obj \<Rightarrow> HttpRequest option"
  jsons :: "obj \<Rightarrow> DataNode option"
  handles :: HandleManager
  pending_queue :: "obj LockedQueue"
  cancel_queue :: "obj LockedQueue"
  done_queue :: "obj LockedQueue"
  async_add :: bool
  async_cancel :: bool
  active_http_requests :: "obj set"
  http_curl_handles :: "CURL set"
  retry_timers :: "(obj \<times> i32) list"
  stats_active :: i32
  stats_pending :: i32
  stats_completed :: i32
  stats_retries :: i32
  g_curl_pool :: "CURL list"
  g_curl_outstanding :: nat
  g_client_handles :: "(i32 \<times> i32 list) list"
  g_plugin_contexts :: "ctx set"
  g_log_level :: i32
  multi :: "CURL set"
  info_private :: "CURL \<Rightarrow> obj option"
  response_code :: "CURL \<Rightarrow> i32"
  curl_options :: "CURL \<Rightarrow> CurlOption list"
  cleaned_up :: "CURL list"
  callbacks :: "(ctx \<times> i32 \<times> i32 list) list"
  out :: "local_write list"

definition World_init :: World where
  "World_init = \<lparr>reqs = Map.empty, jsons = Map.empty, handles = HandleManager_init, pending_queue = LockedQueue_init,
     cancel_queue = LockedQueue_init, done_queue = LockedQueue_init, async_add = False, async_cancel = False,
     active_http_requests = {}, http_curl_handles = {}, retry_timers = [], stats_active = 0, stats_pending = 0,
     stats_completed = 0, stats_retries = 0, g_curl_pool = [], g_curl_outstanding = 0, g_client_handles = [],
     g_plugin_contexts = {}, g_log_level = 0, multi = {}, info_private = Map.empty, response_code = (\<lambda>_. 0),
     curl_options = (\<lambda>_. []), cleaned_up = [], callbacks = [], out = []\<rparr>"

type_synonym 'a http = "(World, 'a) act"

text \<open>What comes from elsewhere: the allocators, the name and version of the program, zlib, the tree that
  \<^verbatim>\<open>DataParseJson\<close> builds for a text, the arithmetic of the back-off on doubles (None where the product
  is not an \<^verbatim>\<open>int\<close>), the random numbers, the script line that called, and the scripts: the natives that
  the body of a script function calls.\<close>

record HttpEnv =
  malloc :: "World \<Rightarrow> obj"
  curl_easy_init :: "World \<Rightarrow> CURL option"
  user_agent :: string
  compress2 :: "string \<Rightarrow> string option"
  json_tree :: "string \<Rightarrow> DataNode option"
  mp_env :: msgpack_env
  copy_layouts :: layouts
  scaled_delay :: "i32 \<Rightarrow> u32 \<Rightarrow> i32 \<Rightarrow> i32 option"
  random :: "World \<Rightarrow> i32 \<Rightarrow> i32"
  caller_frame :: "Ctx \<Rightarrow> (string \<times> i32) option"
  get_function :: "ctx \<Rightarrow> i32 \<Rightarrow> bool"
  script_memory :: "ctx \<Rightarrow> World \<Rightarrow> Ctx"
  script_calls :: "ctx \<Rightarrow> i32 \<Rightarrow> i32 list \<Rightarrow> World \<Rightarrow> (string \<times> i32 list) list"

section \<open>Objects\<close>

definition req_at :: "obj \<Rightarrow> HttpRequest http" where
  "req_at p s = (case reqs s p of None \<Rightarrow> Crash Freed | Some r \<Rightarrow> Done (r, s))"

definition req_update :: "obj \<Rightarrow> (HttpRequest \<Rightarrow> HttpRequest) \<Rightarrow> unit http" where
  "req_update p f s = (case reqs s p of
     None \<Rightarrow> Crash Freed
   | Some r \<Rightarrow> Done ((), s\<lparr>reqs := (reqs s)(p \<mapsto> f r)\<rparr>))"

definition setopt :: "CURL \<Rightarrow> CurlOption \<Rightarrow> unit http" where
  "setopt c opt = modify (curl_options_update (\<lambda>f. f(c := f c @ [opt])))"

text \<open>A queue's items are popped one by one, under the lock, and each is processed.\<close>

definition pop_next :: "'a LockedQueue \<Rightarrow> 'a LockedQueue" where
  "pop_next q = (case Pop q of None \<Rightarrow> q | Some (item, rest) \<Rightarrow> rest)"

definition drain_each :: "(World \<Rightarrow> obj LockedQueue) \<Rightarrow> ((obj LockedQueue \<Rightarrow> obj LockedQueue) \<Rightarrow> World \<Rightarrow> World) \<Rightarrow>
    (obj \<Rightarrow> unit http) \<Rightarrow> unit http" where
  "drain_each q update body s = for_each (\<lambda>item. seq (modify (update pop_next)) (\<lambda>_. body item)) (queue (q s)) s"

section \<open>The pool of curl handles\<close>

definition kMinPool :: nat where
  "kMinPool = 16"

definition AcquireCurl :: "HttpEnv \<Rightarrow> CURL option http" where
  "AcquireCurl env = seq (modify (g_curl_outstanding_update Suc)) (\<lambda>_.
     seq (get g_curl_pool) (\<lambda>pool.
     if pool \<noteq> [] then seq (modify (g_curl_pool_update butlast)) (\<lambda>_. ret (Some (last pool)))
     else get (curl_easy_init env)))"

text \<open>\<^verbatim>\<open>curl_easy_reset\<close> forgets the options; \<^verbatim>\<open>curl_easy_cleanup\<close> frees the handle.\<close>

definition curl_easy_reset :: "CURL \<Rightarrow> unit http" where
  "curl_easy_reset c = modify (\<lambda>s. s\<lparr>curl_options := (curl_options s)(c := []), info_private := (info_private s)(c := None)\<rparr>)"

definition curl_easy_cleanup :: "CURL \<Rightarrow> unit http" where
  "curl_easy_cleanup c = modify (cleaned_up_update (\<lambda>cs. cs @ [c]))"

definition ReleaseCurl :: "CURL \<Rightarrow> unit http" where
  "ReleaseCurl c = seq (modify (g_curl_outstanding_update (\<lambda>n. n - 1))) (\<lambda>_.
     seq (curl_easy_reset c) (\<lambda>_.
     seq (get (\<lambda>s. max (g_curl_outstanding s) kMinPool)) (\<lambda>cap.
     seq (get (\<lambda>s. length (g_curl_pool s))) (\<lambda>n.
     if n < cap then modify (g_curl_pool_update (\<lambda>pool. pool @ [c]))
     else curl_easy_cleanup c))))"

definition DrainCurlPool :: "unit http" where
  "DrainCurlPool = seq (get g_curl_pool) (\<lambda>pool.
     seq (for_each curl_easy_cleanup pool) (\<lambda>_. modify (g_curl_pool_update (\<lambda>_. []))))"

section \<open>Handles\<close>

definition HttpRequest_delete :: "obj \<Rightarrow> unit http" where
  "HttpRequest_delete p = seq (req_at p) (\<lambda>r.
     seq (ReleaseCurl (curl r)) (\<lambda>_. modify (reqs_update (\<lambda>f. f(p := None)))))"

definition delete_pointer :: "HandleType \<times> obj \<Rightarrow> unit http" where
  "delete_pointer = (\<lambda>(t, p). case t of
     HANDLE_HTTP_REQUEST \<Rightarrow> HttpRequest_delete p
   | HANDLE_JSON_VALUE \<Rightarrow> modify (jsons_update (\<lambda>f. f(p := None)))
   | _ \<Rightarrow> ret ())"

text \<open>\<^verbatim>\<open>g_handle_manager.FreeHandle(id)\<close> with the destructor it runs, and \<^verbatim>\<open>CreateHandle\<close>.\<close>

definition drop_handle :: "i32 \<Rightarrow> unit http" where
  "drop_handle i = seq (get handles) (\<lambda>m.
     seq (modify (handles_update (FreeHandle i))) (\<lambda>_.
     for_each delete_pointer (drop (length (deleted m)) (deleted (FreeHandle i m)))))"

definition make_handle :: "obj \<Rightarrow> HandleType \<Rightarrow> ctx \<Rightarrow> i32 http" where
  "make_handle p t own s = (case CreateHandle p t (Some own) (handles s) of
     None \<Rightarrow> Crash Hangs
   | Some (i, m) \<Rightarrow> Done (i, s\<lparr>handles := m\<rparr>))"

section \<open>Operations of a request\<close>

definition SetBody :: "string \<Rightarrow> HttpRequest \<Rightarrow> HttpRequest" where
  "SetBody bytes r =
     (let r = (if body_node r \<noteq> None then r\<lparr>body_node := None, body_format := NO_BODY\<rparr> else r)
      in r\<lparr>post_body := bytes\<rparr>)"

definition SetBodyNode :: "DataNode \<Rightarrow> BodyFormat \<Rightarrow> HttpRequest \<Rightarrow> HttpRequest" where
  "SetBodyNode n fmt r = r\<lparr>post_body := [], body_node := Some n, body_format := fmt\<rparr>"

text \<open>\<^verbatim>\<open>SetupCurl\<close>: serialize, compress, hand the body to curl, build the headers.\<close>

definition serialized :: "HttpRequest \<Rightarrow> HttpRequest" where
  "serialized r = (case body_node r of
     None \<Rightarrow> r
   | Some n \<Rightarrow> (case body_format r of
         NO_BODY \<Rightarrow> r
       | JSON \<Rightarrow> r\<lparr>post_body := DataSerializeJson n False\<rparr>
       | MSGPACK \<Rightarrow> r\<lparr>post_body := map char_of_byte (MsgPackSerialize n)\<rparr>)\<lparr>body_node := None\<rparr>)"

definition compressed :: "HttpEnv \<Rightarrow> HttpRequest \<Rightarrow> HttpRequest" where
  "compressed env r =
     (if post_body r \<noteq> [] \<and> compress_body r \<and> compress_min_size r \<le> length (post_body r)
      then (case compress2 env (post_body r) of
          None \<Rightarrow> r
        | Some z \<Rightarrow> r\<lparr>post_body := z, auto_headers := header_set ''Content-Encoding'' ''deflate'' (auto_headers r)\<rparr>)
      else r)"

definition SetupCurl :: "HttpEnv \<Rightarrow> obj \<Rightarrow> unit http" where
  "SetupCurl env p = seq (req_update p (\<lambda>r. compressed env (serialized r))) (\<lambda>_.
     seq (req_at p) (\<lambda>r.
     seq (if post_body r \<noteq> []
          then seq (setopt (curl r) (OptPostFields (post_body r))) (\<lambda>_.
               req_update p (\<lambda>r. r\<lparr>auto_headers := header_set ''Expect'' [] (auto_headers r)\<rparr>))
          else ret ()) (\<lambda>_.
     req_update p (\<lambda>r. r\<lparr>built_headers := BuildHeaderSlist (req_headers r) (auto_headers r)\<rparr>))))"

definition OnCompleted :: "HttpRequest \<Rightarrow> HttpRequest" where
  "OnCompleted r = (if in_retry_wait r then r else r\<lparr>post_body := []\<rparr>)"

definition ShouldRetry :: "i32 \<Rightarrow> HttpRequest \<Rightarrow> bool" where
  "ShouldRetry httpcode r =
     (if max_retries r = 0 \<or> 0 < sint (max_retries r) \<and> sint (max_retries r) \<le> sint (retry_count r) then False
      else if handle_closed r then False
      else if curlcode r \<noteq> 0 then True
      else if httpcode = 429 then True
      else 500 \<le> sint httpcode \<and> sint httpcode < 600)"

definition PrepareForRetry :: "HttpRequest \<Rightarrow> HttpRequest" where
  "PrepareForRetry r = r\<lparr>retry_count := retry_count r + 1, response_body := [], response_headers := [],
     curlcode := -1, completed := False, in_retry_wait := True, response_node := None\<rparr>"

text \<open>The parsers, by \<^verbatim>\<open>parse_mode\<close>.\<close>

definition parse_body :: "HttpEnv \<Rightarrow> i32 \<Rightarrow> string \<Rightarrow> DataNode option http" where
  "parse_body env mode body =
     (if mode = 1 then ret (json_tree env body)
      else if mode = 2 then (case MsgPackParse (mp_env env) (map byte_of body) of
          Value n \<Rightarrow> ret (Some n)
        | NullPtr \<Rightarrow> ret None
        | Fault \<Rightarrow> crash WildPointer)
      else ret None)"

section \<open>Requests of a client\<close>

definition TrackClientHandle :: "i32 \<Rightarrow> i32 \<Rightarrow> unit http" where
  "TrackClientHandle client handle =
     (if sint client \<le> 0 then ret ()
      else modify (g_client_handles_update (\<lambda>m.
        AList.update client ((case map_of m client of None \<Rightarrow> [] | Some ids \<Rightarrow> ids) @ [handle]) m)))"

definition UntrackClientHandle :: "i32 \<Rightarrow> i32 \<Rightarrow> unit http" where
  "UntrackClientHandle client handle =
     (if sint client \<le> 0 then ret ()
      else modify (g_client_handles_update (\<lambda>m. case map_of m client of
          None \<Rightarrow> m
        | Some ids \<Rightarrow>
            let ids = removeAll handle ids
            in if ids = [] then AList.delete client m else AList.update client ids m)))"

end
