(* ===== verification/Http_Loop.thy ===== *)
theory Http_Loop
  imports Http_Request
begin

text \<open>
  The HTTP part of the event loop (\<^verbatim>\<open>src/event_loop.cpp\<close>): the game thread hands requests over through
  \<^verbatim>\<open>pending_queue\<close> and \<^verbatim>\<open>cancel_queue\<close>; the event thread gives them to curl, retries them, and hands
  them back through \<^verbatim>\<open>done_queue\<close>.  Each callback of the event thread is one definition and one atomic
  step; the two threads share the queues, which are locked, and atomic flags.
\<close>

section \<open>Calls from the game thread\<close>

definition EnqueueRequest :: "obj \<Rightarrow> unit http" where
  "EnqueueRequest p = seq (req_update p (in_event_thread_update (\<lambda>_. True))) (\<lambda>_.
     seq (modify (stats_pending_update (\<lambda>n. n + 1))) (\<lambda>_.
     seq (modify (pending_queue_update (Push p))) (\<lambda>_.
     modify (async_add_update (\<lambda>_. True)))))"

definition CancelRequest :: "obj \<Rightarrow> unit http" where
  "CancelRequest p = seq (modify (cancel_queue_update (Push p))) (\<lambda>_.
     modify (async_cancel_update (\<lambda>_. True)))"

definition DrainCompleted :: "obj list http" where
  "DrainCompleted = seq (get (\<lambda>s. queue (done_queue s))) (\<lambda>ps.
     seq (drain_each done_queue done_queue_update (\<lambda>p. ret ())) (\<lambda>_. ret ps))"

definition SignalPending :: "unit http" where
  "SignalPending = seq (get (\<lambda>s. HasItems (pending_queue s))) (\<lambda>b.
     if b then modify (async_add_update (\<lambda>_. True)) else ret ())"

section \<open>What arrives from curl\<close>

definition OnReceiveData :: "obj \<Rightarrow> string \<Rightarrow> unit http" where
  "OnReceiveData p contents = req_update p (\<lambda>r. r\<lparr>response_body := response_body r @ contents\<rparr>)"

definition trim :: "string \<Rightarrow> string" where
  "trim v = rev (dropWhile (\<lambda>c. c \<in> {CHR 0x0D, CHR 0x0A, CHR '' '', CHR 0x09})
     (rev (dropWhile (\<lambda>c. c \<in> {CHR '' '', CHR 0x09}) v)))"

definition OnReceiveHeaders :: "obj \<Rightarrow> string \<Rightarrow> unit http" where
  "OnReceiveHeaders p buffer =
     (if CHR '':'' \<notin> set buffer then ret ()
      else
        let name = map tolower (takeWhile (\<lambda>c. c \<noteq> CHR '':'') buffer);
            v = trim (tl (dropWhile (\<lambda>c. c \<noteq> CHR '':'') buffer))
        in req_update p (\<lambda>r. r\<lparr>response_headers := AList.update name v (response_headers r)\<rparr>))"

section \<open>The event thread\<close>

text \<open>The end of a request on the event thread, as it stands in four places.\<close>

definition finish :: "obj \<Rightarrow> unit http" where
  "finish p = seq (req_update p OnCompleted) (\<lambda>_.
     seq (modify (stats_completed_update (\<lambda>n. n + 1))) (\<lambda>_.
     seq (modify (active_http_requests_update (\<lambda>a. a - {p}))) (\<lambda>_.
     modify (done_queue_update (Push p)))))"

definition ProcessCurlJob :: "obj \<Rightarrow> unit http" where
  "ProcessCurlJob p = seq (req_at p) (\<lambda>r.
     seq (setopt (curl r) (OptWriteData p)) (\<lambda>_.
     seq (setopt (curl r) (OptHeaderData p)) (\<lambda>_.
     seq (setopt (curl r) (OptPrivate p)) (\<lambda>_.
     seq (modify (info_private_update (\<lambda>f. f(curl r \<mapsto> p)))) (\<lambda>_.
     seq (setopt (curl r) OptNoSignal) (\<lambda>_.
     seq (setopt (curl r) OptErrorBuffer) (\<lambda>_.
     seq (if built_headers r \<noteq> [] then setopt (curl r) (OptHttpHeader (built_headers r)) else ret ()) (\<lambda>_.
     seq (modify (stats_active_update (\<lambda>n. n + 1))) (\<lambda>_.
     seq (modify (http_curl_handles_update (insert (curl r)))) (\<lambda>_.
     modify (multi_update (insert (curl r)))))))))))))"

definition add_request :: "HttpEnv \<Rightarrow> obj \<Rightarrow> unit http" where
  "add_request env p =
     seq (modify (stats_pending_update (\<lambda>n. n - 1))) (\<lambda>_.
     seq (modify (active_http_requests_update (insert p))) (\<lambda>_.
     seq (req_at p) (\<lambda>r.
     if handle_closed r
     then seq (req_update p (\<lambda>r. r\<lparr>completed := True, body_node := None\<rparr>)) (\<lambda>_. finish p)
     else seq (SetupCurl env p) (\<lambda>_. ProcessCurlJob p))))"

definition OnAsyncAdd :: "HttpEnv \<Rightarrow> unit http" where
  "OnAsyncAdd env = seq (modify (async_add_update (\<lambda>_. False))) (\<lambda>_.
     drain_each pending_queue pending_queue_update (add_request env))"

text \<open>The timer of a request, found by its data.\<close>

definition stop_timer :: "obj \<Rightarrow> (obj \<times> i32) list \<Rightarrow> (obj \<times> i32) list" where
  "stop_timer p ts = (case List.extract (\<lambda>t. fst t = p) ts of None \<Rightarrow> ts | Some (xs, t, ys) \<Rightarrow> xs @ ys)"

definition cancel_request :: "obj \<Rightarrow> unit http" where
  "cancel_request p = seq (get (\<lambda>s. p \<in> active_http_requests s)) (\<lambda>known.
     if \<not> known then ret ()
     else seq (req_at p) (\<lambda>r.
       seq (if in_retry_wait r then modify (retry_timers_update (stop_timer p))
            else seq (modify (http_curl_handles_update (\<lambda>h. h - {curl r}))) (\<lambda>_.
              seq (modify (multi_update (\<lambda>h. h - {curl r}))) (\<lambda>_.
              modify (stats_active_update (\<lambda>n. n - 1))))) (\<lambda>_.
       seq (req_update p (\<lambda>r. r\<lparr>completed := True, in_retry_wait := False\<rparr>)) (\<lambda>_. finish p))))"

definition OnAsyncCancel :: "unit http" where
  "OnAsyncCancel = seq (modify (async_cancel_update (\<lambda>_. False))) (\<lambda>_.
     drain_each cancel_queue cancel_queue_update cancel_request)"

text \<open>The delay before the next try: exponential back-off, capped, with full jitter.\<close>

definition retry_delay :: "HttpEnv \<Rightarrow> HttpRequest \<Rightarrow> i32 http" where
  "retry_delay env r = (case scaled_delay env (retry_delay_ms r) (retry_backoff r) (retry_count r - 1) of
     None \<Rightarrow> crash BadCast
   | Some delay \<Rightarrow>
       let delay = (if sint (retry_max_delay_ms r) < sint delay then retry_max_delay_ms r else delay);
           delay = (if sint delay < 0 then retry_max_delay_ms r else delay)
       in if sint delay < 0 then crash BadRange else get (\<lambda>s. random env s delay))"

definition schedule_retry :: "HttpEnv \<Rightarrow> obj \<Rightarrow> unit http" where
  "schedule_retry env p = seq (req_update p PrepareForRetry) (\<lambda>_.
     seq (modify (stats_retries_update (\<lambda>n. n + 1))) (\<lambda>_.
     seq (req_at p) (\<lambda>r.
     seq (retry_delay env r) (\<lambda>delay.
     modify (retry_timers_update (\<lambda>ts. ts @ [(p, delay)]))))))"

text \<open>The response is parsed on the event thread when the script asked for it.\<close>

definition parse_response :: "HttpEnv \<Rightarrow> obj \<Rightarrow> unit http" where
  "parse_response env p = seq (req_at p) (\<lambda>r.
     if 0 < sint (parse_mode r) \<and> curlcode r = 0 \<and> response_body r \<noteq> []
     then seq (parse_body env (parse_mode r) (response_body r)) (\<lambda>n.
       req_update p (\<lambda>r. r\<lparr>response_node := n, response_body := (if n = None then response_body r else [])\<rparr>))
     else ret ())"

definition complete_job :: "HttpEnv \<Rightarrow> CURL \<times> i32 \<Rightarrow> unit http" where
  "complete_job env = (\<lambda>(easy, result).
     seq (modify (http_curl_handles_update (\<lambda>h. h - {easy}))) (\<lambda>_.
     seq (modify (multi_update (\<lambda>h. h - {easy}))) (\<lambda>_.
     seq (get (\<lambda>s. info_private s easy)) (\<lambda>request. case request of
       None \<Rightarrow> crash NullDeref
     | Some p \<Rightarrow>
         seq (req_update p (curlcode_update (\<lambda>_. result))) (\<lambda>_.
         seq (modify (stats_active_update (\<lambda>n. n - 1))) (\<lambda>_.
         seq (req_at p) (\<lambda>r.
         seq (get (\<lambda>s. response_code s (curl r))) (\<lambda>httpcode.
         if ShouldRetry httpcode r then schedule_retry env p
         else seq (parse_response env p) (\<lambda>_.
           seq (req_update p (completed_update (\<lambda>_. True))) (\<lambda>_. finish p))))))))))"

text \<open>\<^verbatim>\<open>CheckCompletedJobs\<close> for the messages that \<^verbatim>\<open>curl_multi_info_read\<close> gives, those of HTTP requests.\<close>

definition CheckCompletedJobs :: "HttpEnv \<Rightarrow> (CURL \<times> i32) list \<Rightarrow> unit http" where
  "CheckCompletedJobs env messages = for_each (complete_job env) messages"

definition OnRetryTimer :: "obj \<times> i32 \<Rightarrow> unit http" where
  "OnRetryTimer timer = seq (modify (retry_timers_update (remove1 timer))) (\<lambda>_.
     seq (req_at (fst timer)) (\<lambda>r.
     if completed r then ret ()
     else seq (req_update (fst timer) (in_retry_wait_update (\<lambda>_. False))) (\<lambda>_.
       if handle_closed r
       then seq (req_update (fst timer) (completed_update (\<lambda>_. True))) (\<lambda>_. finish (fst timer))
       else seq (req_update (fst timer) (\<lambda>r. r\<lparr>built_headers := BuildHeaderSlist (req_headers r) (auto_headers r)\<rparr>)) (\<lambda>_.
         seq (req_at (fst timer)) (\<lambda>r.
         seq (if built_headers r \<noteq> [] then setopt (curl r) (OptHttpHeader (built_headers r)) else ret ()) (\<lambda>_.
         seq (modify (stats_active_update (\<lambda>n. n + 1))) (\<lambda>_.
         seq (modify (http_curl_handles_update (insert (curl r)))) (\<lambda>_.
         modify (multi_update (insert (curl r)))))))))))"

end
