(* ===== verification/Http_Natives.thy ===== *)
theory Http_Natives
  imports Http_Loop
begin

text \<open>
  The natives of \<^verbatim>\<open>src/natives_http.cpp\<close> and \<^verbatim>\<open>SetBodyMsgPack\<close> of \<^verbatim>\<open>src/natives_msgpack.cpp\<close>, one
  definition each, with the table that registers them, and the callbacks of the game thread in
  \<^verbatim>\<open>src/http_request.cpp\<close> and \<^verbatim>\<open>src/extension.cpp\<close>: the completion of a request, the game frame, and a
  client that disconnects.  A callback runs script code, which calls natives.
\<close>

section \<open>Arguments\<close>

type_synonym http_native = "HttpEnv \<Rightarrow> Ctx \<Rightarrow> i32 list \<Rightarrow> i32 http"

definition string_arg :: "Ctx \<Rightarrow> i32 \<Rightarrow> string http" where
  "string_arg ctx a = (case LocalToString ctx a of None \<Rightarrow> crash WildPointer | Some s \<Rightarrow> ret (c_str s))"

definition write_out :: "local_write \<Rightarrow> unit http" where
  "write_out w = modify (out_update (\<lambda>ws. ws @ [w]))"

text \<open>\<^verbatim>\<open>GET_HTTP_REQUEST()\<close>\<close>

definition with_request :: "i32 list \<Rightarrow> (obj \<Rightarrow> i32 http) \<Rightarrow> i32 http" where
  "with_request params f = seq (get (\<lambda>s. GetHttpRequest (params ! 1) (handles s))) (\<lambda>request. case request of
     None \<Rightarrow> ret 2
   | Some p \<Rightarrow> seq (req_at p) (\<lambda>r. if in_event_thread r then ret 2 else f p))"

definition configure :: "i32 list \<Rightarrow> (HttpRequest \<Rightarrow> HttpRequest) \<Rightarrow> i32 http" where
  "configure params f = with_request params (\<lambda>p. seq (req_update p f) (\<lambda>_. ret 0))"

section \<open>Natives\<close>

definition g_default_timeout :: i32 where
  "g_default_timeout = 10000"

definition Native_HttpNew :: http_native where
  "Native_HttpNew env ctx params = seq (AcquireCurl env) (\<lambda>handle. case handle of
     None \<Rightarrow> ret 0
   | Some c \<Rightarrow>
       seq (get (malloc env)) (\<lambda>p.
       seq (modify (reqs_update (\<lambda>f. f(p \<mapsto> HttpRequest_new c (plugin ctx))))) (\<lambda>_.
       seq (make_handle p HANDLE_HTTP_REQUEST (plugin ctx)) (\<lambda>handle.
       if handle = 0 then seq (HttpRequest_delete p) (\<lambda>_. ret 0)
       else
         seq (req_update p (\<lambda>r. r\<lparr>handle_id := handle, userdata := params ! 1\<rparr>)) (\<lambda>_.
         seq (setopt c (OptTimeoutMs g_default_timeout)) (\<lambda>_.
         seq (setopt c OptFollowLocation) (\<lambda>_.
         seq (setopt c OptMaxRedirs) (\<lambda>_.
         seq (setopt c (OptUserAgent (user_agent env))) (\<lambda>_.
         seq (setopt c (OptAcceptEncoding [])) (\<lambda>_. ret handle))))))))))"

text \<open>Closing a request that the event thread has only marks it and asks for its cancellation.\<close>

definition close_request :: "i32 \<Rightarrow> obj \<Rightarrow> unit http" where
  "close_request i p = seq (req_at p) (\<lambda>r.
     if in_event_thread r
     then seq (req_update p (handle_closed_update (\<lambda>_. True))) (\<lambda>_.
       seq (modify (handles_update (MarkHandleClosed i))) (\<lambda>_. CancelRequest p))
     else drop_handle i)"

definition Native_HttpClose :: http_native where
  "Native_HttpClose env ctx params = seq (get (\<lambda>s. GetHttpRequest (params ! 1) (handles s))) (\<lambda>request. case request of
     None \<Rightarrow> ret 2
   | Some p \<Rightarrow> seq (req_at p) (\<lambda>r.
       seq (UntrackClientHandle (client_index r) (handle_id r)) (\<lambda>_.
       seq (close_request (params ! 1) p) (\<lambda>_. ret 0))))"

definition Native_HttpExecute :: http_native where
  "Native_HttpExecute env ctx params = with_request params (\<lambda>p.
     seq (string_arg ctx (params ! 2)) (\<lambda>meth.
     seq (string_arg ctx (params ! 3)) (\<lambda>url.
     seq (req_update p (\<lambda>r. r\<lparr>req_method := map toupper meth\<rparr>)) (\<lambda>_.
     seq (req_at p) (\<lambda>r.
     seq (setopt (curl r) (OptUrl url)) (\<lambda>_.
     seq (setopt (curl r) (OptCustomRequest (req_method r))) (\<lambda>_.
     seq (if post_body r \<noteq> [] \<or> body_node r \<noteq> None then setopt (curl r) OptPost else ret ()) (\<lambda>_.
     seq (req_update p (callback_id_update (\<lambda>_. params ! 4))) (\<lambda>_.
     seq (EnqueueRequest p) (\<lambda>_. ret 0))))))))))"

text \<open>The length is converted to \<^verbatim>\<open>size_t\<close>: a negative one makes \<^verbatim>\<open>assign\<close> throw, one that is too large
  reads behind the plugin's memory.\<close>

definition Native_SetBody :: http_native where
  "Native_SetBody env ctx params = with_request params (\<lambda>p. case LocalToString ctx (params ! 2) of
     None \<Rightarrow> crash WildPointer
   | Some memory \<Rightarrow>
       if sint (params ! 3) < 0 then crash BadLength
       else if length memory < unat (params ! 3) then crash WildPointer
       else seq (req_update p (SetBody (take (unat (params ! 3)) memory))) (\<lambda>_. ret 0))"

definition Native_SetBodyString :: http_native where
  "Native_SetBodyString env ctx params = with_request params (\<lambda>p.
     seq (string_arg ctx (params ! 2)) (\<lambda>str.
     seq (req_update p (SetBody str)) (\<lambda>_. ret 0)))"

text \<open>The two natives that take a tree differ in the format and the content type.\<close>

definition set_body_node :: "HttpEnv \<Rightarrow> BodyFormat \<Rightarrow> string \<Rightarrow> i32 list \<Rightarrow> i32 http" where
  "set_body_node env fmt content_type params = seq (get (\<lambda>s. GetHttpRequest (params ! 1) (handles s))) (\<lambda>request.
     let reject = seq (drop_handle (params ! 2)) (\<lambda>_. ret 2) in
     case request of
       None \<Rightarrow> reject
     | Some p \<Rightarrow> seq (req_at p) (\<lambda>r.
         if in_event_thread r then reject
         else seq (get (\<lambda>s. GetDataHandle (params ! 2) (handles s))) (\<lambda>json. case json of
           None \<Rightarrow> ret 2
         | Some j \<Rightarrow> seq (get (\<lambda>s. jsons s j)) (\<lambda>tree. case tree of
             None \<Rightarrow> crash Freed
           | Some n \<Rightarrow>
               seq (req_update p (SetBodyNode (DeepCopy (copy_layouts env) n) fmt)) (\<lambda>_.
               seq (req_update p (\<lambda>r. r\<lparr>req_headers := header_set ''Content-Type'' content_type (req_headers r)\<rparr>)) (\<lambda>_.
               seq (drop_handle (params ! 2)) (\<lambda>_. ret 0)))))))"

definition Native_SetBodyJSON :: http_native where
  "Native_SetBodyJSON env ctx params = set_body_node env JSON ''application/json'' params"

definition Native_SetBodyMsgPack :: http_native where
  "Native_SetBodyMsgPack env ctx params = set_body_node env MSGPACK ''application/msgpack'' params"

definition Native_SetCompression :: http_native where
  "Native_SetCompression env ctx params = configure params (\<lambda>r. r\<lparr>compress_body := (params ! 2 \<noteq> 0),
     compress_min_size := (if 3 \<le> sint (params ! 0) \<and> 0 < sint (params ! 3) then unat (params ! 3) else 0)\<rparr>)"

definition Native_SetHeader :: http_native where
  "Native_SetHeader env ctx params = with_request params (\<lambda>p.
     seq (string_arg ctx (params ! 2)) (\<lambda>key.
     seq (string_arg ctx (params ! 3)) (\<lambda>val.
     seq (req_update p (\<lambda>r. r\<lparr>req_headers := header_set key val (req_headers r)\<rparr>)) (\<lambda>_. ret 0))))"

definition Native_RemoveHeader :: http_native where
  "Native_RemoveHeader env ctx params = with_request params (\<lambda>p.
     seq (string_arg ctx (params ! 2)) (\<lambda>key.
     seq (req_update p (\<lambda>r. r\<lparr>req_headers := header_erase key (req_headers r)\<rparr>)) (\<lambda>_. ret 0)))"

definition Native_ClearHeaders :: http_native where
  "Native_ClearHeaders env ctx params = configure params (\<lambda>r. r\<lparr>req_headers := []\<rparr>)"

text \<open>The pointer from \<^verbatim>\<open>LocalToString\<close> is used only when there is room.\<close>

definition Native_GetString :: http_native where
  "Native_GetString env ctx params = with_request params (\<lambda>p.
     if sint (params ! 3) \<le> 0 then ret 0
     else seq (string_arg ctx (params ! 2)) (\<lambda>_.
       seq (req_at p) (\<lambda>r.
       seq (write_out (WBytes (params ! 2) (map byte_of (take (unat (params ! 3) - 1) (response_body r)) @ [0]))) (\<lambda>_.
       ret 0))))"

definition Native_GetRawData :: http_native where
  "Native_GetRawData env ctx params = with_request params (\<lambda>p.
     if sint (params ! 3) \<le> 0 then ret 0
     else seq (string_arg ctx (params ! 2)) (\<lambda>_.
       seq (req_at p) (\<lambda>r.
       let copy = take (unat (params ! 3)) (response_body r) in
       seq (write_out (WBytes (params ! 2) (map byte_of copy))) (\<lambda>_. ret (cell_of_size (length copy))))))"

definition Native_GetResponseLength :: http_native where
  "Native_GetResponseLength env ctx params = with_request params (\<lambda>p.
     seq (req_at p) (\<lambda>r. ret (cell_of_size (length (response_body r)))))"

definition FindResponseHeader :: "Ctx \<Rightarrow> obj \<Rightarrow> i32 \<Rightarrow> string option http" where
  "FindResponseHeader ctx p param = seq (string_arg ctx param) (\<lambda>name.
     seq (req_at p) (\<lambda>r. ret (map_of (response_headers r) (map tolower name))))"

definition Native_GetResponseHeader :: http_native where
  "Native_GetResponseHeader env ctx params = with_request params (\<lambda>p.
     seq (FindResponseHeader ctx p (params ! 2)) (\<lambda>val. case val of
       None \<Rightarrow> ret (- 1)
     | Some v \<Rightarrow> seq (write_out (WString (params ! 3) (params ! 4) (c_str v))) (\<lambda>_. ret (cell_of_size (length v)))))"

definition Native_GetResponseHeaderLength :: http_native where
  "Native_GetResponseHeaderLength env ctx params = with_request params (\<lambda>p.
     seq (FindResponseHeader ctx p (params ! 2)) (\<lambda>val. case val of
       None \<Rightarrow> ret (- 1)
     | Some v \<Rightarrow> ret (cell_of_size (length v))))"

definition Native_SetRetry :: http_native where
  "Native_SetRetry env ctx params = configure params (\<lambda>r.
     let r = r\<lparr>max_retries := params ! 2\<rparr>;
         r = (if 3 \<le> sint (params ! 0) then r\<lparr>retry_delay_ms := params ! 3\<rparr> else r);
         r = (if 4 \<le> sint (params ! 0) then r\<lparr>retry_backoff := params ! 4\<rparr> else r);
         r = (if 5 \<le> sint (params ! 0) then r\<lparr>retry_max_delay_ms := params ! 5\<rparr> else r)
     in if 6 \<le> sint (params ! 0) \<and> params ! 6 \<noteq> 0
        then r\<lparr>log_retries := True, log_caller := caller_frame env ctx\<rparr>
        else r)"

definition Native_GetRetryCount :: http_native where
  "Native_GetRetryCount env ctx params = seq (get (\<lambda>s. GetHttpRequest (params ! 1) (handles s))) (\<lambda>request. case request of
     None \<Rightarrow> ret (- 1)
   | Some p \<Rightarrow> seq (req_at p) (\<lambda>r. ret (retry_count r)))"

definition Native_GetHttpPoolStats :: http_native where
  "Native_GetHttpPoolStats env ctx params =
     (if \<exists>i \<in> set [1, 2, 3, 4]. LocalToPhysAddr ctx (params ! i) = None then ret 0
      else seq (get (\<lambda>s. [stats_active s, stats_pending s, stats_completed s, stats_retries s])) (\<lambda>vals.
        seq (for_each (\<lambda>(i, v). write_out (WCell (params ! i) v)) (zip [1, 2, 3, 4] vals)) (\<lambda>_. ret 0)))"

definition Native_SetLogLevel :: http_native where
  "Native_SetLogLevel env ctx params = seq (modify (g_log_level_update (\<lambda>_. params ! 1))) (\<lambda>_. ret 0)"

definition Native_SetOwner :: http_native where
  "Native_SetOwner env ctx params = with_request params (\<lambda>p.
     seq (req_at p) (\<lambda>r.
     if params ! 2 \<noteq> client_index r
     then seq (UntrackClientHandle (client_index r) (handle_id r)) (\<lambda>_.
       seq (req_update p (client_index_update (\<lambda>_. params ! 2))) (\<lambda>_.
       seq (TrackClientHandle (params ! 2) (handle_id r)) (\<lambda>_. ret 0)))
     else ret 0))"

definition Native_SetResponseType :: http_native where
  "Native_SetResponseType env ctx params = with_request params (\<lambda>p.
     if sint (params ! 2) < 0 \<or> 2 < sint (params ! 2) then ret 1
     else seq (req_update p (parse_mode_update (\<lambda>_. params ! 2))) (\<lambda>_. ret 0))"

definition g_HttpNatives :: "(string \<times> http_native) list" where
  "g_HttpNatives = [
     (''async2_HttpNew'', Native_HttpNew),
     (''async2_HttpClose'', Native_HttpClose),
     (''async2_HttpExecute'', Native_HttpExecute),
     (''async2_SetBody'', Native_SetBody),
     (''async2_SetBodyString'', Native_SetBodyString),
     (''async2_SetBodyJSON'', Native_SetBodyJSON),
     (''async2_SetCompression'', Native_SetCompression),
     (''async2_SetHeader'', Native_SetHeader),
     (''async2_RemoveHeader'', Native_RemoveHeader),
     (''async2_ClearHeaders'', Native_ClearHeaders),
     (''async2_GetString'', Native_GetString),
     (''async2_GetRawData'', Native_GetRawData),
     (''async2_GetResponseLength'', Native_GetResponseLength),
     (''async2_GetResponseHeader'', Native_GetResponseHeader),
     (''async2_GetResponseHeaderLength'', Native_GetResponseHeaderLength),
     (''async2_SetRetry'', Native_SetRetry),
     (''async2_GetRetryCount'', Native_GetRetryCount),
     (''async2_GetHttpPoolStats'', Native_GetHttpPoolStats),
     (''async2_SetLogLevel'', Native_SetLogLevel),
     (''async2_SetOwner'', Native_SetOwner),
     (''async2_SetResponseType'', Native_SetResponseType)]"

text \<open>The natives of the table and \<^verbatim>\<open>SetBodyMsgPack\<close>, which is registered with the MessagePack natives.\<close>

definition http_natives :: "(string \<times> http_native) list" where
  "http_natives = g_HttpNatives @ [(''async2_SetBodyMsgPack'', Native_SetBodyMsgPack)]"

section \<open>Callbacks on the game thread\<close>

text \<open>\<^verbatim>\<open>func->Execute(nullptr)\<close>: the call is recorded, and the body of the function calls natives.\<close>

definition run_script :: "HttpEnv \<Rightarrow> ctx \<Rightarrow> i32 \<Rightarrow> i32 list \<Rightarrow> unit http" where
  "run_script env c f args = seq (get (script_calls env c f args)) (\<lambda>calls.
     for_each (\<lambda>(name, params). case map_of http_natives name of
         None \<Rightarrow> ret ()
       | Some native \<Rightarrow> seq (get (script_memory env c)) (\<lambda>ctx. seq (native env ctx params) (\<lambda>_. ret ()))) calls)"

definition execute :: "HttpEnv \<Rightarrow> ctx \<Rightarrow> i32 \<Rightarrow> i32 list \<Rightarrow> unit http" where
  "execute env c f args = seq (modify (callbacks_update (\<lambda>cs. cs @ [(c, f, args)]))) (\<lambda>_. run_script env c f args)"

definition GetSourcepawnFunction :: "HttpEnv \<Rightarrow> ctx \<Rightarrow> i32 \<Rightarrow> World \<Rightarrow> bool" where
  "GetSourcepawnFunction env c f s \<longleftrightarrow> c \<in> g_plugin_contexts s \<and> get_function env c f"

text \<open>\<^verbatim>\<open>new DataHandle(node)\<close> with a handle for it.\<close>

definition json_handle :: "HttpEnv \<Rightarrow> ctx \<Rightarrow> DataNode option \<Rightarrow> i32 http" where
  "json_handle env c tree = (case tree of
     None \<Rightarrow> ret 0
   | Some n \<Rightarrow>
       seq (get (malloc env)) (\<lambda>p.
       seq (modify (jsons_update (\<lambda>f. f(p \<mapsto> n)))) (\<lambda>_.
       seq (make_handle p HANDLE_JSON_VALUE c) (\<lambda>handle.
       if handle = 0 then seq (modify (jsons_update (\<lambda>f. f(p := None)))) (\<lambda>_. ret 0) else ret handle))))"

text \<open>The tree for the callback: the one the event thread parsed, or a second attempt.\<close>

definition take_response :: "HttpEnv \<Rightarrow> obj \<Rightarrow> DataNode option http" where
  "take_response env p = seq (req_at p) (\<lambda>r.
     if handle_closed r then ret None
     else seq (req_update p (response_node_update (\<lambda>_. None))) (\<lambda>_.
       if response_node r = None \<and> curlcode r = 0 \<and> response_body r \<noteq> []
       then parse_body env (parse_mode r) (response_body r)
       else ret (response_node r)))"

definition release_request :: "HttpRequest \<Rightarrow> unit http" where
  "release_request r = seq (UntrackClientHandle (client_index r) (handle_id r)) (\<lambda>_. drop_handle (handle_id r))"

definition OnCompletedGameThread :: "HttpEnv \<Rightarrow> obj \<Rightarrow> unit http" where
  "OnCompletedGameThread env p = seq (req_update p (in_event_thread_update (\<lambda>_. False))) (\<lambda>_.
     seq (req_at p) (\<lambda>r.
     seq (get (GetSourcepawnFunction env (plugin_context r) (callback_id r))) (\<lambda>func.
     if \<not> func then release_request r
     else
       seq (if handle_closed r then req_update p (curlcode_update (\<lambda>_. 42)) else ret ()) (\<lambda>_.
       seq (req_at p) (\<lambda>r.
       seq (get (\<lambda>s. if \<not> handle_closed r \<and> curlcode r = 0 then response_code s (curl r) else 0)) (\<lambda>httpresult.
       let size = (if \<not> handle_closed r \<and> curlcode r = 0 then cell_of_size (length (response_body r)) else 0) in
       seq (if 0 < sint (parse_mode r)
            then seq (take_response env p) (json_handle env (plugin_context r))
            else ret size) (\<lambda>fourth.
       seq (execute env (plugin_context r) (callback_id r)
              [handle_id r, curlcode r, httpresult, fourth, userdata r]) (\<lambda>_.
       seq (req_at p) release_request)))))))) "

definition OnGameFrame :: "HttpEnv \<Rightarrow> unit http" where
  "OnGameFrame env = seq SignalPending (\<lambda>_.
     seq (get (\<lambda>s. HasItems (done_queue s))) (\<lambda>b.
     if b then seq DrainCompleted (for_each (OnCompletedGameThread env)) else ret ()))"

definition OnClientDisconnecting :: "i32 \<Rightarrow> unit http" where
  "OnClientDisconnecting client = seq (get (\<lambda>s. map_of (g_client_handles s) client)) (\<lambda>entry. case entry of
     None \<Rightarrow> ret ()
   | Some ids \<Rightarrow>
       seq (modify (g_client_handles_update (AList.delete client))) (\<lambda>_.
       for_each (\<lambda>i. seq (get (\<lambda>s. GetHttpRequest i (handles s))) (\<lambda>request. case request of
           None \<Rightarrow> ret ()
         | Some p \<Rightarrow> close_request i p)) ids))"

definition OnPluginLoaded :: "ctx \<Rightarrow> unit http" where
  "OnPluginLoaded c = modify (g_plugin_contexts_update (insert c))"

text \<open>The sockets of the plugin are closed through queues of their own, which are not part of this
  state.\<close>

definition close_plugin_handle :: "i32 \<times> Handle \<Rightarrow> unit http" where
  "close_plugin_handle = (\<lambda>(i, h). case htype h of
     HANDLE_HTTP_REQUEST \<Rightarrow> seq (req_at (pointer h)) (\<lambda>r.
       seq (UntrackClientHandle (client_index r) (handle_id r)) (\<lambda>_. close_request i (pointer h)))
   | HANDLE_JSON_VALUE \<Rightarrow> drop_handle i
   | HANDLE_LINKED_LIST \<Rightarrow> drop_handle i
   | HANDLE_ITERATOR \<Rightarrow> drop_handle i
   | _ \<Rightarrow> ret ())"

definition OnPluginUnloaded :: "ctx \<Rightarrow> unit http" where
  "OnPluginUnloaded c = seq (modify (g_plugin_contexts_update (\<lambda>cs. cs - {c}))) (\<lambda>_.
     seq (get (\<lambda>s. TakePluginHandles c (handles s))) (\<lambda>(taken, m).
     seq (modify (handles_update (\<lambda>_. m))) (\<lambda>_. for_each close_plugin_handle taken)))"

end
