(* ===== verification/Http_Invariant.thy ===== *)
theory Http_Invariant
  imports Http_Natives
begin

text \<open>
  The invariant of the HTTP part: every request is in exactly one place of its life, and the queues, the
  sets of the event thread, the flags of the request and libcurl agree on it.  Each operation moves
  one request from one place to the next.
\<close>

section \<open>Places\<close>

text \<open>A request is idle until it is executed; then it is queued for the event thread, being sent by
  curl or waiting for its next try, finished, handed to the game thread in a frame, and completing
  while its callback runs; then it is gone.\<close>

datatype place = Gone | Idle | Queued | Sending | Waiting | Finished | Handed | Completing

definition flags_ok :: "place \<Rightarrow> HttpRequest \<Rightarrow> bool" where
  "flags_ok x r \<longleftrightarrow> x \<noteq> Gone
     \<and> (in_event_thread r \<longleftrightarrow> x \<in> {Queued, Sending, Waiting, Finished, Handed})
     \<and> (in_retry_wait r \<longleftrightarrow> x = Waiting)
     \<and> (completed r \<longleftrightarrow> x \<in> {Finished, Handed, Completing})
     \<and> (x = Idle \<longrightarrow> \<not> handle_closed r \<and> retry_count r = 0)
     \<and> 0 \<le> sint (retry_max_delay_ms r)
     \<and> (0 < sint (max_retries r) \<and> in_event_thread r \<longrightarrow> 0 \<le> sint (retry_count r) \<and> sint (retry_count r) \<le> sint (max_retries r))"

definition at :: "(obj \<Rightarrow> place) \<Rightarrow> place \<Rightarrow> obj set" where
  "at pl x = {p. pl p = x}"

definition flagged :: "(obj \<Rightarrow> place) \<Rightarrow> (obj \<Rightarrow> HttpRequest option) \<Rightarrow> bool" where
  "flagged pl R \<longleftrightarrow> (\<forall>p. R p = None \<longrightarrow> pl p = Gone) \<and> (\<forall>p r. R p = Some r \<longrightarrow> flags_ok (pl p) r)"

definition lifecycle :: "(obj \<Rightarrow> place) \<Rightarrow> (obj \<Rightarrow> HttpRequest option) \<Rightarrow> obj list \<Rightarrow> obj set \<Rightarrow> obj list \<Rightarrow> obj list \<Rightarrow>
    obj list \<Rightarrow> obj set \<Rightarrow> bool" where
  "lifecycle pl R pend act timers fin L C \<longleftrightarrow>
     flagged pl R
     \<and> distinct pend \<and> set pend = at pl Queued
     \<and> act = at pl Sending \<union> at pl Waiting
     \<and> distinct timers \<and> set timers = at pl Waiting
     \<and> distinct fin \<and> set fin = at pl Finished
     \<and> distinct L \<and> set L = at pl Handed
     \<and> C = at pl Completing"

text \<open>The curl handles: those of the requests that are being sent are in the multi handle and lead back to
  their requests; no two requests share one, and the ones in the pool belong to no request.\<close>

definition sending :: "(obj \<Rightarrow> place) \<Rightarrow> (obj \<Rightarrow> HttpRequest option) \<Rightarrow> CURL set" where
  "sending pl R = {c. \<exists>p r. R p = Some r \<and> pl p = Sending \<and> curl r = c}"

definition curls :: "(obj \<Rightarrow> place) \<Rightarrow> (obj \<Rightarrow> HttpRequest option) \<Rightarrow> CURL set \<Rightarrow> (CURL \<Rightarrow> obj option) \<Rightarrow> CURL list \<Rightarrow> nat \<Rightarrow> bool" where
  "curls pl R mul priv pool n \<longleftrightarrow>
     mul = sending pl R
     \<and> (\<forall>p r. R p = Some r \<longrightarrow> pl p = Sending \<or> pl p = Waiting \<longrightarrow> priv (curl r) = Some p)
     \<and> (\<forall>p q r r'. R p = Some r \<longrightarrow> R q = Some r' \<longrightarrow> curl r = curl r' \<longrightarrow> p = q)
     \<and> distinct pool \<and> (\<forall>p r. R p = Some r \<longrightarrow> curl r \<notin> set pool)
     \<and> finite (dom R) \<and> card (dom R) \<le> n"

text \<open>The handle table: each handle of a request leads to a request that knows its number, each request
  has one, and each handle of a tree leads to a tree of its own.\<close>

definition handles_ok :: "(obj \<Rightarrow> HttpRequest option) \<Rightarrow> (obj \<Rightarrow> DataNode option) \<Rightarrow> HandleManager \<Rightarrow> bool" where
  "handles_ok R J m \<longleftrightarrow> hm_ok m
     \<and> (\<forall>i h. used m i = Some h \<longrightarrow> htype h = HANDLE_HTTP_REQUEST \<longrightarrow> (\<exists>r. R (pointer h) = Some r \<and> handle_id r = i))
     \<and> (\<forall>p r. R p = Some r \<longrightarrow> (\<exists>h. used m (handle_id r) = Some h \<and> htype h = HANDLE_HTTP_REQUEST \<and> pointer h = p))
     \<and> (\<forall>i h. used m i = Some h \<longrightarrow> htype h = HANDLE_JSON_VALUE \<longrightarrow> J (pointer h) \<noteq> None)
     \<and> (\<forall>i j h g. used m i = Some h \<longrightarrow> used m j = Some g \<longrightarrow> htype h = HANDLE_JSON_VALUE \<longrightarrow> htype g = HANDLE_JSON_VALUE \<longrightarrow>
          pointer h = pointer g \<longrightarrow> i = j)"

text \<open>Counters and the flags of the queues; and that the event thread has been woken for what is queued.\<close>

definition counters_ok :: "World \<Rightarrow> bool" where
  "counters_ok s \<longleftrightarrow> http_curl_handles s = multi s
     \<and> stats_pending s = of_nat (length (queue (pending_queue s))) \<and> stats_active s = of_nat (card (multi s))
     \<and> queue_ok (pending_queue s) \<and> queue_ok (cancel_queue s) \<and> queue_ok (done_queue s) \<and> finite (dom (jsons s))"

definition awake :: "World \<Rightarrow> bool" where
  "awake s \<longleftrightarrow> (queue (pending_queue s) \<noteq> [] \<longrightarrow> async_add s) \<and> (queue (cancel_queue s) \<noteq> [] \<longrightarrow> async_cancel s)"

text \<open>\<open>L\<close> are the requests that a game frame has taken from the queue, \<open>C\<close> those whose callback is running;
  \<open>D\<close> while a queue is being drained.\<close>

definition http_at :: "(obj \<Rightarrow> place) \<Rightarrow> bool \<Rightarrow> obj list \<Rightarrow> obj set \<Rightarrow> World \<Rightarrow> bool" where
  "http_at pl D L C s \<longleftrightarrow>
     lifecycle pl (reqs s) (queue (pending_queue s)) (active_http_requests s) (map fst (retry_timers s)) (queue (done_queue s)) L C
     \<and> curls pl (reqs s) (multi s) (info_private s) (g_curl_pool s) (g_curl_outstanding s)
     \<and> handles_ok (reqs s) (jsons s) (handles s) \<and> counters_ok s \<and> (D \<or> awake s)"

lemma http_atI:
  "lifecycle pl (reqs s) (queue (pending_queue s)) (active_http_requests s) (map fst (retry_timers s)) (queue (done_queue s)) L C \<Longrightarrow>
   curls pl (reqs s) (multi s) (info_private s) (g_curl_pool s) (g_curl_outstanding s) \<Longrightarrow>
   handles_ok (reqs s) (jsons s) (handles s) \<Longrightarrow> counters_ok s \<Longrightarrow> D \<or> awake s \<Longrightarrow> http_at pl D L C s"
  by (simp add: http_at_def)

lemma http_atD:
  assumes "http_at pl D L C s"
  shows "lifecycle pl (reqs s) (queue (pending_queue s)) (active_http_requests s) (map fst (retry_timers s)) (queue (done_queue s)) L C"
    "curls pl (reqs s) (multi s) (info_private s) (g_curl_pool s) (g_curl_outstanding s)"
    "handles_ok (reqs s) (jsons s) (handles s)" "counters_ok s" "D \<or> awake s"
  using assms by (simp_all add: http_at_def)

lemma lifecycle_flags: "lifecycle pl R pend act timers fin L C \<Longrightarrow> R p = Some r \<Longrightarrow> flags_ok (pl p) r"
  by (simp add: lifecycle_def flagged_def)

lemma lifecycle_gone: "lifecycle pl R pend act timers fin L C \<Longrightarrow> R p = None \<longleftrightarrow> pl p = Gone"
  by (cases "R p") (auto simp: lifecycle_def flagged_def flags_ok_def)

lemma lifecycle_live: "lifecycle pl R pend act timers fin L C \<Longrightarrow> pl p \<noteq> Gone \<Longrightarrow> \<exists>r. R p = Some r"
  using lifecycle_gone by blast

lemma flagged_upd: "flagged pl R \<Longrightarrow> flags_ok x r \<Longrightarrow> flagged (pl(p := x)) (R(p \<mapsto> r))"
  by (simp add: flagged_def)

lemma flagged_del: "flagged pl R \<Longrightarrow> flagged (pl(p := Gone)) (R(p := None))"
  by (simp add: flagged_def)

section \<open>Moves\<close>

lemma mem_at [simp]: "p \<in> at pl x \<longleftrightarrow> pl p = x"
  by (simp add: at_def)

lemma at_upd [simp]: "at (pl(p := x)) y = (if x = y then insert p (at pl y) else at pl y - {p})"
  by (auto simp: at_def)

lemma lifecycle_stay:
  assumes "lifecycle pl R pend act timers fin L C" "flags_ok (pl p) r'"
  shows "lifecycle pl (R(p \<mapsto> r')) pend act timers fin L C"
  using assms flagged_upd [of pl R "pl p" r' p] unfolding lifecycle_def by simp

lemma lifecycle_new:
  assumes "lifecycle pl R pend act timers fin L C" "R p = None" "flags_ok Idle r'"
  shows "lifecycle (pl(p := Idle)) (R(p \<mapsto> r')) pend act timers fin L C"
  using assms(1) flagged_upd [OF _ assms(3)] lifecycle_gone [OF assms(1), of p] assms(2) unfolding lifecycle_def by simp

lemma lifecycle_drop:
  assumes "lifecycle pl R pend act timers fin L C" "pl p = Idle \<or> pl p = Completing"
  shows "lifecycle (pl(p := Gone)) (R(p := None)) pend act timers fin L (C - {p})"
  using assms flagged_del unfolding lifecycle_def by auto

lemma lifecycle_queue:
  assumes "lifecycle pl R pend act timers fin L C" "pl p = Idle" "flags_ok Queued r'"
  shows "lifecycle (pl(p := Queued)) (R(p \<mapsto> r')) (pend @ [p]) act timers fin L C"
  using assms(1,2) flagged_upd [OF _ assms(3)] unfolding lifecycle_def by simp

lemma lifecycle_heads: "lifecycle pl R (p # pend) act timers fin L C \<Longrightarrow> pl p = Queued"
  "lifecycle pl R pend act timers fin (p # L) C \<Longrightarrow> pl p = Handed"
  unfolding lifecycle_def by (metis list.set_intros(1) mem_at)+

lemma lifecycle_send:
  assumes "lifecycle pl R (p # pend) act timers fin L C" "flags_ok Sending r'"
  shows "lifecycle (pl(p := Sending)) (R(p \<mapsto> r')) pend (insert p act) timers fin L C"
  using assms(1) flagged_upd [OF _ assms(2)] lifecycle_heads(1) [OF assms(1)] unfolding lifecycle_def by auto

lemma lifecycle_skip:
  assumes "lifecycle pl R (p # pend) act timers fin L C" "flags_ok Finished r'"
  shows "lifecycle (pl(p := Finished)) (R(p \<mapsto> r')) pend act timers (fin @ [p]) L C"
  using assms(1) flagged_upd [OF _ assms(2)] lifecycle_heads(1) [OF assms(1)] unfolding lifecycle_def by auto

lemma lifecycle_wait:
  assumes "lifecycle pl R pend act timers fin L C" "pl p = Sending" "flags_ok Waiting r'"
  shows "lifecycle (pl(p := Waiting)) (R(p \<mapsto> r')) pend act (timers @ [p]) fin L C"
  using assms(1,2) flagged_upd [OF _ assms(3)] unfolding lifecycle_def by auto

lemma lifecycle_resend:
  assumes "lifecycle pl R pend act timers fin L C" "pl p = Waiting" "flags_ok Sending r'"
  shows "lifecycle (pl(p := Sending)) (R(p \<mapsto> r')) pend act (remove1 p timers) fin L C"
  using assms(1,2) flagged_upd [OF _ assms(3)] unfolding lifecycle_def by auto

lemma lifecycle_finish:
  assumes "lifecycle pl R pend act timers fin L C" "pl p = Sending" "flags_ok Finished r'"
  shows "lifecycle (pl(p := Finished)) (R(p \<mapsto> r')) pend (act - {p}) timers (fin @ [p]) L C"
  using assms(1,2) flagged_upd [OF _ assms(3)] unfolding lifecycle_def by auto

lemma lifecycle_give_up:
  assumes "lifecycle pl R pend act timers fin L C" "pl p = Waiting" "flags_ok Finished r'"
  shows "lifecycle (pl(p := Finished)) (R(p \<mapsto> r')) pend (act - {p}) (remove1 p timers) (fin @ [p]) L C"
  using assms(1,2) flagged_upd [OF _ assms(3)] unfolding lifecycle_def by auto

lemma lifecycle_hand_over:
  assumes "lifecycle pl R pend act timers fin [] C"
  shows "lifecycle (\<lambda>p. if pl p = Finished then Handed else pl p) R pend act timers [] fin C"
proof -
  let ?pl = "\<lambda>p. if pl p = Finished then Handed else pl p"
  have "flagged ?pl R" using assms unfolding lifecycle_def flagged_def flags_ok_def by auto
  moreover have "at pl Handed = {}" using assms by (simp add: lifecycle_def)
  then have "at ?pl Queued = at pl Queued" "at ?pl Sending = at pl Sending" "at ?pl Waiting = at pl Waiting"
    "at ?pl Finished = {}" "at ?pl Handed = at pl Finished" "at ?pl Completing = at pl Completing"
    by (auto simp: at_def)
  ultimately show ?thesis using assms unfolding lifecycle_def by simp
qed

lemma lifecycle_call:
  assumes "lifecycle pl R pend act timers fin (p # L) C" "flags_ok Completing r'"
  shows "lifecycle (pl(p := Completing)) (R(p \<mapsto> r')) pend act timers fin L (insert p C)"
  using assms(1) flagged_upd [OF _ assms(2)] lifecycle_heads(2) [OF assms(1)] unfolding lifecycle_def by auto

section \<open>Curl handles\<close>

lemma curls_other: "curls pl R mul priv pool n \<Longrightarrow> R p = Some r \<Longrightarrow> R q = Some r' \<Longrightarrow> q \<noteq> p \<Longrightarrow> curl r' \<noteq> curl r"
  unfolding curls_def by metis

lemma curlsD:
  assumes "curls pl R mul priv pool n"
  shows "mul = sending pl R" "R p = Some r \<Longrightarrow> pl p = Sending \<or> pl p = Waiting \<Longrightarrow> priv (curl r) = Some p"
    "distinct pool" "R p = Some r \<Longrightarrow> curl r \<notin> set pool" "finite (dom R)" "card (dom R) \<le> n"
  using assms unfolding curls_def by blast+

lemma curlsI:
  assumes "mul = sending pl R" "\<And>p r. R p = Some r \<Longrightarrow> pl p = Sending \<or> pl p = Waiting \<Longrightarrow> priv (curl r) = Some p"
    "\<And>p q r r'. R p = Some r \<Longrightarrow> R q = Some r' \<Longrightarrow> q \<noteq> p \<Longrightarrow> curl r' \<noteq> curl r"
    "distinct pool" "\<And>p r. R p = Some r \<Longrightarrow> curl r \<notin> set pool" "finite (dom R)" "card (dom R) \<le> n"
  shows "curls pl R mul priv pool n"
  using assms unfolding curls_def by metis

lemma sending_cong:
  "(\<And>q r. R q = Some r \<and> pl q = Sending \<longleftrightarrow> R' q = Some r \<and> pl' q = Sending) \<Longrightarrow> sending pl R = sending pl' R'"
  unfolding sending_def conj_assoc [symmetric] by simp

lemma sending_upd:
  assumes "curls pl R mul priv pool n" "R p = Some r" "curl r' = curl r"
  shows "sending (pl(p := x)) (R(p \<mapsto> r')) = (if x = Sending then insert (curl r) mul else mul - {curl r})"
proof -
  have "c \<in> sending (pl(p := x)) (R(p \<mapsto> r')) \<longleftrightarrow> (x = Sending \<and> c = curl r)
      \<or> (\<exists>q r0. q \<noteq> p \<and> R q = Some r0 \<and> pl q = Sending \<and> curl r0 = c)" for c
    using assms(3) by (auto simp: sending_def)
  moreover have "c \<in> mul \<longleftrightarrow> (pl p = Sending \<and> c = curl r)
      \<or> (\<exists>q r0. q \<noteq> p \<and> R q = Some r0 \<and> pl q = Sending \<and> curl r0 = c)" for c
    unfolding curlsD(1) [OF assms(1)] sending_def using assms(2) by (auto; metis option.inject)
  ultimately show ?thesis using curls_other [OF assms(1,2)] by (auto 4 4)
qed

lemma sending_in:
  assumes "curls pl R mul priv pool n" "R p = Some r"
  shows "curl r \<in> mul \<longleftrightarrow> pl p = Sending"
proof -
  have "sending (pl(p := pl p)) (R(p \<mapsto> r)) = mul"
    unfolding curlsD(1) [OF assms(1)] fun_upd_triv using assms(2) by (simp add: fun_upd_idem)
  then have "mul = (if pl p = Sending then insert (curl r) mul else mul - {curl r})"
    unfolding sending_upd [OF assms refl] by (rule sym)
  then show ?thesis by (metis Diff_iff insertI1)
qed

lemma curls_move:
  assumes "curls pl R mul priv pool n" "R p = Some r" "curl r' = curl r"
    "mul' = (if x = Sending then insert (curl r) mul else mul - {curl r})"
    "x = Sending \<or> x = Waiting \<Longrightarrow> priv' (curl r) = Some p" "\<And>c. c \<noteq> curl r \<Longrightarrow> priv' c = priv c"
  shows "curls (pl(p := x)) (R(p \<mapsto> r')) mul' priv' pool n"
proof (rule curlsI)
  show "mul' = sending (pl(p := x)) (R(p \<mapsto> r'))" unfolding sending_upd [OF assms(1-3)] by (rule assms(4))
  fix q r0
  assume q: "(R(p \<mapsto> r')) q = Some r0"
  then show "curl r0 \<notin> set pool" using curlsD(4) [OF assms(1)] assms(2,3) by (auto split: if_splits)
  assume "(pl(p := x)) q = Sending \<or> (pl(p := x)) q = Waiting"
  with q show "priv' (curl r0) = Some q"
    using assms(3,5,6) curlsD(2) [OF assms(1)] curls_other [OF assms(1,2)] by (cases "q = p") auto
next
  fix q q' r1 r2
  assume "(R(p \<mapsto> r')) q = Some r1" "(R(p \<mapsto> r')) q' = Some r2" "q' \<noteq> q"
  then show "curl r2 \<noteq> curl r1"
    using assms(3) curls_other [OF assms(1,2), of q' r2] curls_other [OF assms(1,2), of q r1]
      curls_other [OF assms(1), of q r1 q' r2] by (cases "q = p"; cases "q' = p") simp_all
next
  have "dom (R(p \<mapsto> r')) = dom R" using assms(2) by auto
  then show "finite (dom (R(p \<mapsto> r')))" "card (dom (R(p \<mapsto> r'))) \<le> n" using curlsD(5,6) [OF assms(1)] by simp_all
qed (rule curlsD(3) [OF assms(1)])

lemma curls_same:
  assumes "curls pl R mul priv pool n" "R p = Some r" "curl r' = curl r"
    "x = pl p \<or> (x \<notin> {Sending, Waiting} \<and> pl p \<noteq> Sending)"
  shows "curls (pl(p := x)) (R(p \<mapsto> r')) mul priv pool n"
proof (rule curls_move [OF assms(1-3)])
  show "mul = (if x = Sending then insert (curl r) mul else mul - {curl r})"
    using sending_in [OF assms(1,2)] assms(4) by auto
  show "x = Sending \<or> x = Waiting \<Longrightarrow> priv (curl r) = Some p"
    using assms(4) curlsD(2) [OF assms(1,2)] by auto
qed simp

lemma curls_new:
  assumes "curls pl R mul priv pool n" "R p = None" "set pool' \<subseteq> set pool" "distinct pool'" "curl r' \<notin> set pool'"
    "\<And>q r. R q = Some r \<Longrightarrow> curl r \<noteq> curl r'"
  shows "curls (pl(p := Idle)) (R(p \<mapsto> r')) mul priv pool' (Suc n)"
proof (rule curlsI)
  show "mul = sending (pl(p := Idle)) (R(p \<mapsto> r'))"
    unfolding curlsD(1) [OF assms(1)] by (rule sending_cong) (use assms(2) in auto)
  show "finite (dom (R(p \<mapsto> r')))" "card (dom (R(p \<mapsto> r'))) \<le> Suc n"
    using assms(2) curlsD(5,6) [OF assms(1)] by (auto simp: domIff)
  fix q q' r1 r2
  assume "(R(p \<mapsto> r')) q = Some r1" "(R(p \<mapsto> r')) q' = Some r2" "q' \<noteq> q"
  then show "curl r2 \<noteq> curl r1"
    using assms(6) [of q' r2] assms(6) [of q r1] curls_other [OF assms(1), of q r1 q' r2]
    by (cases "q = p"; cases "q' = p") simp_all
next
  fix q r0
  assume q: "(R(p \<mapsto> r')) q = Some r0"
  then show "curl r0 \<notin> set pool'" using curlsD(4) [OF assms(1)] assms(3,5) by (auto split: if_splits)
  assume "(pl(p := Idle)) q = Sending \<or> (pl(p := Idle)) q = Waiting"
  with q show "priv (curl r0) = Some q" using curlsD(2) [OF assms(1)] by (auto split: if_splits)
qed (rule assms(4))

lemma curls_drop:
  assumes "curls pl R mul priv pool n" "R p = Some r" "pl p \<noteq> Sending" "pool' = pool \<or> pool' = pool @ [curl r]"
    "\<And>c. c \<noteq> curl r \<Longrightarrow> priv' c = priv c"
  shows "curls (pl(p := Gone)) (R(p := None)) mul priv' pool' (n - 1)"
proof (rule curlsI)
  show "mul = sending (pl(p := Gone)) (R(p := None))"
    unfolding curlsD(1) [OF assms(1)] by (rule sending_cong) (use assms(2,3) in auto)
  have "dom (R(p := None)) = dom R - {p}" "p \<in> dom R" using assms(2) by auto
  then show "finite (dom (R(p := None)))" "card (dom (R(p := None))) \<le> n - 1"
    using curlsD(5,6) [OF assms(1)] by (auto simp: card_Diff_singleton)
  show "distinct pool'" using curlsD(3) [OF assms(1)] curlsD(4) [OF assms(1,2)] assms(4) by auto
  fix q r0
  assume q: "(R(p := None)) q = Some r0"
  then have q': "R q = Some r0" "q \<noteq> p" by (auto split: if_splits)
  show "curl r0 \<notin> set pool'" using curlsD(4) [OF assms(1) q'(1)] curls_other [OF assms(1,2) q'] assms(4) by auto
  assume "(pl(p := Gone)) q = Sending \<or> (pl(p := Gone)) q = Waiting"
  then show "priv' (curl r0) = Some q"
    using curlsD(2) [OF assms(1) q'(1)] curls_other [OF assms(1,2) q'] assms(5) q'(2) by auto
next
  fix q q' r1 r2
  assume "(R(p := None)) q = Some r1" "(R(p := None)) q' = Some r2" "q' \<noteq> q"
  then show "curl r2 \<noteq> curl r1" using curls_other [OF assms(1), of q r1 q' r2] by (auto split: if_splits)
qed

section \<open>Handles\<close>

lemma handles_okD:
  assumes "handles_ok R J m"
  shows "hm_ok m"
    "used m i = Some h \<Longrightarrow> htype h = HANDLE_HTTP_REQUEST \<Longrightarrow> \<exists>r. R (pointer h) = Some r \<and> handle_id r = i"
    "R p = Some r \<Longrightarrow> \<exists>h. used m (handle_id r) = Some h \<and> htype h = HANDLE_HTTP_REQUEST \<and> pointer h = p"
    "used m i = Some h \<Longrightarrow> htype h = HANDLE_JSON_VALUE \<Longrightarrow> \<exists>n. J (pointer h) = Some n"
    "used m i = Some h \<Longrightarrow> used m j = Some g \<Longrightarrow> htype h = HANDLE_JSON_VALUE \<Longrightarrow> htype g = HANDLE_JSON_VALUE \<Longrightarrow>
       pointer h = pointer g \<Longrightarrow> i = j"
  using assms unfolding handles_ok_def by blast+

lemma handles_okI:
  assumes "hm_ok m"
    "\<And>i h. used m i = Some h \<Longrightarrow> htype h = HANDLE_HTTP_REQUEST \<Longrightarrow> \<exists>r. R (pointer h) = Some r \<and> handle_id r = i"
    "\<And>p r. R p = Some r \<Longrightarrow> \<exists>h. used m (handle_id r) = Some h \<and> htype h = HANDLE_HTTP_REQUEST \<and> pointer h = p"
    "\<And>i h. used m i = Some h \<Longrightarrow> htype h = HANDLE_JSON_VALUE \<Longrightarrow> J (pointer h) \<noteq> None"
    "\<And>i j h g. used m i = Some h \<Longrightarrow> used m j = Some g \<Longrightarrow> htype h = HANDLE_JSON_VALUE \<Longrightarrow> htype g = HANDLE_JSON_VALUE \<Longrightarrow>
       pointer h = pointer g \<Longrightarrow> i = j"
  shows "handles_ok R J m"
  using assms unfolding handles_ok_def by blast

lemma handles_same:
  assumes "handles_ok R J m" "R p = Some r" "handle_id r' = handle_id r"
  shows "handles_ok (R(p \<mapsto> r')) J m"
proof (rule handles_okI)
  fix i h
  assume "used m i = Some h" "htype h = HANDLE_HTTP_REQUEST"
  from handles_okD(2) [OF assms(1) this] assms(2,3)
  show "\<exists>r. (R(p \<mapsto> r')) (pointer h) = Some r \<and> handle_id r = i" by (cases "pointer h = p") auto
next
  fix q r0
  assume "(R(p \<mapsto> r')) q = Some r0"
  with handles_okD(3) [OF assms(1), of q] assms(2,3)
  show "\<exists>h. used m (handle_id r0) = Some h \<and> htype h = HANDLE_HTTP_REQUEST \<and> pointer h = q" by (cases "q = p") auto
next
  show "used m i = Some h \<Longrightarrow> htype h = HANDLE_JSON_VALUE \<Longrightarrow> J (pointer h) \<noteq> None" for i h
    using handles_okD(4) [OF assms(1)] by fastforce
qed (rule handles_okD(1) [OF assms(1)], rule handles_okD(5) [OF assms(1)])

lemma handles_new:
  assumes "handles_ok R J m" "R p = None" "used m i = None" "hm_ok m'" "used m' = (used m)(i \<mapsto> h)"
    "htype h = HANDLE_HTTP_REQUEST" "pointer h = p" "handle_id r' = i"
  shows "handles_ok (R(p \<mapsto> r')) J m'"
proof (rule handles_okI)
  fix j g
  assume g: "used m' j = Some g" "htype g = HANDLE_HTTP_REQUEST"
  with handles_okD(2) [OF assms(1), of j g] assms(2,5,7,8)
  show "\<exists>r. (R(p \<mapsto> r')) (pointer g) = Some r \<and> handle_id r = j" by (cases "j = i") auto
next
  fix q r0
  assume "(R(p \<mapsto> r')) q = Some r0"
  with handles_okD(3) [OF assms(1), of q] assms(3,5,6,7,8)
  show "\<exists>h. used m' (handle_id r0) = Some h \<and> htype h = HANDLE_HTTP_REQUEST \<and> pointer h = q" by (cases "q = p") auto
next
  show "used m' j = Some g \<Longrightarrow> htype g = HANDLE_JSON_VALUE \<Longrightarrow> J (pointer g) \<noteq> None" for j g
    using handles_okD(4) [OF assms(1), of j g] assms(5,6) by (cases "j = i") auto
  show "used m' j = Some g \<Longrightarrow> used m' k = Some g' \<Longrightarrow> htype g = HANDLE_JSON_VALUE \<Longrightarrow> htype g' = HANDLE_JSON_VALUE \<Longrightarrow>
       pointer g = pointer g' \<Longrightarrow> j = k" for j k g g'
    using handles_okD(5) [OF assms(1), of j g k g'] assms(5,6) by (cases "j = i"; cases "k = i") auto
qed (rule assms(4))

lemma handles_new_json:
  assumes "handles_ok R J m" "J p = None" "used m i = None" "hm_ok m'" "used m' = (used m)(i \<mapsto> h)"
    "htype h = HANDLE_JSON_VALUE" "pointer h = p"
  shows "handles_ok R (J(p \<mapsto> n)) m'"
proof (rule handles_okI)
  fix j g
  assume g: "used m' j = Some g" "htype g = HANDLE_HTTP_REQUEST"
  with handles_okD(2) [OF assms(1), of j g] assms(5,6)
  show "\<exists>r. R (pointer g) = Some r \<and> handle_id r = j" by (cases "j = i") auto
next
  fix q r0
  assume "R q = Some r0"
  with handles_okD(3) [OF assms(1), of q] assms(3,5)
  show "\<exists>h. used m' (handle_id r0) = Some h \<and> htype h = HANDLE_HTTP_REQUEST \<and> pointer h = q" by auto
next
  show "used m' j = Some g \<Longrightarrow> htype g = HANDLE_JSON_VALUE \<Longrightarrow> (J(p \<mapsto> n)) (pointer g) \<noteq> None" for j g
    using handles_okD(4) [OF assms(1), of j g] assms(5,7) by (cases "j = i") auto
  fix j k g g'
  assume g: "used m' j = Some g" "used m' k = Some g'" "htype g = HANDLE_JSON_VALUE" "htype g' = HANDLE_JSON_VALUE"
    "pointer g = pointer g'"
  have fresh: "pointer h0 \<noteq> p" if "used m l = Some h0" "htype h0 = HANDLE_JSON_VALUE" for l h0
    using handles_okD(4) [OF assms(1) that] assms(2) by auto
  show "j = k"
  proof (cases "j = i \<or> k = i")
    case True
    then show ?thesis using g fresh [of k g'] fresh [of j g] assms(7) unfolding assms(5) by (auto split: if_splits)
  next
    case False
    then show ?thesis using g handles_okD(5) [OF assms(1), of j g k g'] unfolding assms(5) by simp
  qed
qed (rule assms(4))

lemma handles_full:
  assumes "handles_ok R J m" "hm_ok m'" "used m' = used m"
  shows "handles_ok R J m'"
  using assms unfolding handles_ok_def by simp

lemma handles_drop:
  assumes "handles_ok R J m" "used m i = Some h" "hm_ok m'" "used m' = (used m)(i := None)"
    "R' = (if htype h = HANDLE_HTTP_REQUEST then R(pointer h := None) else R)"
    "J' = (if htype h = HANDLE_JSON_VALUE then J(pointer h := None) else J)"
  shows "handles_ok R' J' m'"
proof (rule handles_okI)
  fix j g
  assume "used m' j = Some g" "htype g = HANDLE_HTTP_REQUEST"
  then have g: "used m j = Some g" "j \<noteq> i" using assms(4) by (auto split: if_splits)
  with handles_okD(2) [OF assms(1) g(1)] handles_okD(2) [OF assms(1,2)] \<open>htype g = HANDLE_HTTP_REQUEST\<close>
  show "\<exists>r. R' (pointer g) = Some r \<and> handle_id r = j" unfolding assms(5) by fastforce
next
  fix q r0
  assume r0: "R' q = Some r0"
  then have "R q = Some r0" using assms(5) by (auto split: if_splits)
  from handles_okD(3) [OF assms(1) this] obtain g where
    g: "used m (handle_id r0) = Some g" "htype g = HANDLE_HTTP_REQUEST" "pointer g = q" by blast
  moreover have "handle_id r0 \<noteq> i" using g assms(2,5) r0 by auto
  ultimately show "\<exists>h. used m' (handle_id r0) = Some h \<and> htype h = HANDLE_HTTP_REQUEST \<and> pointer h = q"
    by (simp add: assms(4))
next
  fix j g
  assume "used m' j = Some g" and t: "htype g = HANDLE_JSON_VALUE"
  then have g: "used m j = Some g" "j \<noteq> i" using assms(4) by (auto split: if_splits)
  from handles_okD(4) [OF assms(1) g(1) t] handles_okD(5) [OF assms(1) g(1) assms(2) t] g(2)
  show "J' (pointer g) \<noteq> None" unfolding assms(6) by auto
next
  show "used m' j = Some g \<Longrightarrow> used m' k = Some g' \<Longrightarrow> htype g = HANDLE_JSON_VALUE \<Longrightarrow> htype g' = HANDLE_JSON_VALUE \<Longrightarrow>
       pointer g = pointer g' \<Longrightarrow> j = k" for j k g g'
    using handles_okD(5) [OF assms(1), of j g k g'] assms(4) by (auto split: if_splits)
qed (rule assms(3))

text \<open>Closing a handle changes neither its type nor its object.\<close>

lemma handles_relabel:
  assumes "handles_ok R J m" "hm_ok m'"
    "\<And>i. map_option (\<lambda>h. (htype h, pointer h)) (used m' i) = map_option (\<lambda>h. (htype h, pointer h)) (used m i)"
  shows "handles_ok R J m'"
proof -
  have down: "\<exists>h. used m i = Some h \<and> htype h = htype g \<and> pointer h = pointer g" if "used m' i = Some g" for i g
    using assms(3) [of i] that by (cases "used m i") auto
  have up: "\<exists>g. used m' i = Some g \<and> htype g = htype h \<and> pointer g = pointer h" if "used m i = Some h" for i h
    using assms(3) [of i] that by (cases "used m' i") auto
  show ?thesis
  proof (rule handles_okI [OF assms(2)])
    show "\<exists>r. R (pointer g) = Some r \<and> handle_id r = j" if "used m' j = Some g" "htype g = HANDLE_HTTP_REQUEST" for j g
      using down [OF that(1)] handles_okD(2) [OF assms(1), of j] that(2) by metis
    show "\<exists>h. used m' (handle_id r) = Some h \<and> htype h = HANDLE_HTTP_REQUEST \<and> pointer h = p" if "R p = Some r" for p r
      using handles_okD(3) [OF assms(1) that] up by metis
    show "J (pointer g) \<noteq> None" if "used m' j = Some g" "htype g = HANDLE_JSON_VALUE" for j g
      using down [OF that(1)] handles_okD(4) [OF assms(1), of j] that(2) by (metis option.distinct(1))
    show "j = k" if "used m' j = Some g" "used m' k = Some g'" "htype g = HANDLE_JSON_VALUE" "htype g' = HANDLE_JSON_VALUE"
      "pointer g = pointer g'" for j k g g'
      using down [OF that(1)] down [OF that(2)] handles_okD(5) [OF assms(1), of j _ k] that(3-5) by metis
  qed
qed

lemma handles_mark:
  assumes "handles_ok R J m"
  shows "handles_ok R J (MarkHandleClosed i m)"
proof (rule handles_relabel [OF assms])
  note M = MarkHandleClosed_refines [OF handles_okD(1) [OF assms], of i]
  show "hm_ok (MarkHandleClosed i m)" using M by simp
  show "map_option (\<lambda>h. (htype h, pointer h)) (used (MarkHandleClosed i m) j) = map_option (\<lambda>h. (htype h, pointer h)) (used m j)" for j
    using M by (cases "used m i") auto
qed

end
