(* ===== verification/Http_Steps.thy ===== *)
theory Http_Steps
  imports Http_Invariant
begin

text \<open>
  What each operation of the event thread and of the game thread does to the invariant of
  \<open>Http_Invariant\<close>: one rule per operation, in the form of a weakest precondition, so that the rules
  compose along the code.
\<close>

section \<open>Rules\<close>

lemma wp_req_at [simp]: "wp (req_at p) Q s \<longleftrightarrow> (\<exists>r. reqs s p = Some r \<and> Q r s)"
  by (simp add: wp_def req_at_def split: option.split)

lemma wp_req_update [simp]:
  "wp (req_update p f) Q s \<longleftrightarrow> (\<exists>r. reqs s p = Some r \<and> Q () (s\<lparr>reqs := (reqs s)(p \<mapsto> f r)\<rparr>))"
  by (simp add: wp_def req_update_def split: option.split)

lemma wp_setopt [simp]: "wp (setopt c opt) Q = (\<lambda>s. Q () (curl_options_update (\<lambda>f. f(c := f c @ [opt])) s))"
  by (simp add: setopt_def)

text \<open>What the invariant does not look at.\<close>

lemma http_at_frame [simp]:
  "http_at pl D L C (curl_options_update f0 s) = http_at pl D L C s"
  "http_at pl D L C (response_code_update f1 s) = http_at pl D L C s"
  "http_at pl D L C (callbacks_update f2 s) = http_at pl D L C s"
  "http_at pl D L C (out_update f3 s) = http_at pl D L C s"
  "http_at pl D L C (g_client_handles_update f4 s) = http_at pl D L C s"
  "http_at pl D L C (g_plugin_contexts_update f5 s) = http_at pl D L C s"
  "http_at pl D L C (g_log_level_update f6 s) = http_at pl D L C s"
  "http_at pl D L C (stats_completed_update f7 s) = http_at pl D L C s"
  "http_at pl D L C (stats_retries_update f8 s) = http_at pl D L C s"
  "http_at pl D L C (cleaned_up_update f9 s) = http_at pl D L C s"
  by (simp_all add: http_at_def counters_ok_def awake_def)

text \<open>The fields of a request that the invariant looks at.\<close>

definition control :: "HttpRequest \<Rightarrow> CURL \<times> i32 \<times> bool \<times> bool \<times> bool \<times> bool \<times> i32 \<times> i32 \<times> i32" where
  "control r = (curl r, handle_id r, in_event_thread r, in_retry_wait r, completed r, handle_closed r,
     retry_count r, max_retries r, retry_max_delay_ms r)"

lemma control_flags: "control r' = control r \<Longrightarrow> flags_ok x r' = flags_ok x r"
  by (simp add: control_def flags_ok_def)

lemma http_at_req:
  assumes "http_at pl D L C s" "reqs s p = Some r" "flags_ok (pl p) r'" "curl r' = curl r" "handle_id r' = handle_id r"
  shows "http_at pl D L C (s\<lparr>reqs := (reqs s)(p \<mapsto> r')\<rparr>)"
proof -
  note A = http_atD [OF assms(1)]
  from curls_same [OF A(2) assms(2,4), of "pl p"] lifecycle_stay [OF A(1) assms(3)] handles_same [OF A(3) assms(2,5)] A(4,5)
  show ?thesis by (intro http_atI) (simp_all add: counters_ok_def awake_def)
qed

lemma http_at_control:
  assumes "http_at pl D L C s" "reqs s p = Some r" "control r' = control r"
  shows "http_at pl D L C (s\<lparr>reqs := (reqs s)(p \<mapsto> r')\<rparr>)"
proof (rule http_at_req [OF assms(1,2)])
  show "flags_ok (pl p) r'" using control_flags [OF assms(3)] lifecycle_flags [OF http_atD(1) [OF assms(1)] assms(2)] by simp
qed (use assms(3) in \<open>simp_all add: control_def\<close>)

lemma http_at_flags: "http_at pl D L C s \<Longrightarrow> reqs s p = Some r \<Longrightarrow> flags_ok (pl p) r"
  using lifecycle_flags http_atD(1) by blast

lemma finite_multi: "http_at pl D L C s \<Longrightarrow> finite (multi s)"
proof -
  assume "http_at pl D L C s"
  note A = http_atD(2) [OF this]
  have "multi s \<subseteq> (\<lambda>p. curl (the (reqs s p))) ` dom (reqs s)"
    unfolding curlsD(1) [OF A] sending_def by force
  with curlsD(5) [OF A] show ?thesis by (meson finite_imageI finite_subset)
qed

lemma queue_simps [simp]: "queue (Push x q) = queue q @ [x]" "queue_ok q \<Longrightarrow> queue_ok (Push x q)"
  "queue (pop_next q) = tl (queue q)" "queue_ok q \<Longrightarrow> queue_ok (pop_next q)"
  by (auto simp: Push_def queue_ok_def pop_next_def Pop_def split: list.splits)

section \<open>Handing over\<close>

lemma wp_EnqueueRequest:
  assumes "http_at pl D L C s" "reqs s p = Some r" "pl p = Idle"
  shows "wp (EnqueueRequest p) (\<lambda>_. http_at (pl(p := Queued)) D L C) s"
proof -
  note A = http_atD [OF assms(1)]
  define r' where "r' = r\<lparr>in_event_thread := True\<rparr>"
  have f: "flags_ok Queued r'" using http_at_flags [OF assms(1,2)] assms(3) by (auto simp: flags_ok_def r'_def)
  have c: "curl r' = curl r" "handle_id r' = handle_id r" by (simp_all add: r'_def)
  from lifecycle_queue [OF A(1) assms(3) f] curls_same [OF A(2) assms(2) c(1), of Queued] handles_same [OF A(3) assms(2) c(2)]
    A(4,5) assms(2,3)
  show ?thesis unfolding EnqueueRequest_def
    by (auto simp: r'_def [symmetric] counters_ok_def awake_def intro!: http_atI)
qed

lemma wp_CancelRequest:
  assumes "http_at pl D L C s"
  shows "wp (CancelRequest p) (\<lambda>_. http_at pl D L C) s"
  using http_atD [OF assms] by (auto simp: CancelRequest_def counters_ok_def awake_def intro!: http_atI)

section \<open>The event thread\<close>

lemma control_simps [simp]:
  "control (serialized r) = control r" "control (compressed env r) = control r"
  "control (r\<lparr>auto_headers := h\<rparr>) = control r" "control (r\<lparr>built_headers := b\<rparr>) = control r"
  by (auto simp: control_def serialized_def compressed_def split: option.splits BodyFormat.splits)

lemma same_options: "curl_options_update (\<lambda>f. f) s = s"
  by (cases s) simp

lemma wp_SetupCurl:
  assumes "reqs s p = Some r"
    and "\<And>r' g. control r' = control r \<Longrightarrow> Q () (reqs_update (\<lambda>_. (reqs s)(p \<mapsto> r')) (curl_options_update g s))"
  shows "wp (SetupCurl env p) Q s"
proof -
  define r1 where "r1 = compressed env (serialized r)"
  have c: "control r1 = control r" by (simp add: r1_def)
  show ?thesis
  proof (cases "post_body r1 = []")
    case True
    with assms(2) [where g = "\<lambda>f. f"] c show ?thesis
      by (simp add: SetupCurl_def assms(1) r1_def [symmetric] same_options)
  next
    case False
    with assms(2) c show ?thesis
      by (simp add: SetupCurl_def assms(1) r1_def [symmetric])
  qed
qed

lemma wp_ProcessCurlJob:
  assumes "reqs s p = Some r"
    and "\<And>g. Q () (multi_update (insert (curl r)) (http_curl_handles_update (insert (curl r)) (stats_active_update (\<lambda>n. n + 1)
      (curl_options_update g (info_private_update (\<lambda>f. f(curl r \<mapsto> p)) s)))))"
  shows "wp (ProcessCurlJob p) Q s"
  by (simp add: ProcessCurlJob_def assms)

lemma active_queued: "lifecycle pl R (p # pend) act timers fin L C \<Longrightarrow> insert p act - {p} = act"
proof -
  assume l: "lifecycle pl R (p # pend) act timers fin L C"
  have "act = at pl Sending \<union> at pl Waiting" using l by (simp add: lifecycle_def)
  then have "p \<notin> act" using lifecycle_heads(1) [OF l] by simp
  then show ?thesis by simp
qed

lemma wp_skip_request:
  assumes "http_at pl D L C s" "queue (pending_queue s) = p # rest" "reqs s p = Some r" "handle_closed r"
  shows "wp (add_request env p) (\<lambda>_ s'. http_at (pl(p := Finished)) True L C s' \<and> queue (pending_queue s') = rest
    \<and> cancel_queue s' = cancel_queue s \<and> async_cancel s' = async_cancel s) (s\<lparr>pending_queue := pop_next (pending_queue s)\<rparr>)"
proof -
  note A = http_atD [OF assms(1)]
  define r' where "r' = OnCompleted (r\<lparr>completed := True, body_node := None\<rparr>)"
  have Q: "pl p = Queued" using lifecycle_heads(1) A(1) assms(2) by auto
  then have f: "flags_ok Finished r'"
    using http_at_flags [OF assms(1,3)] by (auto simp: flags_ok_def r'_def OnCompleted_def)
  have c: "curl r' = curl r" "handle_id r' = handle_id r" by (simp_all add: r'_def OnCompleted_def)
  have l: "lifecycle pl (reqs s) (p # rest) (active_http_requests s) (map fst (retry_timers s)) (queue (done_queue s)) L C"
    using A(1) assms(2) by simp
  from lifecycle_skip [OF l f] curls_same [OF A(2) assms(3) c(1), of Finished] handles_same [OF A(3) assms(3) c(2)]
    A(4) assms(2-4) Q active_queued [OF l]
  show ?thesis
    by (auto simp: add_request_def finish_def r'_def [symmetric] counters_ok_def intro!: http_atI)
qed

lemma wp_send_request:
  assumes "http_at pl D L C s" "queue (pending_queue s) = p # rest" "reqs s p = Some r" "\<not> handle_closed r"
  shows "wp (add_request env p) (\<lambda>_ s'. http_at (pl(p := Sending)) True L C s' \<and> queue (pending_queue s') = rest
    \<and> cancel_queue s' = cancel_queue s \<and> async_cancel s' = async_cancel s) (s\<lparr>pending_queue := pop_next (pending_queue s)\<rparr>)"
proof -
  note A = http_atD [OF assms(1)]
  have Q: "pl p = Queued" using lifecycle_heads(1) A(1) assms(2) by auto
  have fresh: "curl r \<notin> multi s" using sending_in [OF A(2) assms(3)] Q by simp
  have l: "lifecycle pl (reqs s) (p # rest) (active_http_requests s) (map fst (retry_timers s)) (queue (done_queue s)) L C"
    using A(1) assms(2) by simp
  have "http_at (pl(p := Sending)) True L C t"
    if c: "control r' = control r" and t: "reqs t = (reqs s)(p \<mapsto> r')" "queue (pending_queue t) = rest"
      "active_http_requests t = insert p (active_http_requests s)" "retry_timers t = retry_timers s" "done_queue t = done_queue s"
      "multi t = insert (curl r) (multi s)" "info_private t = (info_private s)(curl r \<mapsto> p)" "g_curl_pool t = g_curl_pool s"
      "g_curl_outstanding t = g_curl_outstanding s" "jsons t = jsons s" "handles t = handles s" "counters_ok t" for r' t
  proof -
    have f: "flags_ok Sending r'"
      using http_at_flags [OF assms(1,3)] assms(4) Q unfolding control_flags [OF c] by (auto simp: flags_ok_def)
    have c: "curl r' = curl r" "handle_id r' = handle_id r" using c by (simp_all add: control_def)
    from lifecycle_send [OF l f] curls_move [OF A(2) assms(3) c(1), of _ Sending "(info_private s)(curl r \<mapsto> p)"]
      handles_same [OF A(3) assms(3) c(2)] t
    show ?thesis by (intro http_atI) simp_all
  qed
  note sent = this
  show ?thesis
    unfolding add_request_def
    apply (simp add: assms(3,4))
    apply (rule wp_SetupCurl)
     apply (simp add: assms(3))
    subgoal for r' g
      using A(4) assms(2) fresh finite_multi [OF assms(1)]
      by (intro wp_ProcessCurlJob [where r = r'] conjI sent [of r']) (simp_all add: control_def counters_ok_def)
    done
qed

lemma pop_pending: "pending_queue_update f s = s\<lparr>pending_queue := f (pending_queue s)\<rparr>"
  by (cases s) simp

lemma pop_cancel: "cancel_queue_update f s = s\<lparr>cancel_queue := f (cancel_queue s)\<rparr>"
  by (cases s) simp

lemma wp_OnAsyncAdd:
  assumes "http_at pl False L C s"
  shows "wp (OnAsyncAdd env) (\<lambda>_ s'. \<exists>pl'. http_at pl' False L C s') s"
proof -
  define s0 where "s0 = s\<lparr>async_add := False\<rparr>"
  have s0: "http_at pl True L C s0" using http_atD [OF assms] by (simp add: s0_def http_at_def counters_ok_def)
  have c: "queue (cancel_queue s) \<noteq> [] \<longrightarrow> async_cancel s" using http_atD(5) [OF assms] by (simp add: awake_def)
  define I where "I = (\<lambda>items t. (\<exists>pl'. http_at pl' True L C t) \<and> queue (pending_queue t) = items
    \<and> cancel_queue t = cancel_queue s \<and> async_cancel t = async_cancel s)"
  have "wp (for_each (\<lambda>item. seq (modify (pending_queue_update pop_next)) (\<lambda>_. add_request env item)) (queue (pending_queue s0)))
      (\<lambda>_ s'. \<exists>pl'. http_at pl' False L C s') s0"
  proof (rule wp_for_each [where I = I])
    show "I (queue (pending_queue s0)) s0" using s0 by (auto simp: I_def s0_def)
    show "\<exists>pl'. http_at pl' False L C t" if "I [] t" for t
      using that c by (auto simp: I_def http_at_def awake_def)
    fix p rest t
    assume "I (p # rest) t"
    then obtain pl' where t: "http_at pl' True L C t" "queue (pending_queue t) = p # rest" "cancel_queue t = cancel_queue s"
      "async_cancel t = async_cancel s" by (auto simp: I_def)
    have "pl' p = Queued" using lifecycle_heads(1) http_atD(1) [OF t(1)] t(2) by auto
    then obtain r where r: "reqs t p = Some r" using lifecycle_live http_atD(1) [OF t(1)] by fastforce
    show "wp (seq (modify (pending_queue_update pop_next)) (\<lambda>_. add_request env p)) (\<lambda>_. I rest) t"
      unfolding wp_seq wp_modify pop_pending [of pop_next t]
      using wp_skip_request [OF t(1,2) r, of env] wp_send_request [OF t(1,2) r, of env] t(3,4)
      by (cases "handle_closed r") (auto simp: I_def elim!: wp_mono)
  qed
  then show ?thesis by (simp add: OnAsyncAdd_def s0_def drain_each_def wp_def)
qed

lemma stop_timer_fst: "map fst (stop_timer p ts) = remove1 p (map fst ts)"
proof (cases "List.extract (\<lambda>t. fst t = p) ts")
  case None
  then have "p \<notin> set (map fst ts)" by (auto simp: extract_None_iff)
  then show ?thesis by (simp add: stop_timer_def None remove1_idem)
next
  case (Some e)
  obtain xs t ys where e: "e = (xs, t, ys)" by (cases e) auto
  from Some have ts: "ts = xs @ t # ys" "fst t = p" "p \<notin> fst ` set xs" by (auto simp: e extract_Some_iff)
  have "map fst (stop_timer p ts) = map fst xs @ map fst ys" unfolding stop_timer_def Some e by simp
  then show ?thesis by (simp add: ts remove1_append)
qed

text \<open>A request that is given up, and one that curl has finished with.\<close>

lemma http_at_give_up:
  assumes "http_at pl D L C s" "reqs s p = Some r" "pl p = Waiting" "flags_ok Finished r'" "curl r' = curl r" "handle_id r' = handle_id r"
    and t: "reqs t = (reqs s)(p \<mapsto> r')" "pending_queue t = pending_queue s" "map fst (retry_timers t) = remove1 p (map fst (retry_timers s))"
    "active_http_requests t = active_http_requests s - {p}" "done_queue t = Push p (done_queue s)" "multi t = multi s"
    "info_private t = info_private s" "g_curl_pool t = g_curl_pool s" "g_curl_outstanding t = g_curl_outstanding s"
    "jsons t = jsons s" "handles t = handles s" "counters_ok t" "D \<or> awake t"
  shows "http_at (pl(p := Finished)) D L C t"
proof -
  note A = http_atD [OF assms(1)]
  from lifecycle_give_up [OF A(1) assms(3,4)] curls_same [OF A(2) assms(2,5), of Finished] handles_same [OF A(3) assms(2,6)] t assms(3)
  show ?thesis by (intro http_atI) simp_all
qed

lemma http_at_finish:
  assumes "http_at pl D L C s" "reqs s p = Some r" "pl p = Sending" "flags_ok Finished r'" "curl r' = curl r" "handle_id r' = handle_id r"
    and t: "reqs t = (reqs s)(p \<mapsto> r')" "pending_queue t = pending_queue s" "retry_timers t = retry_timers s"
    "active_http_requests t = active_http_requests s - {p}" "done_queue t = Push p (done_queue s)" "multi t = multi s - {curl r}"
    "info_private t = info_private s" "g_curl_pool t = g_curl_pool s" "g_curl_outstanding t = g_curl_outstanding s"
    "jsons t = jsons s" "handles t = handles s" "counters_ok t" "D \<or> awake t"
  shows "http_at (pl(p := Finished)) D L C t"
proof -
  note A = http_atD [OF assms(1)]
  from lifecycle_finish [OF A(1) assms(3,4)] curls_move [OF A(2) assms(2,5) refl, of Finished "info_private s"]
    handles_same [OF A(3) assms(2,6)] t
  show ?thesis by (intro http_atI) simp_all
qed

lemma http_at_sending:
  assumes "http_at pl D L C s" "reqs s p = Some r" "pl p = Sending"
  shows "curl r \<in> multi s" "of_nat (card (multi s - {curl r})) = (of_nat (card (multi s)) :: i32) - 1"
proof -
  show i: "curl r \<in> multi s" using sending_in [OF http_atD(2) [OF assms(1)] assms(2)] assms(3) by simp
  from card_Suc_Diff1 [OF finite_multi [OF assms(1)] i, symmetric]
  show "of_nat (card (multi s - {curl r})) = (of_nat (card (multi s)) :: i32) - 1" by simp
qed

lemma wp_cancel_request:
  assumes "http_at pl D L C s" "D \<or> awake (s\<lparr>cancel_queue := q\<rparr>)" "queue_ok q"
  shows "wp (cancel_request p) (\<lambda>_ s'. (\<exists>pl'. http_at pl' D L C s') \<and> cancel_queue s' = q
    \<and> pending_queue s' = pending_queue s \<and> async_add s' = async_add s) (s\<lparr>cancel_queue := q\<rparr>)"
proof (cases "p \<in> active_http_requests s")
  case False
  with assms http_atD [OF assms(1)] show ?thesis
    by (auto simp: cancel_request_def counters_ok_def intro!: http_atI)
next
  case True
  note A = http_atD [OF assms(1)]
  from True A(1) have pl: "pl p = Sending \<or> pl p = Waiting" by (simp add: lifecycle_def)
  then obtain r where r: "reqs s p = Some r" using lifecycle_live [OF A(1), of p] by auto
  note f = http_at_flags [OF assms(1) r]
  define r' where "r' = OnCompleted (r\<lparr>completed := True, in_retry_wait := False\<rparr>)"
  have f': "flags_ok Finished r'" "curl r' = curl r" "handle_id r' = handle_id r"
    using f pl by (auto simp: flags_ok_def r'_def OnCompleted_def)
  show ?thesis
  proof (cases "pl p = Waiting")
    case W: True
    then have w: "in_retry_wait r" using f by (simp add: flags_ok_def)
    show ?thesis unfolding cancel_request_def finish_def
      by (simp add: True r w r'_def [symmetric], intro exI, rule http_at_give_up [OF assms(1) r W f'])
        (use A(4) assms(2,3) in \<open>simp_all add: counters_ok_def awake_def stop_timer_fst\<close>)
  next
    case False
    with pl have S: "pl p = Sending" by simp
    then have w: "\<not> in_retry_wait r" using f by (simp add: flags_ok_def)
    show ?thesis unfolding cancel_request_def finish_def
      by (simp add: True r w r'_def [symmetric], intro exI, rule http_at_finish [OF assms(1) r S f'])
        (use A(4) assms(2,3) http_at_sending(2) [OF assms(1) r S] in \<open>simp_all add: counters_ok_def awake_def\<close>)
  qed
qed

lemma wp_OnAsyncCancel:
  assumes "http_at pl False L C s"
  shows "wp OnAsyncCancel (\<lambda>_ s'. \<exists>pl'. http_at pl' False L C s') s"
proof -
  define s0 where "s0 = s\<lparr>async_cancel := False\<rparr>"
  have s0: "http_at pl True L C s0" using http_atD [OF assms] by (simp add: s0_def http_at_def counters_ok_def)
  have a: "queue (pending_queue s) \<noteq> [] \<longrightarrow> async_add s" using http_atD(5) [OF assms] by (simp add: awake_def)
  define I where "I = (\<lambda>items t. (\<exists>pl'. http_at pl' True L C t) \<and> queue (cancel_queue t) = items
    \<and> pending_queue t = pending_queue s \<and> async_add t = async_add s)"
  have "wp (for_each (\<lambda>item. seq (modify (cancel_queue_update pop_next)) (\<lambda>_. cancel_request item)) (queue (cancel_queue s0)))
      (\<lambda>_ s'. \<exists>pl'. http_at pl' False L C s') s0"
  proof (rule wp_for_each [where I = I])
    show "I (queue (cancel_queue s0)) s0" using s0 by (auto simp: I_def s0_def)
    show "\<exists>pl'. http_at pl' False L C t" if "I [] t" for t
      using that a by (auto simp: I_def http_at_def awake_def)
    fix p rest t
    assume "I (p # rest) t"
    then obtain pl' where t: "http_at pl' True L C t" "queue (cancel_queue t) = p # rest" "pending_queue t = pending_queue s"
      "async_add t = async_add s" by (auto simp: I_def)
    have "queue_ok (pop_next (cancel_queue t))" using http_atD(4) [OF t(1)] by (simp add: counters_ok_def)
    from wp_cancel_request [OF t(1) _ this, of p] t(2-4)
    show "wp (seq (modify (cancel_queue_update pop_next)) (\<lambda>_. cancel_request p)) (\<lambda>_. I rest) t"
      unfolding wp_seq wp_modify pop_cancel [of pop_next t] by (auto simp: I_def elim!: wp_mono)
  qed
  then show ?thesis by (simp add: OnAsyncCancel_def s0_def drain_each_def wp_def)
qed

lemma retry_bound:
  fixes n m :: i32
  assumes "sint n < sint m" "0 \<le> sint n"
  shows "sint (n + 1) = sint n + 1"
proof -
  have "sint m < 2 ^ 31" using sint_less [of m] by simp
  with assms have "0 \<le> sint n + 1" "sint n + 1 < 2 ^ 31" by simp_all
  then have "signed_take_bit 31 (sint n + 1) = sint n + 1" by (intro signed_take_bit_int_eq_self) simp_all
  then show ?thesis by (simp add: sint_word_ariths(1))
qed

lemma wp_retry_delay:
  assumes "0 \<le> sint (retry_max_delay_ms r)" "\<And>delay. Q delay s"
  shows "wp (retry_delay env r) Q s"
  using assms by (auto simp: retry_delay_def Let_def split: option.split)

lemma wp_parse_body:
  assumes "\<And>n. Q n s"
  shows "wp (parse_body env mode body) Q s"
  using assms by (auto simp: parse_body_def split: outcome.split)

lemma ShouldRetry_more:
  "ShouldRetry httpcode r \<Longrightarrow> max_retries r \<noteq> 0 \<and> \<not> handle_closed r \<and> (0 < sint (max_retries r) \<longrightarrow> sint (retry_count r) < sint (max_retries r))"
  by (auto simp: ShouldRetry_def split: if_splits)

lemma flags_retry:
  assumes "flags_ok Sending r" "ShouldRetry httpcode r" "control r = control r0"
  shows "flags_ok Waiting (PrepareForRetry r)"
  using assms(1) ShouldRetry_more [OF assms(2)] retry_bound [of "retry_count r" "max_retries r"]
  by (auto simp: flags_ok_def PrepareForRetry_def)

lemma same_req: "reqs s p = Some r \<Longrightarrow> s\<lparr>reqs := (reqs s)(p \<mapsto> r)\<rparr> = s"
  by (cases s) (simp add: fun_upd_idem)

lemma wp_parse_response:
  assumes "reqs s p = Some r" "\<And>r'. control r' = control r \<Longrightarrow> Q () (s\<lparr>reqs := (reqs s)(p \<mapsto> r')\<rparr>)"
  shows "wp (parse_response env p) Q s"
proof -
  have "Q () s" using assms(2) [of r] same_req [OF assms(1)] by simp
  with assms show ?thesis
    by (auto simp: parse_response_def control_def intro!: wp_parse_body)
qed

lemma http_at_wait:
  assumes "http_at pl D L C s" "reqs s p = Some r" "pl p = Sending" "flags_ok Waiting r'" "curl r' = curl r" "handle_id r' = handle_id r"
    and t: "reqs t = (reqs s)(p \<mapsto> r')" "pending_queue t = pending_queue s" "map fst (retry_timers t) = map fst (retry_timers s) @ [p]"
    "active_http_requests t = active_http_requests s" "done_queue t = done_queue s" "multi t = multi s - {curl r}"
    "info_private t = info_private s" "g_curl_pool t = g_curl_pool s" "g_curl_outstanding t = g_curl_outstanding s"
    "jsons t = jsons s" "handles t = handles s" "counters_ok t" "D \<or> awake t"
  shows "http_at (pl(p := Waiting)) D L C t"
proof -
  note A = http_atD [OF assms(1)]
  have "info_private s (curl r) = Some p" using curlsD(2) [OF A(2) assms(2)] assms(3) by simp
  with lifecycle_wait [OF A(1) assms(3,4)] curls_move [OF A(2) assms(2,5) refl, of Waiting "info_private s"]
    handles_same [OF A(3) assms(2,6)] t
  show ?thesis by (intro http_atI) simp_all
qed

lemma wp_complete_job:
  assumes "http_at pl D L C s" "easy \<in> multi s"
  shows "wp (complete_job env (easy, result)) (\<lambda>_ s'. (\<exists>pl'. http_at pl' D L C s') \<and> multi s' = multi s - {easy}) s"
proof -
  note A = http_atD [OF assms(1)]
  from assms(2) obtain p r where r: "reqs s p = Some r" "pl p = Sending" "curl r = easy"
    unfolding curlsD(1) [OF A(2)] by (auto simp: sending_def)
  note f = http_at_flags [OF assms(1) r(1)]
  have priv: "info_private s easy = Some p" using curlsD(2) [OF A(2) r(1)] r(2,3) by simp
  note sending = http_at_sending(2) [OF assms(1) r(1,2), unfolded r(3)]
  define r1 where "r1 = r\<lparr>curlcode := result\<rparr>"
  have c1: "control r1 = control r" by (simp add: r1_def control_def)
  have f1: "flags_ok Sending r1" using f r(2) control_flags [OF c1] by simp
  show ?thesis
  proof (cases "ShouldRetry (response_code s easy) r1")
    case True
    define r2 where "r2 = PrepareForRetry r1"
    have f2: "flags_ok Waiting r2" "curl r2 = curl r" "handle_id r2 = handle_id r" "0 \<le> sint (retry_max_delay_ms r2)"
      using flags_retry [OF f1 True c1] f1 by (simp_all add: r2_def PrepareForRetry_def r1_def flags_ok_def)
    show ?thesis unfolding complete_job_def schedule_retry_def
      by (simp add: priv r(1,3) r1_def [symmetric] True r2_def [symmetric], rule wp_retry_delay [OF f2(4)],
          simp, intro exI conjI, rule http_at_wait [OF assms(1) r(1,2) f2(1-3)])
        (use A(4,5) sending in \<open>simp_all add: counters_ok_def awake_def r(3)\<close>)
  next
    case False
    have fin: "flags_ok Finished (OnCompleted (r2\<lparr>completed := True\<rparr>))" "curl (OnCompleted (r2\<lparr>completed := True\<rparr>)) = curl r"
      "handle_id (OnCompleted (r2\<lparr>completed := True\<rparr>)) = handle_id r" if "control r2 = control r1" for r2
      using f1 that unfolding control_flags [OF that, symmetric] by (auto simp: flags_ok_def OnCompleted_def control_def r1_def)
    show ?thesis unfolding complete_job_def finish_def
      apply (simp add: priv r(1,3) r1_def [symmetric] False)
      apply (rule wp_parse_response)
       apply simp
      subgoal for r2
        by (simp, intro exI conjI, rule http_at_finish [OF assms(1) r(1,2) fin])
          (use A(4,5) sending in \<open>simp_all add: counters_ok_def awake_def r(3)\<close>)
      done
  qed
qed

lemma wp_CheckCompletedJobs:
  assumes "http_at pl D L C s" "distinct (map fst messages)" "fst ` set messages \<subseteq> multi s"
  shows "wp (CheckCompletedJobs env messages) (\<lambda>_ s'. \<exists>pl'. http_at pl' D L C s') s"
  unfolding CheckCompletedJobs_def
proof (rule wp_for_each [where I = "\<lambda>ms t. (\<exists>pl'. http_at pl' D L C t) \<and> distinct (map fst ms) \<and> fst ` set ms \<subseteq> multi t"])
  fix m :: "CURL \<times> i32" and ms t
  assume "(\<exists>pl'. http_at pl' D L C t) \<and> distinct (map fst (m # ms)) \<and> fst ` set (m # ms) \<subseteq> multi t"
  then obtain pl' where "http_at pl' D L C t" "fst m \<in> multi t" "distinct (map fst ms)" "fst ` set ms \<subseteq> multi t - {fst m}"
    by auto
  with wp_complete_job [OF this(1,2), of env "snd m"]
  show "wp (complete_job env m) (\<lambda>_ t. (\<exists>pl'. http_at pl' D L C t) \<and> distinct (map fst ms) \<and> fst ` set ms \<subseteq> multi t) t"
    by (auto elim!: wp_mono)
qed (use assms in auto)

lemma http_at_resend:
  assumes "http_at pl D L C s" "reqs s p = Some r" "pl p = Waiting" "flags_ok Sending r'" "curl r' = curl r" "handle_id r' = handle_id r"
    and t: "reqs t = (reqs s)(p \<mapsto> r')" "pending_queue t = pending_queue s" "map fst (retry_timers t) = remove1 p (map fst (retry_timers s))"
    "active_http_requests t = active_http_requests s" "done_queue t = done_queue s" "multi t = insert (curl r) (multi s)"
    "info_private t = info_private s" "g_curl_pool t = g_curl_pool s" "g_curl_outstanding t = g_curl_outstanding s"
    "jsons t = jsons s" "handles t = handles s" "counters_ok t" "D \<or> awake t"
  shows "http_at (pl(p := Sending)) D L C t"
proof -
  note A = http_atD [OF assms(1)]
  have "info_private s (curl r) = Some p" using curlsD(2) [OF A(2) assms(2)] assms(3) by simp
  with lifecycle_resend [OF A(1) assms(3,4)] curls_move [OF A(2) assms(2,5) refl, of Sending "info_private s"]
    handles_same [OF A(3) assms(2,6)] t
  show ?thesis by (intro http_atI) simp_all
qed

lemma remove1_timer: "distinct (map fst ts) \<Longrightarrow> t \<in> set ts \<Longrightarrow> map fst (remove1 t ts) = remove1 (fst t) (map fst ts)"
  by (induction ts) (auto simp: rev_image_eqI)

lemma wp_OnRetryTimer:
  assumes "http_at pl D L C s" "timer \<in> set (retry_timers s)"
  shows "wp (OnRetryTimer timer) (\<lambda>_ s'. \<exists>pl'. http_at pl' D L C s') s"
proof -
  note A = http_atD [OF assms(1)]
  define p where "p = fst timer"
  have d: "distinct (map fst (retry_timers s))" using A(1) by (simp add: lifecycle_def)
  have W: "pl p = Waiting" using A(1) assms(2) unfolding lifecycle_def p_def by (metis image_eqI list.set_map mem_at)
  then obtain r where r: "reqs s p = Some r" using lifecycle_live [OF A(1), of p] by auto
  note f = http_at_flags [OF assms(1) r]
  then have nc: "\<not> completed r" using W by (simp add: flags_ok_def)
  note timers = remove1_timer [OF d assms(2), folded p_def]
  show ?thesis
  proof (cases "handle_closed r")
    case True
    define r' where "r' = OnCompleted (r\<lparr>in_retry_wait := False, completed := True\<rparr>)"
    have f': "flags_ok Finished r'" "curl r' = curl r" "handle_id r' = handle_id r"
      using f W by (auto simp: flags_ok_def r'_def OnCompleted_def)
    show ?thesis unfolding OnRetryTimer_def finish_def p_def [symmetric]
      by (simp add: r nc True, intro exI, rule http_at_give_up [OF assms(1) r W f'])
        (use A(4,5) timers in \<open>simp_all add: counters_ok_def awake_def r'_def\<close>)
  next
    case False
    define r' where "r' = r\<lparr>in_retry_wait := False, built_headers := BuildHeaderSlist (req_headers r) (auto_headers r)\<rparr>"
    have f': "flags_ok Sending r'" "curl r' = curl r" "handle_id r' = handle_id r"
      using f W nc False by (auto simp: flags_ok_def r'_def)
    have new: "curl r \<notin> multi s" using sending_in [OF A(2) r] W by simp
    show ?thesis unfolding OnRetryTimer_def p_def [symmetric]
      by (simp add: r nc False, intro conjI impI; intro exI, rule http_at_resend [OF assms(1) r W f'])
        (use A(4,5) timers new finite_multi [OF assms(1)] in \<open>simp_all add: counters_ok_def awake_def r'_def\<close>)
  qed
qed

text \<open>What arrives from curl for a request.\<close>

lemma wp_OnReceiveData:
  assumes "http_at pl D L C s" "reqs s p = Some r"
  shows "wp (OnReceiveData p contents) (\<lambda>_. http_at pl D L C) s"
  using assms by (auto simp: OnReceiveData_def control_def intro: http_at_control)

lemma wp_OnReceiveHeaders:
  assumes "http_at pl D L C s" "reqs s p = Some r"
  shows "wp (OnReceiveHeaders p buffer) (\<lambda>_. http_at pl D L C) s"
  using assms by (auto simp: OnReceiveHeaders_def Let_def control_def intro: http_at_control)

end
