(* ===== verification/Http_Calls.thy ===== *)
theory Http_Calls
  imports Http_Steps
begin

text \<open>
  The natives of \<open>Http_Natives\<close> and the callbacks of the game thread keep the invariant of
  \<open>Http_Invariant\<close>, for scripts that are \<open>mindful\<close>: that do not close or execute again the request whose
  callback is running, that do not pass a request where a tree is expected, and that pass no negative
  length and no negative delay.  What happens otherwise is shown in \<open>Http_Safety\<close>.
\<close>

section \<open>Handles\<close>

lemma http_handle:
  assumes "http_at pl D L C s" "GetHttpRequest i (handles s) = Some p"
  shows "\<exists>r. reqs s p = Some r \<and> handle_id r = i"
proof -
  from GetHandle_Some [of HANDLE_HTTP_REQUEST i "handles s" p] assms(2) obtain h where
    "used (handles s) i = Some h" "htype h = HANDLE_HTTP_REQUEST" "pointer h = p" by (auto simp: GetHttpRequest_def)
  with handles_okD(2) [OF http_atD(3) [OF assms(1)]] show ?thesis by blast
qed

lemma drop_unused:
  assumes "used (handles s) i = None"
  shows "wp (drop_handle i) Q s = Q () s"
proof -
  have f: "FreeHandle i (handles s) = handles s" using assms by (simp add: FreeHandle_def)
  then have u: "handles_update (FreeHandle i) s = s" by (cases s) simp
  show ?thesis unfolding drop_handle_def wp_seq wp_get wp_modify u f by simp
qed

lemma drop_used:
  assumes "hm_ok (handles s)" "used (handles s) i = Some h"
  shows "hm_ok (FreeHandle i (handles s))" "used (FreeHandle i (handles s)) = (used (handles s))(i := None)"
    "drop (length (deleted (handles s))) (deleted (FreeHandle i (handles s)))
      = (if htype h = HANDLE_NONE then [] else [(htype h, pointer h)])"
  using FreeHandle_refines [OF assms(1), of i] FreeHandle_deleted [OF assms(2)]
  by (auto simp: FreeHandle_def assms(2) Let_def DeleteHandlePointer_def split: option.splits)

lemma http_at_drop:
  assumes "http_at pl D L C s" "reqs s p = Some r" "pl p = Idle \<or> pl p = Completing"
    and t: "reqs t = (reqs s)(p := None)" "pending_queue t = pending_queue s" "retry_timers t = retry_timers s"
    "active_http_requests t = active_http_requests s" "done_queue t = done_queue s" "multi t = multi s"
    "info_private t = (info_private s)(curl r := None)" "g_curl_pool t = g_curl_pool s \<or> g_curl_pool t = g_curl_pool s @ [curl r]"
    "g_curl_outstanding t = g_curl_outstanding s - 1" "handles_ok (reqs t) (jsons t) (handles t)" "counters_ok t" "D \<or> awake t"
  shows "http_at (pl(p := Gone)) D L (C - {p}) t"
proof -
  note A = http_atD [OF assms(1)]
  from assms(3) have "pl p \<noteq> Sending" by auto
  with lifecycle_drop [OF A(1) assms(3)] curls_drop [OF A(2) assms(2) _ t(8), of "(info_private s)(curl r := None)"] t
  show ?thesis by (intro http_atI) simp_all
qed

lemma wp_drop_request:
  assumes "http_at pl D L C s" "reqs s p = Some r" "pl p = Idle \<or> pl p = Completing"
  shows "wp (drop_handle (handle_id r)) (\<lambda>_. http_at (pl(p := Gone)) D L (C - {p})) s"
proof -
  note A = http_atD [OF assms(1)]
  from handles_okD(3) [OF A(3) assms(2)] obtain h where h: "used (handles s) (handle_id r) = Some h"
    "htype h = HANDLE_HTTP_REQUEST" "pointer h = p" by blast
  note U = drop_used [OF handles_okD(1) [OF A(3)] h(1)]
  have ok: "handles_ok ((reqs s)(p := None)) (jsons s) (FreeHandle (handle_id r) (handles s))"
    by (rule handles_drop [OF A(3) h(1) U(1,2)]) (simp_all add: h(2,3))
  show ?thesis
    by (simp add: drop_handle_def U(3) h(2,3) delete_pointer_def HttpRequest_delete_def ReleaseCurl_def curl_easy_reset_def
        curl_easy_cleanup_def assms(2), intro conjI impI; rule http_at_drop [OF assms])
      (use A(4,5) ok in \<open>simp_all add: counters_ok_def awake_def\<close>)
qed

lemma wp_drop_other:
  assumes "http_at pl D L C s" "\<And>h. used (handles s) i = Some h \<Longrightarrow> htype h \<noteq> HANDLE_HTTP_REQUEST"
  shows "wp (drop_handle i) (\<lambda>_. http_at pl D L C) s"
proof (cases "used (handles s) i")
  case None
  with assms(1) show ?thesis by (simp add: drop_unused)
next
  case (Some h)
  note A = http_atD [OF assms(1)]
  note U = drop_used [OF handles_okD(1) [OF A(3)] Some]
  have "handles_ok (reqs s) (if htype h = HANDLE_JSON_VALUE then (jsons s)(pointer h := None) else jsons s) (FreeHandle i (handles s))"
    by (rule handles_drop [OF A(3) Some U(1,2)]) (simp_all add: assms(2) [OF Some])
  with A assms(2) [OF Some] show ?thesis
    by (cases "htype h") (auto simp: drop_handle_def U(3) delete_pointer_def counters_ok_def awake_def intro!: http_atI)
qed

section \<open>Scripts\<close>

text \<open>What is asked of the allocators: an object or a curl handle that is given out is not in use.\<close>

definition env_ok :: "HttpEnv \<Rightarrow> bool" where
  "env_ok env \<longleftrightarrow>
     (\<forall>s. finite (dom (reqs s)) \<longrightarrow> finite (dom (jsons s)) \<longrightarrow> reqs s (malloc env s) = None \<and> jsons s (malloc env s) = None)
     \<and> (\<forall>s c. curl_easy_init env s = Some c \<longrightarrow> c \<notin> set (g_curl_pool s) \<and> (\<forall>p r. reqs s p = Some r \<longrightarrow> curl r \<noteq> c))"

text \<open>What is asked of scripts, by the name of the native.\<close>

definition mindful :: "string \<Rightarrow> i32 list \<Rightarrow> World \<Rightarrow> bool" where
  "mindful name params s \<longleftrightarrow>
     (name \<in> {''async2_HttpClose'', ''async2_HttpExecute''} \<longrightarrow>
        (case GetHttpRequest (params ! 1) (handles s) of None \<Rightarrow> True
         | Some p \<Rightarrow> (case reqs s p of None \<Rightarrow> True | Some r \<Rightarrow> completed r \<longrightarrow> in_event_thread r)))
     \<and> (name \<in> {''async2_SetBodyJSON'', ''async2_SetBodyMsgPack''} \<longrightarrow>
        (case used (handles s) (params ! 2) of None \<Rightarrow> True | Some h \<Rightarrow> htype h \<noteq> HANDLE_HTTP_REQUEST))
     \<and> (name = ''async2_SetRetry'' \<longrightarrow> 5 \<le> sint (params ! 0) \<longrightarrow> 0 \<le> sint (params ! 5))
     \<and> (name = ''async2_SetBody'' \<longrightarrow> 0 \<le> sint (params ! 3))"

definition keeps_http :: "HttpEnv \<Rightarrow> string \<Rightarrow> http_native \<Rightarrow> bool" where
  "keeps_http env name f \<longleftrightarrow> (\<forall>pl D L C s ctx params. http_at pl D L C s \<longrightarrow> mindful name params s \<longrightarrow>
     wp (f env ctx params) (\<lambda>_ s'. \<exists>pl'. http_at pl' D L C s') s)"

lemma mindful_iff:
  "mindful name params s \<longleftrightarrow>
     (name \<in> {''async2_HttpClose'', ''async2_HttpExecute''} \<longrightarrow>
        (\<forall>p r. GetHttpRequest (params ! 1) (handles s) = Some p \<longrightarrow> reqs s p = Some r \<longrightarrow> completed r \<longrightarrow> in_event_thread r))
     \<and> (name \<in> {''async2_SetBodyJSON'', ''async2_SetBodyMsgPack''} \<longrightarrow>
        (\<forall>h. used (handles s) (params ! 2) = Some h \<longrightarrow> htype h \<noteq> HANDLE_HTTP_REQUEST))
     \<and> (name = ''async2_SetRetry'' \<longrightarrow> 5 \<le> sint (params ! 0) \<longrightarrow> 0 \<le> sint (params ! 5))
     \<and> (name = ''async2_SetBody'' \<longrightarrow> 0 \<le> sint (params ! 3))"
  by (simp add: mindful_def split: option.split)

lemma keeps_httpI:
  "(\<And>pl D L C s ctx params. http_at pl D L C s \<Longrightarrow> mindful name params s \<Longrightarrow>
     wp (f env ctx params) (\<lambda>_ s'. \<exists>pl'. http_at pl' D L C s') s) \<Longrightarrow> keeps_http env name f"
  by (simp add: keeps_http_def)

section \<open>Rules for natives\<close>

lemma wp_string_arg [simp]: "wp (string_arg ctx a) Q s \<longleftrightarrow> (\<forall>str. LocalToString ctx a = Some str \<longrightarrow> Q (c_str str) s)"
  by (simp add: string_arg_def split: option.split)

lemma wp_write_out [simp]: "wp (write_out w) Q = (\<lambda>s. Q () (out_update (\<lambda>ws. ws @ [w]) s))"
  by (simp add: write_out_def)

lemma wp_somewhere: "wp m (\<lambda>_. http_at pl D L C) s \<Longrightarrow> wp m (\<lambda>_ s'. \<exists>pl'. http_at pl' D L C s') s"
  by (erule wp_mono) blast

lemma wp_found:
  assumes "http_at pl D L C s" "GetHttpRequest i (handles s) = None \<Longrightarrow> wp a Q s"
    and "\<And>p r. GetHttpRequest i (handles s) = Some p \<Longrightarrow> reqs s p = Some r \<Longrightarrow> handle_id r = i \<Longrightarrow> wp (f p) Q s"
  shows "wp (case GetHttpRequest i (handles s) of None \<Rightarrow> a | Some p \<Rightarrow> f p) Q s"
  using assms(2,3) http_handle [OF assms(1), of i] by (cases "GetHttpRequest i (handles s)") auto

lemma wp_with_request:
  assumes "http_at pl D L C s" "Q 2 s"
    and "\<And>p r. GetHttpRequest (params ! 1) (handles s) = Some p \<Longrightarrow> reqs s p = Some r \<Longrightarrow> handle_id r = params ! 1 \<Longrightarrow>
      \<not> in_event_thread r \<Longrightarrow> wp (f p) Q s"
  shows "wp (with_request params f) Q s"
  unfolding with_request_def wp_seq wp_get by (rule wp_found [OF assms(1)]) (simp_all add: assms(2,3))

lemma game_place: "flags_ok x r \<Longrightarrow> \<not> in_event_thread r \<Longrightarrow> x = Idle \<or> x = Completing"
  by (cases x) (auto simp: flags_ok_def)

lemma wp_configure:
  assumes "http_at pl D L C s" "\<And>r. control (f r) = control r"
  shows "wp (configure params f) (\<lambda>_ s'. \<exists>pl'. http_at pl' D L C s') s"
  unfolding configure_def
proof (rule wp_with_request [OF assms(1)])
  show "\<exists>pl'. http_at pl' D L C s" using assms(1) by blast
  fix p r
  assume "reqs s p = Some r"
  with http_at_control [OF assms(1) this assms(2)]
  show "wp (seq (req_update p f) (\<lambda>_. ret 0)) (\<lambda>_ s'. \<exists>pl'. http_at pl' D L C s') s" by auto
qed

text \<open>A native that configures the request it is called with, or reads it.\<close>

lemma keeps_request:
  assumes "\<And>pl D L C s ctx params p r. http_at pl D L C s \<Longrightarrow> mindful name params s \<Longrightarrow> flags_ok (pl p) r \<Longrightarrow> \<not> in_event_thread r \<Longrightarrow>
      reqs s p = Some r \<Longrightarrow> GetHttpRequest (params ! 1) (handles s) = Some p \<Longrightarrow>
      wp (g env ctx params p) (\<lambda>_ s'. \<exists>pl'. http_at pl' D L C s') s"
  shows "keeps_http env name (\<lambda>env ctx params. with_request params (g env ctx params))"
  using assms http_at_flags by (intro keeps_httpI wp_with_request) blast+

named_theorems kept

lemma configure_natives [kept]:
  "keeps_http env name Native_SetCompression" "keeps_http env name Native_ClearHeaders"
  unfolding keeps_http_def Native_SetCompression_def Native_ClearHeaders_def
  by (auto intro!: wp_configure simp: control_def)

lemma body_control [simp]:
  "control (SetBody bytes r) = control r" "control (SetBodyNode n fmt r) = control r"
  "control (r\<lparr>req_headers := h\<rparr>) = control r" "control (r\<lparr>parse_mode := m\<rparr>) = control r"
  "control (r\<lparr>client_index := c\<rparr>) = control r" "control (r\<lparr>req_method := me\<rparr>) = control r"
  "control (r\<lparr>callback_id := c\<rparr>) = control r" "control (r\<lparr>response_node := rn\<rparr>) = control r"
  "control (r\<lparr>curlcode := cc\<rparr>) = control r"
  by (simp_all add: control_def SetBody_def SetBodyNode_def Let_def)

lemma wp_control:
  assumes "http_at pl D L C s" "reqs s p = Some r" "control (f r) = control r"
    and "\<And>s'. http_at pl D L C s' \<Longrightarrow> reqs s' = (reqs s)(p \<mapsto> f r) \<Longrightarrow> handles s' = handles s \<Longrightarrow> jsons s' = jsons s \<Longrightarrow> Q () s'"
  shows "wp (req_update p f) Q s"
  using assms(4) [OF http_at_control [OF assms(1,2,3)]] assms(2) by simp

lemma wp_Track:
  assumes "\<And>f. Q () (g_client_handles_update f s)"
  shows "wp (TrackClientHandle c i) Q s" "wp (UntrackClientHandle c i) Q s"
proof -
  have "g_client_handles_update (\<lambda>m. m) s = s" by simp
  with assms [of "\<lambda>m. m"] have "Q () s" by simp
  with assms show "wp (TrackClientHandle c i) Q s" "wp (UntrackClientHandle c i) Q s"
    by (simp_all add: TrackClientHandle_def UntrackClientHandle_def)
qed

lemma keeps_body [kept]:
  "keeps_http env ''async2_SetBody'' Native_SetBody" "keeps_http env name Native_SetBodyString"
  unfolding Native_SetBody_def Native_SetBodyString_def
  by (rule keeps_request, auto simp: mindful_iff split: option.split intro!: exI http_at_control)+

lemma keeps_headers [kept]:
  "keeps_http env name Native_SetHeader" "keeps_http env name Native_RemoveHeader" "keeps_http env name Native_SetResponseType"
  unfolding Native_SetHeader_def Native_RemoveHeader_def Native_SetResponseType_def
  by (rule keeps_request, auto intro!: exI http_at_control)+

lemma keeps_getters [kept]:
  "keeps_http env name Native_GetString" "keeps_http env name Native_GetRawData" "keeps_http env name Native_GetResponseLength"
  "keeps_http env name Native_GetResponseHeader" "keeps_http env name Native_GetResponseHeaderLength"
  unfolding Native_GetString_def Native_GetRawData_def Native_GetResponseLength_def Native_GetResponseHeader_def
    Native_GetResponseHeaderLength_def FindResponseHeader_def
  by (rule keeps_request, auto simp: Let_def split: option.split)+

lemma keeps_statistics [kept]:
  "keeps_http env name Native_GetRetryCount" "keeps_http env name Native_GetHttpPoolStats" "keeps_http env name Native_SetLogLevel"
proof -
  show "keeps_http env name Native_GetRetryCount"
    by (rule keeps_httpI, unfold Native_GetRetryCount_def wp_seq wp_get, rule wp_found, assumption) auto
  show "keeps_http env name Native_GetHttpPoolStats" "keeps_http env name Native_SetLogLevel"
    by (rule keeps_httpI; auto simp: Native_GetHttpPoolStats_def Native_SetLogLevel_def)+
qed

lemma keeps_SetOwner [kept]: "keeps_http env name Native_SetOwner"
  unfolding Native_SetOwner_def by (rule keeps_request) (auto intro!: wp_Track, rule exI, rule http_at_control, auto)

lemma keeps_SetRetry [kept]: "keeps_http env ''async2_SetRetry'' Native_SetRetry"
  unfolding Native_SetRetry_def configure_def
  by (rule keeps_request) (auto simp: Let_def mindful_iff flags_ok_def intro!: exI http_at_req)

text \<open>Closing a request: a live one is marked, any other is freed.\<close>

lemma wp_mark_closed:
  assumes "http_at pl D L C s" "reqs s p = Some r" "in_event_thread r"
  shows "wp (close_request i p) (\<lambda>_. http_at pl D L C) s"
proof -
  have f: "flags_ok (pl p) (handle_closed_update (\<lambda>_. True) r)" using http_at_flags [OF assms(1,2)] assms(3) by (auto simp: flags_ok_def)
  define s' where "s' = s\<lparr>reqs := (reqs s)(p \<mapsto> handle_closed_update (\<lambda>_. True) r)\<rparr>"
  from http_at_req [OF assms(1,2) f] have "http_at pl D L C s'" by (simp add: s'_def)
  note A = http_atD [OF this]
  have "http_at pl D L C (handles_update (MarkHandleClosed i) s')"
    using A(1,2,4,5) handles_mark [OF A(3), of i] by (intro http_atI) (simp_all add: counters_ok_def awake_def)
  from wp_CancelRequest [OF this, of p] assms(2,3) show ?thesis by (simp add: close_request_def s'_def)
qed

lemma wp_close_request:
  assumes "http_at pl D L C s" "reqs s p = Some r" "handle_id r = i" "pl p \<noteq> Completing"
  shows "wp (close_request i p) (\<lambda>_ s'. \<exists>pl'. http_at pl' D L C s') s"
proof (cases "in_event_thread r")
  case True
  with wp_mark_closed [OF assms(1,2)] show ?thesis by (intro wp_somewhere)
next
  case False
  with game_place [OF http_at_flags [OF assms(1,2)]] assms(4) have i: "pl p = Idle" by simp
  then have "p \<notin> C" using http_atD(1) [OF assms(1)] by (auto simp: lifecycle_def at_def)
  with wp_somewhere [OF wp_drop_request [OF assms(1,2)]] i False assms(2,3) show ?thesis by (simp add: close_request_def)
qed

lemma not_completing:
  "http_at pl D L C s \<Longrightarrow> reqs s p = Some r \<Longrightarrow> completed r \<longrightarrow> in_event_thread r \<Longrightarrow> pl p \<noteq> Completing"
  using http_at_flags [of pl D L C s p r] by (auto simp: flags_ok_def)

lemma keeps_HttpClose [kept]: "keeps_http env ''async2_HttpClose'' Native_HttpClose"
  unfolding Native_HttpClose_def wp_seq wp_get keeps_http_def
proof (intro allI impI, rule wp_found)
  fix pl D L C s ctx params p r
  assume A: "http_at pl D L C s" "mindful ''async2_HttpClose'' params s" "GetHttpRequest (params ! 1) (handles s) = Some p"
    "reqs s p = Some r" "handle_id r = params ! 1"
  then have n: "pl p \<noteq> Completing" using not_completing [OF A(1,4)] by (simp add: mindful_iff)
  show "wp (seq (req_at p) (\<lambda>r. seq (UntrackClientHandle (client_index r) (handle_id r)) (\<lambda>_.
      seq (close_request (params ! 1) p) (\<lambda>_. ret 0)))) (\<lambda>_ s'. \<exists>pl'. http_at pl' D L C s') s"
    by (simp add: A(4), rule wp_Track, rule wp_close_request [where pl = pl and p = p]) (use A n in simp_all)
qed auto

lemma keeps_HttpExecute [kept]: "keeps_http env ''async2_HttpExecute'' Native_HttpExecute"
  unfolding Native_HttpExecute_def
proof (rule keeps_request)
  fix pl D L C s ctx params p r
  assume A: "http_at pl D L C s" "mindful ''async2_HttpExecute'' params s" "flags_ok (pl p) r" "\<not> in_event_thread r"
    "reqs s p = Some r" "GetHttpRequest (params ! 1) (handles s) = Some p"
  then have i: "pl p = Idle" using not_completing [OF A(1,5)] game_place [OF A(3,4)] by (simp add: mindful_iff)
  have h: "http_at pl D L C (t\<lparr>reqs := (reqs s)(p \<mapsto> r')\<rparr>)" if "http_at pl D L C t" "reqs t = reqs s" "control r' = control r" for t r'
    using http_at_control [OF that(1) _ that(3)] A(5) that(2) by simp
  have "wp (EnqueueRequest p) (\<lambda>_ s'. \<exists>pl'. http_at pl' D L C s') t" if "http_at pl D L C t" "reqs t p = Some r'" for t r'
    using wp_somewhere [OF wp_EnqueueRequest [OF that i]] .
  then show "wp (seq (string_arg ctx (params ! 2)) (\<lambda>meth.
     seq (string_arg ctx (params ! 3)) (\<lambda>url.
     seq (req_update p (\<lambda>r. r\<lparr>req_method := map toupper meth\<rparr>)) (\<lambda>_.
     seq (req_at p) (\<lambda>r.
     seq (setopt (curl r) (OptUrl url)) (\<lambda>_.
     seq (setopt (curl r) (OptCustomRequest (req_method r))) (\<lambda>_.
     seq (if post_body r \<noteq> [] \<or> body_node r \<noteq> None then setopt (curl r) OptPost else ret ()) (\<lambda>_.
     seq (req_update p (callback_id_update (\<lambda>_. params ! 4))) (\<lambda>_.
     seq (EnqueueRequest p) (\<lambda>_. ret 0))))))))))
       (\<lambda>_ s'. \<exists>pl'. http_at pl' D L C s') s"
    using A(1,5) by (simp add: h)
qed

text \<open>A body given as a tree: the tree is copied, and its handle is freed.\<close>

lemma tree_handle:
  assumes "http_at pl D L C s" "GetDataHandle i (handles s) = Some j"
  shows "\<exists>n. jsons s j = Some n"
proof -
  from GetHandle_Some [of HANDLE_JSON_VALUE i "handles s" j] assms(2) obtain h where
    "used (handles s) i = Some h" "htype h = HANDLE_JSON_VALUE" "pointer h = j" by (auto simp: GetDataHandle_def)
  with handles_okD(4) [OF http_atD(3) [OF assms(1)]] show ?thesis by blast
qed

lemma wp_set_body_node:
  assumes "http_at pl D L C s" "\<And>h. used (handles s) (params ! 2) = Some h \<Longrightarrow> htype h \<noteq> HANDLE_HTTP_REQUEST"
  shows "wp (set_body_node env fmt ct params) (\<lambda>_ s'. \<exists>pl'. http_at pl' D L C s') s"
  unfolding set_body_node_def wp_seq wp_get Let_def
proof (rule wp_found [OF assms(1)])
  have drop: "wp (drop_handle (params ! 2)) (\<lambda>_ s'. \<exists>pl'. http_at pl' D L C s') t" if "http_at pl D L C t" "handles t = handles s" for t
    by (rule wp_somewhere [OF wp_drop_other [OF that(1)]]) (simp add: that(2) assms(2))
  then show "wp (seq (drop_handle (params ! 2)) (\<lambda>_. ret 2)) (\<lambda>_ s'. \<exists>pl'. http_at pl' D L C s') s" by (simp add: assms(1))
  fix p r
  assume r: "reqs s p = Some r"
  have h: "http_at pl D L C (s\<lparr>reqs := (reqs s)(p \<mapsto> r')\<rparr>)" if "control r' = control r" for r'
    using http_at_control [OF assms(1) r that] .
  show "wp (seq (req_at p) (\<lambda>r. if in_event_thread r then seq (drop_handle (params ! 2)) (\<lambda>_. ret 2)
        else seq (get (\<lambda>s. GetDataHandle (params ! 2) (handles s))) (\<lambda>json. case json of
          None \<Rightarrow> ret 2
        | Some j \<Rightarrow> seq (get (\<lambda>s. jsons s j)) (\<lambda>tree. case tree of
            None \<Rightarrow> crash Freed
          | Some n \<Rightarrow>
              seq (req_update p (SetBodyNode (DeepCopy (copy_layouts env) n) fmt)) (\<lambda>_.
              seq (req_update p (\<lambda>r. r\<lparr>req_headers := header_set ''Content-Type'' ct (req_headers r)\<rparr>)) (\<lambda>_.
              seq (drop_handle (params ! 2)) (\<lambda>_. ret 0)))))))
     (\<lambda>_ s'. \<exists>pl'. http_at pl' D L C s') s"
    using assms(1) by (auto simp: r drop h split: option.split dest: tree_handle [OF assms(1)])
qed

lemma keeps_SetBodyJSON [kept]:
  "keeps_http env ''async2_SetBodyJSON'' Native_SetBodyJSON" "keeps_http env ''async2_SetBodyMsgPack'' Native_SetBodyMsgPack"
  by (rule keeps_httpI; auto simp: Native_SetBodyJSON_def Native_SetBodyMsgPack_def mindful_iff intro!: wp_set_body_node)+

section \<open>New objects\<close>

text \<open>What \<^const>\<open>malloc\<close> returns is not in use.\<close>

lemma wp_malloc:
  assumes "env_ok env" "http_at pl D L C s" "\<And>p. reqs s p = None \<Longrightarrow> jsons s p = None \<Longrightarrow> Q p s"
  shows "wp (get (malloc env)) Q s"
  using assms(1,3) curlsD(5) [OF http_atD(2) [OF assms(2)]] http_atD(4) [OF assms(2)] by (simp add: env_ok_def counters_ok_def)

lemma wp_make_handle:
  assumes "hm_ok (handles s)"
    and "\<And>i m. i \<noteq> 0 \<Longrightarrow> hm_ok m \<Longrightarrow> used (handles s) i = None \<Longrightarrow>
      used m = (used (handles s))(i \<mapsto> \<lparr>htype = t, pointer = p, owner = Some own, closed = False\<rparr>) \<Longrightarrow> Q i (s\<lparr>handles := m\<rparr>)"
    and "\<And>m. hm_ok m \<Longrightarrow> used m = used (handles s) \<Longrightarrow> Q 0 (s\<lparr>handles := m\<rparr>)"
  shows "wp (make_handle p t own) Q s"
proof (cases rule: create_cases [OF assms(1), of p t "Some own"])
  case (1 i m')
  with assms(2) show ?thesis by (simp add: make_handle_def wp_def)
next
  case (2 m')
  with assms(3) show ?thesis by (simp add: make_handle_def wp_def)
qed

lemma wp_json_handle:
  assumes "env_ok env" "http_at pl D L C s"
  shows "wp (json_handle env c tree) (\<lambda>_ s'. http_at pl D L C s' \<and> reqs s' = reqs s) s"
proof (cases tree)
  case (Some n)
  note A = http_atD [OF assms(2)]
  have "wp (seq (modify (jsons_update (\<lambda>f. f(p \<mapsto> n)))) (\<lambda>_. seq (make_handle p HANDLE_JSON_VALUE c) (\<lambda>handle.
       if handle = 0 then seq (modify (jsons_update (\<lambda>f. f(p := None)))) (\<lambda>_. ret 0) else ret handle)))
      (\<lambda>_ s'. http_at pl D L C s' \<and> reqs s' = reqs s) s" if p: "jsons s p = None" for p
  proof (simp, rule wp_make_handle)
    fix i m
    assume m: "i \<noteq> 0" "hm_ok m" "used (handles (jsons_update (\<lambda>f. f(p \<mapsto> n)) s)) i = None"
      "used m = (used (handles (jsons_update (\<lambda>f. f(p \<mapsto> n)) s)))(i \<mapsto> \<lparr>htype = HANDLE_JSON_VALUE, pointer = p, owner = Some c, closed = False\<rparr>)"
    have "handles_ok (reqs s) ((jsons s)(p \<mapsto> n)) m" by (rule handles_new_json [OF A(3) p _ m(2)]) (use m in simp, use m in simp, simp_all)
    with m A show "wp (if i = 0 then seq (modify (jsons_update (\<lambda>f. f(p := None)))) (\<lambda>_. ret 0) else ret i)
        (\<lambda>_ s'. http_at pl D L C s' \<and> reqs s' = reqs s) ((jsons_update (\<lambda>f. f(p \<mapsto> n)) s)\<lparr>handles := m\<rparr>)"
      by (auto intro!: http_atI simp: counters_ok_def awake_def)
  next
    fix m
    assume m: "hm_ok m" "used m = used (handles (jsons_update (\<lambda>f. f(p \<mapsto> n)) s))"
    have "handles_ok (reqs s) (jsons s) m" by (rule handles_full [OF A(3)]) (use m in simp_all)
    moreover have "(jsons s)(p := None) = jsons s" using p by auto
    ultimately show "wp (if (0 :: i32) = 0 then seq (modify (jsons_update (\<lambda>f. f(p := None)))) (\<lambda>_. ret 0) else ret 0)
        (\<lambda>_ s'. http_at pl D L C s' \<and> reqs s' = reqs s) ((jsons_update (\<lambda>f. f(p \<mapsto> n)) s)\<lparr>handles := m\<rparr>)"
      using A by (auto intro!: http_atI simp: counters_ok_def awake_def)
  qed (use handles_okD(1) [OF A(3)] in simp)
  then show ?thesis
    unfolding json_handle_def Some option.case wp_seq by (intro wp_malloc [OF assms])
qed (simp add: json_handle_def assms(2))

text \<open>A curl handle for a new request: from the pool, or a new one.\<close>

definition spare :: "(obj \<Rightarrow> place) \<Rightarrow> CURL \<Rightarrow> World \<Rightarrow> bool" where
  "spare pl c s \<longleftrightarrow> 0 < g_curl_outstanding s \<and> c \<notin> set (g_curl_pool s) \<and> (\<forall>p r. reqs s p = Some r \<longrightarrow> curl r \<noteq> c)
     \<and> curls pl (reqs s) (multi s) (info_private s) (g_curl_pool s) (g_curl_outstanding s - 1)"

lemma curls_pool:
  assumes "curls pl R mul priv pool n" "set pool' \<subseteq> set pool" "distinct pool'"
  shows "curls pl R mul priv pool' n" "curls pl R mul priv pool' (Suc n)"
  using assms unfolding curls_def by auto

lemma curls_unused:
  assumes "curls pl R mul priv pool n" "c \<notin> set pool" "\<And>p r. R p = Some r \<Longrightarrow> curl r \<noteq> c" "pool' = pool \<or> pool' = pool @ [c]"
  shows "curls pl R mul (priv(c := None)) pool' n"
  using assms unfolding curls_def by auto

lemma wp_AcquireCurl:
  assumes "env_ok env" "http_at pl D L C s"
  shows "wp (AcquireCurl env) (\<lambda>c s'. http_at pl D L C s' \<and> (\<forall>c'. c = Some c' \<longrightarrow> spare pl c' s')) s"
proof (cases "g_curl_pool s" rule: rev_cases)
  case Nil
  note A = http_atD [OF assms(2)]
  from curls_pool(2) [OF A(2) subset_refl] Nil have "http_at pl D L C (g_curl_outstanding_update Suc s)"
    using A by (intro http_atI) (simp_all add: counters_ok_def awake_def)
  with Nil assms(1) A(2) show ?thesis by (auto simp: AcquireCurl_def spare_def env_ok_def)
next
  case (snoc cs c)
  note A = http_atD [OF assms(2)]
  have d: "distinct cs" "c \<notin> set cs" "set cs \<subseteq> set (g_curl_pool s)" using curlsD(3) [OF A(2)] snoc by auto
  note cs = curls_pool [OF A(2) d(3,1)]
  from cs(2) snoc have "http_at pl D L C (g_curl_pool_update butlast (g_curl_outstanding_update Suc s))"
    using A by (intro http_atI) (simp_all add: counters_ok_def awake_def)
  with snoc cs(1) d(2) curlsD(4) [OF A(2)] show ?thesis by (auto simp: AcquireCurl_def spare_def)
qed

lemma http_at_new:
  assumes "http_at pl D L C s" "spare pl c s" "reqs s p = None" "flags_ok Idle r" "curl r = c" "handle_id r = i"
    and m: "used (handles s) i = None" "hm_ok m" "used m = (used (handles s))(i \<mapsto> h)" "htype h = HANDLE_HTTP_REQUEST" "pointer h = p"
  shows "http_at (pl(p := Idle)) D L C (s\<lparr>handles := m, reqs := (reqs s)(p \<mapsto> r)\<rparr>)"
proof -
  note A = http_atD [OF assms(1)]
  have sp: "Suc (g_curl_outstanding s - 1) = g_curl_outstanding s" "c \<notin> set (g_curl_pool s)" "\<And>q r. reqs s q = Some r \<Longrightarrow> curl r \<noteq> c"
    "curls pl (reqs s) (multi s) (info_private s) (g_curl_pool s) (g_curl_outstanding s - 1)"
    using assms(2) by (auto simp: spare_def)
  from curls_new [OF sp(4) assms(3) subset_refl, of r] sp(1-3) assms(5) curlsD(3) [OF A(2)]
    lifecycle_new [OF A(1) assms(3,4)] handles_new [OF A(3) assms(3) m assms(6)] A(4,5)
  show ?thesis by (intro http_atI) (simp_all add: counters_ok_def awake_def)
qed

text \<open>With a full table the new request is deleted again.\<close>

lemma wp_delete_new:
  assumes "http_at pl D L C s" "spare pl c s" "reqs s p = None" "curl r = c" "hm_ok m" "used m = used (handles s)"
  shows "wp (HttpRequest_delete p) (\<lambda>_. http_at pl D L C) ((reqs_update (\<lambda>f. f(p \<mapsto> r)) s)\<lparr>handles := m\<rparr>)"
proof -
  note A = http_atD [OF assms(1)]
  have sp: "c \<notin> set (g_curl_pool s)" "\<And>q r. reqs s q = Some r \<Longrightarrow> curl r \<noteq> c"
    "curls pl (reqs s) (multi s) (info_private s) (g_curl_pool s) (g_curl_outstanding s - 1)"
    using assms(2) by (auto simp: spare_def)
  note U = curls_unused [OF sp(3,1,2)] handles_full [OF A(3) assms(5,6)]
  show ?thesis
    by (simp add: HttpRequest_delete_def ReleaseCurl_def curl_easy_reset_def curl_easy_cleanup_def assms(3,4), intro conjI impI;
      rule http_atI) (use A U assms(3) in \<open>simp_all add: counters_ok_def awake_def fun_upd_idem\<close>)
qed

lemma wp_HttpNew:
  assumes "env_ok env" "http_at pl D L C s"
  shows "wp (Native_HttpNew env ctx params) (\<lambda>_ s'. \<exists>pl'. http_at pl' D L C s') s"
  unfolding Native_HttpNew_def wp_seq
proof (rule wp_mono [OF wp_AcquireCurl [OF assms]], goal_cases)
  case (1 handle s')
  then have h: "http_at pl D L C s'" by blast
  show ?case
  proof (cases handle)
    case (Some c)
    with 1 have sp: "spare pl c s'" by blast
    show ?thesis unfolding Some option.case wp_seq
    proof (rule wp_malloc [OF assms(1) h], simp, rule wp_make_handle, goal_cases)
      case (2 p i m)
      with http_at_new [OF h sp 2(1), of "(HttpRequest_new c (plugin ctx))\<lparr>handle_id := i, userdata := params ! 1\<rparr>" i m
          "\<lparr>htype = HANDLE_HTTP_REQUEST, pointer = p, owner = Some (plugin ctx), closed = False\<rparr>"]
      show ?case by (auto simp: flags_ok_def HttpRequest_new_def)
    next
      case (3 p m)
      with wp_somewhere [OF wp_delete_new [OF h sp 3(1), of "HttpRequest_new c (plugin ctx)" m]]
      show ?case by (simp add: HttpRequest_new_def)
    qed (use handles_okD(1) [OF http_atD(3) [OF h]] in simp)
  qed (use h in auto)
qed

lemma keeps_HttpNew: "env_ok env \<Longrightarrow> keeps_http env name Native_HttpNew"
  using wp_HttpNew by (simp add: keeps_http_def)

section \<open>Callbacks\<close>

lemma natives_keep:
  assumes "env_ok env" "map_of http_natives name = Some native"
  shows "keeps_http env name native"
proof -
  from map_of_SomeD [OF assms(2)] have "(name, native) \<in> set http_natives" .
  then show ?thesis by (auto simp: http_natives_def g_HttpNatives_def kept keeps_HttpNew [OF assms(1)])
qed

text \<open>The calls that a script makes are mindful, each in the state it is made in.\<close>

fun mindful_calls :: "HttpEnv \<Rightarrow> ctx \<Rightarrow> (string \<times> i32 list) list \<Rightarrow> World \<Rightarrow> bool" where
  "mindful_calls env c [] s = True"
| "mindful_calls env c ((name, params) # calls) s = (case map_of http_natives name of
     None \<Rightarrow> mindful_calls env c calls s
   | Some native \<Rightarrow> mindful name params s \<and>
       (case native env (script_memory env c s) params s of Crash _ \<Rightarrow> True | Done (_, s') \<Rightarrow> mindful_calls env c calls s'))"

definition polite :: "HttpEnv \<Rightarrow> bool" where
  "polite env \<longleftrightarrow> (\<forall>pl L C c f args s. http_at pl False L C s \<longrightarrow> mindful_calls env c (script_calls env c f args s) s)"

lemma wp_run_script:
  assumes "env_ok env" "polite env" "http_at pl False L C s"
  shows "wp (run_script env c f args) (\<lambda>_ s'. \<exists>pl'. http_at pl' False L C s') s"
  unfolding run_script_def wp_seq wp_get
proof (rule wp_for_each [where I = "\<lambda>calls s. (\<exists>pl. http_at pl False L C s) \<and> mindful_calls env c calls s"])
  show "(\<exists>pl. http_at pl False L C s) \<and> mindful_calls env c (script_calls env c f args s) s"
    using assms(2,3) by (auto simp: polite_def)
  fix call :: "string \<times> i32 list" and calls t
  assume I: "(\<exists>pl. http_at pl False L C t) \<and> mindful_calls env c (call # calls) t"
  obtain name params where call: "call = (name, params)" by force
  have "wp (seq (get (script_memory env c)) (\<lambda>ctx. seq (native env ctx params) (\<lambda>_. ret ())))
      (\<lambda>_ s. (\<exists>pl. http_at pl False L C s) \<and> mindful_calls env c calls s) t" if n: "map_of http_natives name = Some native" for native
    using natives_keep [OF assms(1) n] I call n by (fastforce simp: keeps_http_def wp_def split: run.splits)
  with I show "wp ((\<lambda>(name, params). case map_of http_natives name of None \<Rightarrow> ret ()
       | Some native \<Rightarrow> seq (get (script_memory env c)) (\<lambda>ctx. seq (native env ctx params) (\<lambda>_. ret ()))) call)
     (\<lambda>_ s. (\<exists>pl. http_at pl False L C s) \<and> mindful_calls env c calls s) t"
    by (auto simp: call split: option.split)
qed blast

lemma completing_live: "http_at pl D L C s \<Longrightarrow> p \<in> C \<Longrightarrow> pl p = Completing \<and> (\<exists>r. reqs s p = Some r)"
  using lifecycle_live [OF http_atD(1), of pl D L C s p] http_atD(1) [of pl D L C s] by (auto simp: lifecycle_def at_def)

lemma wp_release:
  assumes "http_at pl D L {p} s"
  shows "wp (seq (req_at p) release_request) (\<lambda>_ s'. \<exists>pl'. http_at pl' D L {} s') s"
proof -
  from completing_live [OF assms] obtain r where r: "pl p = Completing" "reqs s p = Some r" by auto
  then have "wp (drop_handle (handle_id r)) (\<lambda>_ s'. \<exists>pl'. http_at pl' D L {} s') t" if "http_at pl D L {p} t" "reqs t = reqs s" for t
    using wp_somewhere [OF wp_drop_request [OF that(1)], of p r] that(2) by simp
  with r assms show ?thesis by (simp add: release_request_def, intro wp_Track) simp
qed

lemma wp_take_response:
  assumes "http_at pl D L C s" "reqs s p = Some r"
  shows "wp (take_response env p) (\<lambda>_. http_at pl D L C) s"
  using assms http_at_control [OF assms, of "response_node_update (\<lambda>_. None) r"]
  by (auto simp: take_response_def intro!: wp_parse_body)

lemma http_at_call:
  assumes "http_at pl D (p # L) C s" "reqs s p = Some r"
  shows "http_at (pl(p := Completing)) D L (insert p C) (s\<lparr>reqs := (reqs s)(p \<mapsto> in_event_thread_update (\<lambda>_. False) r)\<rparr>)"
proof -
  note A = http_atD [OF assms(1)]
  have h: "pl p = Handed" using lifecycle_heads(2) [OF A(1)] .
  have f: "flags_ok Completing (in_event_thread_update (\<lambda>_. False) r)"
    using http_at_flags [OF assms] h by (auto simp: flags_ok_def)
  from lifecycle_call [OF A(1) f] curls_same [OF A(2) assms(2), of "in_event_thread_update (\<lambda>_. False) r" Completing]
    handles_same [OF A(3) assms(2), of "in_event_thread_update (\<lambda>_. False) r"] A(4,5) h
  show ?thesis by (intro http_atI) (simp_all add: counters_ok_def awake_def)
qed

text \<open>The arguments of the callback may need a handle for the tree; then the script runs, and the request is freed.\<close>

lemma wp_callback_argument:
  assumes "env_ok env" "http_at pl D L C s" "reqs s p = Some r"
  shows "wp (if b then seq (take_response env p) (json_handle env c) else ret len) (\<lambda>_. http_at pl D L C) s"
proof -
  have "wp (json_handle env c tree) (\<lambda>_. http_at pl D L C) t" if "http_at pl D L C t" for tree t
    by (rule wp_mono [OF wp_json_handle [OF assms(1) that]]) blast
  with assms(2) show ?thesis by (auto intro: wp_mono [OF wp_take_response [OF assms(2,3)]])
qed

lemma wp_execute:
  assumes "env_ok env" "polite env" "http_at pl False L C s"
  shows "wp (execute env c f args) (\<lambda>_ s'. \<exists>pl'. http_at pl' False L C s') s"
  using wp_run_script [OF assms(1,2)] assms(3) by (simp add: execute_def)

lemma wp_OnCompletedGameThread:
  assumes "env_ok env" "polite env" "http_at pl False (p # L) {} s"
  shows "wp (OnCompletedGameThread env p) (\<lambda>_ s'. \<exists>pl'. http_at pl' False L {} s') s"
proof -
  let ?Q = "\<lambda>s'. \<exists>pl'. http_at pl' False L {} s'"
  have "pl p = Handed" using lifecycle_heads(2) [OF http_atD(1) [OF assms(3)]] .
  then obtain r where r: "reqs s p = Some r" using lifecycle_live [OF http_atD(1) [OF assms(3)], of p] by auto
  define pl1 where "pl1 = pl(p := Completing)"
  define r1 where "r1 = in_event_thread_update (\<lambda>_. False) r"
  define s1 where "s1 = s\<lparr>reqs := (reqs s)(p \<mapsto> r1)\<rparr>"
  have s1: "http_at pl1 False L {p} s1" "reqs s1 p = Some r1"
    using http_at_call [OF assms(3) r] by (simp_all add: s1_def r1_def pl1_def)
  have free: "wp (release_request r1) (\<lambda>_. ?Q) s1" using wp_release [OF s1(1)] s1(2) by simp
  have call: "wp (seq (execute env c f args) (\<lambda>_. seq (req_at p) release_request)) (\<lambda>_. ?Q) t" if "http_at pl1 False L {p} t" for c f args t
    unfolding wp_seq by (rule wp_mono [OF wp_execute [OF assms(1,2) that]], elim exE, rule wp_release [unfolded wp_seq])
  have rest: "wp (seq (if b then seq (take_response env p) (json_handle env c') else ret len) (\<lambda>fourth.
      seq (execute env c f (args fourth)) (\<lambda>_. seq (req_at p) release_request))) (\<lambda>_. ?Q) t"
    if "http_at pl1 False L {p} t" "reqs t p = Some r2" for b c' len c f args t r2
    unfolding wp_seq by (rule wp_mono [OF wp_callback_argument [OF assms(1) that]]) (rule call [unfolded wp_seq])
  have s2: "http_at pl1 False L {p} (s1\<lparr>reqs := (reqs s1)(p \<mapsto> curlcode_update (\<lambda>_. 42) r1)\<rparr>)"
    using http_at_control [OF s1] by simp
  show ?thesis unfolding OnCompletedGameThread_def
    using s1 s2 rest [unfolded wp_seq] free [unfolded release_request_def wp_seq]
    by (simp add: r r1_def [symmetric] s1_def [symmetric] release_request_def Let_def)
qed

section \<open>Frames, clients and plugins\<close>

lemma wp_SignalPending:
  assumes "http_at pl D L C s"
  shows "wp SignalPending (\<lambda>_. http_at pl D L C) s"
  using http_atD [OF assms] by (auto simp: SignalPending_def counters_ok_def awake_def intro!: http_atI)

lemma drain_done:
  "queue_ok (done_queue s) \<Longrightarrow> drain_each done_queue done_queue_update (\<lambda>p. ret ()) s
     = Done ((), done_queue_update (\<lambda>q. LockedQueue_init) s)"
proof -
  have "for_each (\<lambda>item. seq (modify (done_queue_update pop_next)) (\<lambda>_. ret ())) items t = Done ((), done_queue_update (\<lambda>q. LockedQueue_init) t)"
    if "queue_ok (done_queue t)" "items = queue (done_queue t)" for items and t :: World
    using that
  proof (induction items arbitrary: t)
    case Nil
    then have "done_queue t = LockedQueue_init" by (cases "done_queue t") (simp add: queue_ok_def LockedQueue_init_def)
    then have "done_queue_update (\<lambda>q. LockedQueue_init) t = t" by (cases t) simp
    then show ?case by simp
  next
    case (Cons x items)
    then have "queue_ok (pop_next (done_queue t))" "items = queue (pop_next (done_queue t))"
      by (auto simp: pop_next_def Pop_def queue_ok_def split: list.splits)
    with Cons.IH [of "done_queue_update pop_next t"] show ?case by (simp add: seq_def)
  qed
  then show "queue_ok (done_queue s) \<Longrightarrow> drain_each done_queue done_queue_update (\<lambda>p. ret ()) s
     = Done ((), done_queue_update (\<lambda>q. LockedQueue_init) s)" by (simp add: drain_each_def)
qed

lemma wp_OnGameFrame:
  assumes "env_ok env" "polite env" "http_at pl False [] {} s"
  shows "wp (OnGameFrame env) (\<lambda>_ s'. \<exists>pl'. http_at pl' False [] {} s') s"
proof -
  let ?Q = "\<lambda>s'. \<exists>pl'. http_at pl' False [] {} s'"
  have calls: "wp (for_each (OnCompletedGameThread env) ps) (\<lambda>_. ?Q) t" if "\<exists>pl. http_at pl False ps {} t" for ps t
    by (rule wp_for_each [where I = "\<lambda>ps t. \<exists>pl. http_at pl False ps {} t", OF that])
      (use wp_OnCompletedGameThread [OF assms(1,2)] in blast)+
  have "wp (seq DrainCompleted (for_each (OnCompletedGameThread env))) (\<lambda>_. ?Q) t" if "http_at pl False [] {} t" for t
  proof -
    note A = http_atD [OF that]
    let ?pl = "\<lambda>p. if pl p = Finished then Handed else pl p"
    have "sending ?pl (reqs t) = sending pl (reqs t)" by (rule sending_cong) simp
    with A(2) have "curls ?pl (reqs t) (multi t) (info_private t) (g_curl_pool t) (g_curl_outstanding t)"
      unfolding curls_def by simp
    with A lifecycle_hand_over [OF A(1)]
    have "http_at ?pl False (queue (done_queue t)) {} (done_queue_update (\<lambda>q. LockedQueue_init) t)"
      by (intro http_atI) (simp_all add: LockedQueue_init_def counters_ok_def awake_def queue_ok_def)
    then have "wp (for_each (OnCompletedGameThread env) (queue (done_queue t))) (\<lambda>_. ?Q) (done_queue_update (\<lambda>q. LockedQueue_init) t)"
      by (intro calls) blast
    moreover have "DrainCompleted t = Done (queue (done_queue t), done_queue_update (\<lambda>q. LockedQueue_init) t)"
      using A(4) by (simp add: DrainCompleted_def seq_def drain_done counters_ok_def)
    ultimately show ?thesis by (simp add: wp_Done)
  qed
  then show ?thesis unfolding OnGameFrame_def wp_seq
    by (intro wp_mono [OF wp_SignalPending [OF assms(3)]]) auto
qed

lemma wp_OnClientDisconnecting:
  assumes "http_at pl False [] {} s"
  shows "wp (OnClientDisconnecting client) (\<lambda>_ s'. \<exists>pl'. http_at pl' False [] {} s') s"
proof -
  have close: "wp (for_each (\<lambda>i. seq (get (\<lambda>s. GetHttpRequest i (handles s)))
      (\<lambda>request. case request of None \<Rightarrow> ret () | Some p \<Rightarrow> close_request i p)) ids) (\<lambda>_ s'. \<exists>pl'. http_at pl' False [] {} s') t"
    if "\<exists>pl. http_at pl False [] {} t" for ids t
  proof (rule wp_for_each [where I = "\<lambda>_ t. \<exists>pl. http_at pl False [] {} t", OF that])
    fix i ids u
    assume "\<exists>pl. http_at pl False [] {} u"
    then obtain pl where u: "http_at pl False [] {} u" by blast
    have "pl p \<noteq> Completing" for p using http_atD(1) [OF u] by (auto simp: lifecycle_def at_def)
    then show "wp (seq (get (\<lambda>s. GetHttpRequest i (handles s)))
        (\<lambda>request. case request of None \<Rightarrow> ret () | Some p \<Rightarrow> close_request i p)) (\<lambda>_ s'. \<exists>pl'. http_at pl' False [] {} s') u"
      unfolding wp_seq wp_get by (intro wp_found [OF u]) (use u in \<open>auto intro: wp_close_request\<close>)
  qed
  have "\<exists>pl. http_at pl False [] {} (g_client_handles_update f s)" for f using assms by auto
  with close assms show ?thesis by (auto simp: OnClientDisconnecting_def split: option.split)
qed

text \<open>Freeing or marking one handle leaves the others.\<close>

lemma delete_pointer_handles: "delete_pointer tp s = Done (x, s') \<Longrightarrow> handles s' = handles s"
  by (cases tp; cases "fst tp")
    (auto simp: delete_pointer_def HttpRequest_delete_def ReleaseCurl_def curl_easy_reset_def curl_easy_cleanup_def req_at_def
      split: if_splits option.splits)

lemma deletes_handles: "for_each delete_pointer tps s = Done (x, s') \<Longrightarrow> handles s' = handles s"
  by (induction tps arbitrary: s) (auto dest: delete_pointer_handles)

lemma drop_handle_handles: "drop_handle i s = Done (x, s') \<Longrightarrow> handles s' = FreeHandle i (handles s)"
  by (auto simp: drop_handle_def dest: deletes_handles)

lemma close_request_handles:
  "close_request i p s = Done (x, s') \<Longrightarrow> handles s' = MarkHandleClosed i (handles s) \<or> handles s' = FreeHandle i (handles s)"
  by (auto simp: close_request_def CancelRequest_def req_at_def req_update_def split: if_splits option.splits dest: drop_handle_handles)

definition kind_of :: "HandleManager \<Rightarrow> i32 \<Rightarrow> (HandleType \<times> obj) option" where
  "kind_of m i = map_option (\<lambda>h. (htype h, pointer h)) (used m i)"

lemma kind_of_other:
  assumes "hm_ok m" "j \<noteq> i"
  shows "kind_of (FreeHandle i m) j = kind_of m j" "kind_of (MarkHandleClosed i m) j = kind_of m j"
proof -
  show "kind_of (FreeHandle i m) j = kind_of m j"
    using drop_used(2) [of "World_init\<lparr>handles := m\<rparr>" i] assms
    by (cases "used m i") (simp_all add: kind_of_def FreeHandle_def)
  show "kind_of (MarkHandleClosed i m) j = kind_of m j"
    using MarkHandleClosed_refines [OF assms(1), of i] assms(2) by (simp add: kind_of_def)
qed

text \<open>The handles of a plugin that goes away.\<close>

definition still_there :: "(i32 \<times> Handle) list \<Rightarrow> HandleManager \<Rightarrow> bool" where
  "still_there taken m \<longleftrightarrow> distinct (map fst taken) \<and> (\<forall>(i, h) \<in> set taken. kind_of m i = Some (htype h, pointer h))"

lemma still_there_step:
  assumes "hm_ok m" "still_there (x # taken) m" "m' = MarkHandleClosed (fst x) m \<or> m' = FreeHandle (fst x) m \<or> m' = m"
  shows "still_there taken m'"
proof -
  have "kind_of m' i = kind_of m i" if "(i, h) \<in> set taken" for i h
  proof -
    from imageI [OF that, of fst] have "i \<in> fst ` set taken" by simp
    moreover have "fst x \<notin> fst ` set taken" using assms(2) by (simp add: still_there_def)
    ultimately have "i \<noteq> fst x" by blast
    with assms(3) kind_of_other [OF assms(1)] show ?thesis by auto
  qed
  with assms(2) show ?thesis by (auto simp: still_there_def)
qed

lemma wp_post: "wp m P s \<Longrightarrow> (\<And>x s'. m s = Done (x, s') \<Longrightarrow> Q x s') \<Longrightarrow> wp m (\<lambda>x s'. P x s' \<and> Q x s') s"
  by (auto simp: wp_def split: run.splits)

lemma Untrack_Done: "UntrackClientHandle c i s = Done (x, s') \<Longrightarrow> handles s' = handles s"
  by (auto simp: UntrackClientHandle_def split: if_splits)

lemma close_plugin_handle_handles:
  assumes "close_plugin_handle (i, h) s = Done (x, s')"
  shows "handles s' = MarkHandleClosed i (handles s) \<or> handles s' = FreeHandle i (handles s) \<or> handles s' = handles s"
  using assms
  by (cases "htype h") (auto simp: close_plugin_handle_def req_at_def split: option.splits dest!: drop_handle_handles close_request_handles Untrack_Done)

lemma wp_close_plugin_handle:
  assumes "http_at pl False [] {} s" "kind_of (handles s) i = Some (htype h, pointer h)"
  shows "wp (close_plugin_handle (i, h)) (\<lambda>_ s'. \<exists>pl'. http_at pl' False [] {} s') s"
proof (cases "htype h = HANDLE_HTTP_REQUEST")
  case True
  from assms(2) obtain g where g: "used (handles s) i = Some g" "htype g = htype h" "pointer g = pointer h" by (auto simp: kind_of_def)
  with handles_okD(2) [OF http_atD(3) [OF assms(1)]] True obtain r where r: "reqs s (pointer h) = Some r" "handle_id r = i" by metis
  have "pl (pointer h) \<noteq> Completing" using http_atD(1) [OF assms(1)] by (auto simp: lifecycle_def at_def)
  with r assms(1) True show ?thesis
    by (simp add: close_plugin_handle_def, intro wp_Track wp_close_request) simp_all
next
  case False
  have "wp (drop_handle i) (\<lambda>_ s'. \<exists>pl'. http_at pl' False [] {} s') s"
    by (rule wp_somewhere [OF wp_drop_other [OF assms(1)]]) (use assms(2) False in \<open>simp add: kind_of_def\<close>)
  with False assms(1) show ?thesis by (cases "htype h") (auto simp: close_plugin_handle_def)
qed

lemma wp_OnPluginUnloaded:
  assumes "http_at pl False [] {} s"
  shows "wp (OnPluginUnloaded c) (\<lambda>_ s'. \<exists>pl'. http_at pl' False [] {} s') s"
proof -
  note A = http_atD [OF assms]
  note hm = handles_okD(1) [OF A(3)]
  from TakePluginHandles_refines [OF hm, of c] obtain taken m where
    t: "TakePluginHandles c (handles s) = (taken, m)" "hm_ok m" "spec_handle_op (OpTake c) (used (handles s)) (RTaken taken) (used m)"
    by blast
  have k: "kind_of m i = kind_of (handles s) i" for i using t(3) by (cases "used (handles s) i") (auto simp: kind_of_def)
  then have h: "handles_ok (reqs s) (jsons s) m" by (intro handles_relabel [OF A(3) t(2)]) (simp add: kind_of_def)
  have st: "still_there taken m" using t(3) by (auto simp: still_there_def k) (auto simp: kind_of_def)
  define s' where "s' = (g_plugin_contexts_update (\<lambda>cs. cs - {c}) s)\<lparr>handles := m\<rparr>"
  have s': "http_at pl False [] {} s'" using A h by (intro http_atI) (simp_all add: s'_def counters_ok_def awake_def)
  have "wp (for_each close_plugin_handle taken) (\<lambda>_ s'. \<exists>pl'. http_at pl' False [] {} s') s'"
  proof (rule wp_for_each [where I = "\<lambda>xs t. (\<exists>pl. http_at pl False [] {} t) \<and> still_there xs (handles t)"])
    show "(\<exists>pl. http_at pl False [] {} s') \<and> still_there taken (handles s')" using s' st by (auto simp: s'_def)
    fix x :: "i32 \<times> Handle" and xs t
    assume I: "(\<exists>pl. http_at pl False [] {} t) \<and> still_there (x # xs) (handles t)"
    then obtain pl where p: "http_at pl False [] {} t" by blast
    have "kind_of (handles t) (fst x) = Some (htype (snd x), pointer (snd x))" using I by (auto simp: still_there_def)
    note w = wp_close_plugin_handle [OF p this, unfolded prod.collapse]
    have "still_there xs (handles t')" if "close_plugin_handle x t = Done (u, t')" for u t'
      by (rule still_there_step [OF handles_okD(1) [OF http_atD(3) [OF p]]])
        (use I close_plugin_handle_handles [of "fst x" "snd x" t u t'] that in simp_all)
    with w show "wp (close_plugin_handle x) (\<lambda>_ t. (\<exists>pl. http_at pl False [] {} t) \<and> still_there xs (handles t)) t"
      by (rule wp_post)
  qed blast
  then show ?thesis by (simp add: OnPluginUnloaded_def t(1) s'_def)
qed

end
