(* ===== verification/Http_Safety.thy ===== *)
theory Http_Safety
  imports Http_Calls
begin

text \<open>
  The life of HTTP requests as a transition system.  A step is a handler that runs to its end: a native that a
  plugin calls, a frame of the game with the callbacks it runs, a plugin or a client that goes away, and on the
  event thread the two wake-ups, what libcurl delivers, the messages about finished transfers and the retry
  timers.  The handlers of the two threads are interleaved in any order.  The theorems: in every state that is
  reached each request is in exactly one place and none is stuck there, handles lead to live objects, curl
  handles are not shared, retries stay within their limits, and no handler uses memory that was freed.
\<close>

section \<open>Events\<close>

datatype http_event =
    CallNative ctx string "i32 list"
  | GameFrame
  | PluginLoaded ctx
  | PluginUnloaded ctx
  | ClientDisconnecting i32
  | AsyncAdd
  | AsyncCancel
  | ReceiveStatus CURL i32
  | ReceiveHeader CURL string
  | ReceiveData CURL string
  | JobsCompleted "(CURL \<times> i32) list"
  | RetryTimer "obj \<times> i32"

text \<open>libcurl passes the pointer that was stored with the curl handle.\<close>

definition with_private :: "CURL \<Rightarrow> (obj \<Rightarrow> unit http) \<Rightarrow> unit http" where
  "with_private c f = seq (get (\<lambda>s. info_private s c)) (\<lambda>p. case p of None \<Rightarrow> crash NullDeref | Some p \<Rightarrow> f p)"

fun run_event :: "HttpEnv \<Rightarrow> http_event \<Rightarrow> unit http" where
  "run_event env (CallNative c name params) = (case map_of http_natives name of
     None \<Rightarrow> ret ()
   | Some native \<Rightarrow> seq (get (script_memory env c)) (\<lambda>ctx. seq (native env ctx params) (\<lambda>_. ret ())))"
| "run_event env GameFrame = OnGameFrame env"
| "run_event env (PluginLoaded c) = OnPluginLoaded c"
| "run_event env (PluginUnloaded c) = OnPluginUnloaded c"
| "run_event env (ClientDisconnecting client) = OnClientDisconnecting client"
| "run_event env AsyncAdd = OnAsyncAdd env"
| "run_event env AsyncCancel = OnAsyncCancel"
| "run_event env (ReceiveStatus c httpcode) = modify (response_code_update (\<lambda>f. f(c := httpcode)))"
| "run_event env (ReceiveHeader c buffer) = with_private c (\<lambda>p. OnReceiveHeaders p buffer)"
| "run_event env (ReceiveData c contents) = with_private c (\<lambda>p. OnReceiveData p contents)"
| "run_event env (JobsCompleted messages) = CheckCompletedJobs env messages"
| "run_event env (RetryTimer timer) = OnRetryTimer timer"

text \<open>When an event can happen: a wake-up that was sent, a transfer that is in the multi handle, a message about
  such a transfer, a timer that was started.  Scripts are mindful.\<close>

fun enabled :: "http_event \<Rightarrow> World \<Rightarrow> bool" where
  "enabled (CallNative c name params) s = mindful name params s"
| "enabled AsyncAdd s = async_add s"
| "enabled AsyncCancel s = async_cancel s"
| "enabled (ReceiveStatus c httpcode) s = (c \<in> multi s)"
| "enabled (ReceiveHeader c buffer) s = (c \<in> multi s)"
| "enabled (ReceiveData c contents) s = (c \<in> multi s)"
| "enabled (JobsCompleted messages) s = (distinct (map fst messages) \<and> fst ` set messages \<subseteq> multi s)"
| "enabled (RetryTimer timer) s = (timer \<in> set (retry_timers s))"
| "enabled _ s = True"

inductive http_reachable :: "HttpEnv \<Rightarrow> World \<Rightarrow> bool" for env where
  init: "http_reachable env World_init"
| step: "http_reachable env s \<Longrightarrow> enabled e s \<Longrightarrow> run_event env e s = Done ((), s') \<Longrightarrow> http_reachable env s'"

section \<open>The invariant\<close>

lemma http_init: "http_at (\<lambda>_. Gone) False [] {} World_init"
  by (rule http_atI)
    (simp_all add: World_init_def LockedQueue_init_def hm_init_ok lifecycle_def flagged_def at_def curls_def
      sending_def handles_ok_def counters_ok_def awake_def queue_ok_def)

lemma sending_private:
  assumes "http_at pl D L C s" "c \<in> multi s"
  obtains p r where "info_private s c = Some p" "reqs s p = Some r" "pl p = Sending" "curl r = c"
proof -
  note A = http_atD(2) [OF assms(1)]
  from assms(2) curlsD(1) [OF A] obtain p r where "reqs s p = Some r" "pl p = Sending" "curl r = c" by (auto simp: sending_def)
  with curlsD(2) [OF A] that show thesis by blast
qed

lemma wp_with_private:
  assumes "http_at pl D L C s" "c \<in> multi s" "\<And>p r. reqs s p = Some r \<Longrightarrow> wp (f p) Q s"
  shows "wp (with_private c f) Q s"
proof -
  from sending_private [OF assms(1,2)] obtain p r where "info_private s c = Some p" "reqs s p = Some r" by blast
  with assms(3) [of p r] show ?thesis by (simp add: with_private_def)
qed

lemma wp_run_event:
  assumes "env_ok env" "polite env" "http_at pl False [] {} s" "enabled e s"
  shows "wp (run_event env e) (\<lambda>_ s'. \<exists>pl'. http_at pl' False [] {} s') s"
  using assms(4)
proof (cases e)
  case (CallNative c name params)
  with assms natives_keep [OF assms(1), of name] show ?thesis by (auto simp: keeps_http_def split: option.split)
next
  case (ReceiveHeader c buffer)
  then show ?thesis using assms wp_somewhere [OF wp_OnReceiveHeaders [OF assms(3)]] by (auto intro: wp_with_private)
next
  case (ReceiveData c contents)
  then show ?thesis using assms wp_somewhere [OF wp_OnReceiveData [OF assms(3)]] by (auto intro: wp_with_private)
qed (use assms in \<open>auto simp: OnPluginLoaded_def intro: wp_OnGameFrame wp_OnPluginUnloaded wp_OnClientDisconnecting
       wp_OnAsyncAdd wp_OnAsyncCancel wp_CheckCompletedJobs wp_OnRetryTimer\<close>)

lemma reachable_http_at:
  assumes "http_reachable env s" "env_ok env" "polite env"
  obtains pl where "http_at pl False [] {} s"
proof -
  from assms(1) have "\<exists>pl. http_at pl False [] {} s"
  proof induction
    case init
    from http_init show ?case by blast
  next
    case (step s e s')
    with wp_DoneD [OF wp_run_event [OF assms(2,3)]] show ?case by blast
  qed
  then show thesis using that by blast
qed

section \<open>A run\<close>

text \<open>Addresses are given out from the lowest free one on; the equation for execution tries them in turn.\<close>

definition first_free :: "nat \<Rightarrow> World \<Rightarrow> obj" where
  "first_free n s = (LEAST p. n \<le> p \<and> reqs s p = None \<and> jsons s p = None)"

lemma first_free_code [code]:
  "first_free n s = (if reqs s n = None \<and> jsons s n = None then n else first_free (Suc n) s)"
proof (cases "reqs s n = None \<and> jsons s n = None")
  case True
  then show ?thesis by (auto simp: first_free_def intro: Least_equality)
next
  case False
  then have "(n \<le> p \<and> reqs s p = None \<and> jsons s p = None) \<longleftrightarrow> (Suc n \<le> p \<and> reqs s p = None \<and> jsons s p = None)" for p
    by (cases "p = n") auto
  then show ?thesis unfolding if_not_P [OF False] first_free_def by simp
qed

text \<open>A plugin with the number 7, whose memory has a one-letter string at each address, and whose function 6 asks
  for the length of the response.\<close>

definition letter_at :: "i32 \<Rightarrow> string option" where
  "letter_at a = Some [char_of (unat a)]"

definition letters :: "ctx \<Rightarrow> Ctx" where
  "letters c = \<lparr>plugin = c, LocalToString = letter_at, LocalToPhysAddr = (\<lambda>_. None)\<rparr>"

definition plain_http :: HttpEnv where
  "plain_http = \<lparr>malloc = first_free 0, curl_easy_init = (\<lambda>s. Some (g_curl_outstanding s)), user_agent = ''async2'',
     compress2 = (\<lambda>_. None), json_tree = (\<lambda>_. None),
     mp_env = \<lparr>size_t_bits = 64, g_max_container_elements = 100, hash_layouts = \<lparr>str_layout = (\<lambda>ks. ks), int_layout = (\<lambda>ks. ks)\<rparr>\<rparr>,
     copy_layouts = \<lparr>str_layout = (\<lambda>ks. ks), int_layout = (\<lambda>ks. ks)\<rparr>, scaled_delay = (\<lambda>d b n. Some d), random = (\<lambda>s d. d), caller_frame = (\<lambda>_. None),
     get_function = (\<lambda>c f. True),
     script_memory = (\<lambda>c s. letters c),
     script_calls = (\<lambda>c f args s. if f = 6 then [(''async2_GetResponseLength'', [1, args ! 0])] else [])\<rparr>"

definition sent :: "http_event list" where
  "sent = [PluginLoaded 7, CallNative 7 ''async2_HttpNew'' [1, 99], CallNative 7 ''async2_SetRetry'' [2, 1, 3],
     CallNative 7 ''async2_HttpExecute'' [4, 1, 103, 117, 5], AsyncAdd]"

text \<open>A sequence of events, each enabled when it happens.\<close>

fun play :: "HttpEnv \<Rightarrow> http_event list \<Rightarrow> World \<Rightarrow> World run" where
  "play env [] s = Done s"
| "play env (e # es) s =
     (if enabled e s then (case run_event env e s of Done (_, s') \<Rightarrow> play env es s' | Crash c \<Rightarrow> Crash c) else Done s)"

lemma reachable_play: "http_reachable env s \<Longrightarrow> play env es s = Done s' \<Longrightarrow> http_reachable env s'"
  by (induction es arbitrary: s) (auto split: if_splits run.splits intro: http_reachable.step)

text \<open>The same with a \<^verbatim>\<open>curl_easy_init\<close> that fails where its number is taken, which is what \<open>env_ok\<close> asks for.\<close>

definition safe_http :: HttpEnv where
  "safe_http = plain_http\<lparr>curl_easy_init := (\<lambda>s. if g_curl_outstanding s \<notin> set (g_curl_pool s)
       \<and> (\<forall>p r. reqs s p = Some r \<longrightarrow> curl r \<noteq> g_curl_outstanding s) then Some (g_curl_outstanding s) else None)\<rparr>"

lemma free_address:
  assumes "finite (dom (reqs s))" "finite (dom (jsons s))"
  shows "reqs s (first_free 0 s) = None \<and> jsons s (first_free 0 s) = None"
proof -
  obtain p where "p \<notin> dom (reqs s) \<union> dom (jsons s)" using ex_new_if_finite [OF infinite_UNIV_nat] assms by blast
  then have "reqs s p = None \<and> jsons s p = None" by (auto simp: domIff)
  then have "\<exists>p. 0 \<le> p \<and> reqs s p = None \<and> jsons s p = None" by blast
  from LeastI_ex [OF this] show ?thesis by (simp add: first_free_def)
qed

lemma safe_http_ok: "env_ok safe_http"
  using free_address by (auto simp: env_ok_def safe_http_def plain_http_def)

lemma safe_http_polite: "polite safe_http"
  by (auto simp: polite_def safe_http_def plain_http_def mindful_def split: option.split run.split)

lemma safe_http_same [simp]:
  "malloc safe_http = malloc plain_http" "user_agent safe_http = user_agent plain_http" "compress2 safe_http = compress2 plain_http"
  "script_memory safe_http = script_memory plain_http"
  "caller_frame safe_http = caller_frame plain_http"
  by (simp_all add: safe_http_def)

lemma safe_http_new:
  assumes "g_curl_pool s = []" "reqs s = Map.empty"
  shows "Native_HttpNew safe_http ctx params s = Native_HttpNew plain_http ctx params s"
proof -
  have "AcquireCurl safe_http s = AcquireCurl plain_http s"
    using assms by (simp add: AcquireCurl_def seq_def safe_http_def plain_http_def)
  then show ?thesis
    unfolding Native_HttpNew_def safe_http_same seq_def [of "AcquireCurl safe_http"] seq_def [of "AcquireCurl plain_http"] by simp
qed

lemma safe_http_sends [simp]:
  "OnAsyncAdd safe_http = OnAsyncAdd plain_http" "Native_HttpExecute safe_http = Native_HttpExecute plain_http"
  "Native_SetRetry safe_http = Native_SetRetry plain_http"
  unfolding Native_SetRetry_def OnAsyncAdd_def add_request_def SetupCurl_def compressed_def Native_HttpExecute_def fun_eq_iff safe_http_same by simp_all

lemma sent_natives:
  "map_of http_natives ''async2_HttpNew'' = Some Native_HttpNew" "map_of http_natives ''async2_HttpExecute'' = Some Native_HttpExecute"
  "map_of http_natives ''async2_SetRetry'' = Some Native_SetRetry"
  by (simp_all add: http_natives_def g_HttpNatives_def)

lemma sent_same: "play safe_http sent World_init = play plain_http sent World_init"
  unfolding sent_def play.simps run_event.simps OnPluginLoaded_def sent_natives option.case safe_http_same safe_http_sends
  by (simp add: safe_http_new World_init_def seq_def [of "get _"] seq_def [of "Native_HttpNew _ _ _"])

text \<open>Running a sequence of events by rewriting.\<close>

lemmas http_runs = seq_def with_request_def configure_def req_at_def req_update_def setopt_def string_arg_def make_handle_def CreateHandle_def
  scan.simps AcquireCurl_def World_init_def HandleManager_init_def LockedQueue_init_def HttpRequest_new_def plain_http_def
  http_natives_def g_HttpNatives_def Native_HttpNew_def Native_HttpExecute_def Native_HttpClose_def Native_SetRetry_def
  Native_SetBodyJSON_def set_body_node_def EnqueueRequest_def close_request_def CancelRequest_def UntrackClientHandle_def
  letters_def letter_at_def c_str_def GetHttpRequest_def GetDataHandle_def GetHandle_def mindful_def MarkHandleClosed_def
  first_free_code OnAsyncAdd_def drain_each_def add_request_def OnGameFrame_def SignalPending_def HasItems_def DrainCompleted_def
  pop_next_def Pop_def Push_def OnPluginLoaded_def OnCompletedGameThread_def GetSourcepawnFunction_def release_request_def
  execute_def run_script_def drop_handle_def FreeHandle_def DeleteHandlePointer_def delete_pointer_def HttpRequest_delete_def
  ReleaseCurl_def curl_easy_reset_def curl_easy_cleanup_def kMinPool_def SetupCurl_def serialized_def compressed_def
  BuildHeaderSlist_def ProcessCurlJob_def OnAsyncCancel_def cancel_request_def finish_def OnCompleted_def
  CheckCompletedJobs_def complete_job_def ShouldRetry_def schedule_retry_def PrepareForRetry_def retry_delay_def
  parse_response_def RemoveFromPluginSet_def AddToPluginSet_def stop_timer_def Let_def

definition sent_world :: World where
  "sent_world = (case play plain_http sent World_init of Done s \<Rightarrow> s | Crash _ \<Rightarrow> World_init)"

lemma sent_runs: "(case play plain_http sent World_init of Done _ \<Rightarrow> True | Crash _ \<Rightarrow> False)"
  by (simp add: sent_def http_runs)

lemma sent_reachable: "http_reachable safe_http sent_world"
  using reachable_play [OF http_reachable.init, of safe_http sent] sent_runs
  by (auto simp: sent_same sent_world_def split: run.splits)

lemma sent_evaluated:
  "(case reqs sent_world 0 of None \<Rightarrow> False
    | Some r \<Rightarrow> in_event_thread r \<and> max_retries r = 3 \<and> \<not> ShouldRetry 0 (r\<lparr>curlcode := 0\<rparr>) \<and> parse_mode r = 0 \<and> \<not> handle_closed r \<and> \<not> in_retry_wait r
        \<and> (curl r, handle_id r, userdata r, plugin_context r, callback_id r, response_body r) = (1, 1, 99, 7, 5, []))
   \<and> GetHttpRequest 1 (handles sent_world) = Some 0 \<and> active_http_requests sent_world = {0} \<and> multi sent_world = {1}
   \<and> queue (done_queue sent_world) = [] \<and> callbacks sent_world = [] \<and> response_code sent_world 1 = 0
   \<and> g_plugin_contexts sent_world = {7} \<and> stats_active sent_world = 1"
  by (simp add: sent_world_def sent_def http_runs)

lemma sent_request:
  obtains r where "reqs sent_world 0 = Some r" "in_event_thread r" "max_retries r = 3" "\<not> ShouldRetry 0 (r\<lparr>curlcode := 0\<rparr>)"
    "parse_mode r = 0" "\<not> handle_closed r" "curl r = 1" "handle_id r = 1" "userdata r = 99" "plugin_context r = 7" "callback_id r = 5"
    "response_body r = []" "\<not> in_retry_wait r"
  using sent_evaluated by (cases "reqs sent_world 0") auto

lemma sent_world_simps:
  "GetHttpRequest 1 (handles sent_world) = Some 0" "active_http_requests sent_world = {0}" "multi sent_world = {1}"
  "queue (done_queue sent_world) = []" "callbacks sent_world = []" "response_code sent_world 1 = 0"
  "g_plugin_contexts sent_world = {7}" "stats_active sent_world = 1"
  using sent_evaluated by blast+

section \<open>Safety\<close>



text \<open>C8: the requests that the event thread has are exactly those in the queue of new requests, in the set
  of active ones or in the queue of finished ones; none is in two of these places or twice in one, and all of
  them are alive.\<close>

theorem http_one_place:
  assumes "env_ok env" "polite env" "http_reachable env s"
  shows "set (queue (pending_queue s)) \<union> active_http_requests s \<union> set (queue (done_queue s))
      = {p. \<exists>r. reqs s p = Some r \<and> in_event_thread r}
    \<and> distinct (queue (pending_queue s) @ queue (done_queue s))
    \<and> active_http_requests s \<inter> (set (queue (pending_queue s)) \<union> set (queue (done_queue s))) = {}"
proof -
  from reachable_http_at [OF assms(3,1,2)] obtain pl where "http_at pl False [] {} s" .
  note A = http_atD(1) [OF this]
  have l: "set (queue (pending_queue s)) = at pl Queued" "active_http_requests s = at pl Sending \<union> at pl Waiting"
    "set (queue (done_queue s)) = at pl Finished" "distinct (queue (pending_queue s))" "distinct (queue (done_queue s))" "at pl Handed = {}"
    using A by (simp_all add: lifecycle_def)
  have "(\<exists>r. reqs s p = Some r \<and> in_event_thread r) \<longleftrightarrow> pl p \<in> {Queued, Sending, Waiting, Finished, Handed}" for p
    using lifecycle_flags [OF A, of p] lifecycle_live [OF A, of p] by (auto simp: flags_ok_def)
  with l show ?thesis by (auto simp: at_def)
qed

theorem http_one_place_witness:
  "set (queue (pending_queue sent_world)) \<union> active_http_requests sent_world \<union> set (queue (done_queue sent_world))
      = {p. \<exists>r. reqs sent_world p = Some r \<and> in_event_thread r}
    \<and> active_http_requests sent_world = {0}"
  using http_one_place [OF safe_http_ok safe_http_polite sent_reachable] sent_world_simps(2) by blast

text \<open>C9: no request is stuck on the event thread: one that is queued has had the wake-up sent, one that is
  being sent is in the multi handle, so that a message about it can come, one that waits for its next try has
  a timer, and one that is finished is in the queue that the next frame of the game sees.\<close>

theorem http_never_stuck:
  assumes "env_ok env" "polite env" "http_reachable env s" "reqs s p = Some r" "in_event_thread r"
  shows "p \<in> set (queue (pending_queue s)) \<and> enabled AsyncAdd s
    \<or> p \<in> active_http_requests s \<and> (\<forall>result. enabled (JobsCompleted [(curl r, result)]) s)
    \<or> p \<in> active_http_requests s \<and> (\<exists>delay. enabled (RetryTimer (p, delay)) s)
    \<or> p \<in> set (queue (done_queue s)) \<and> HasItems (done_queue s)"
proof -
  from reachable_http_at [OF assms(3,1,2)] obtain pl where h: "http_at pl False [] {} s" .
  note A = http_atD [OF h]
  have l: "set (queue (pending_queue s)) = at pl Queued" "active_http_requests s = at pl Sending \<union> at pl Waiting"
    "set (map fst (retry_timers s)) = at pl Waiting" "set (queue (done_queue s)) = at pl Finished" "at pl Handed = {}"
    using A(1) by (simp_all add: lifecycle_def)
  have "pl p \<in> {Queued, Sending, Waiting, Finished, Handed}" using http_at_flags [OF h assms(4)] assms(5) by (simp add: flags_ok_def)
  then consider "pl p = Queued" | "pl p = Sending" | "pl p = Waiting" | "pl p = Finished" using l(5) by (auto simp: at_def)
  then show ?thesis
  proof cases
    case 1
    then have "p \<in> set (queue (pending_queue s))" by (simp add: l(1) at_def)
    moreover from this have "async_add s" using A(5) by (auto simp: awake_def)
    ultimately show ?thesis by simp
  next
    case 2
    then show ?thesis using http_at_sending(1) [OF h assms(4)] l(2) by (simp add: at_def)
  next
    case 3
    then have "p \<in> set (map fst (retry_timers s))" unfolding l(3) by (simp add: at_def)
    then obtain delay where "(p, delay) \<in> set (retry_timers s)" by auto
    moreover have "p \<in> active_http_requests s" using 3 by (simp add: l(2) at_def)
    ultimately show ?thesis by (meson enabled.simps(8))
  next
    case 4
    then have "p \<in> set (queue (done_queue s))" by (simp add: l(4) at_def)
    moreover from this have "HasItems (done_queue s)" using A(4) by (cases "queue (done_queue s)") (simp_all add: HasItems_def counters_ok_def queue_ok_def)
    ultimately show ?thesis by blast
  qed
qed

text \<open>C11: a handle of a request leads to a live request that has this number, and each request has its handle;
  a handle of a tree leads to a live tree, and no two handles to the same one.\<close>

theorem http_handles_typed:
  assumes "env_ok env" "polite env" "http_reachable env s"
  shows "(\<forall>i p. GetHttpRequest i (handles s) = Some p \<longrightarrow> (\<exists>r. reqs s p = Some r \<and> handle_id r = i))
    \<and> (\<forall>p r. reqs s p = Some r \<longrightarrow> (\<exists>h. used (handles s) (handle_id r) = Some h \<and> htype h = HANDLE_HTTP_REQUEST \<and> pointer h = p))
    \<and> (\<forall>i p. GetDataHandle i (handles s) = Some p \<longrightarrow> (\<exists>n. jsons s p = Some n))
    \<and> (\<forall>i j p. GetDataHandle i (handles s) = Some p \<longrightarrow> GetDataHandle j (handles s) = Some p \<longrightarrow> i = j)"
proof -
  from reachable_http_at [OF assms(3,1,2)] obtain pl where h: "http_at pl False [] {} s" .
  note A = http_atD(3) [OF h]
  have "i = j" if t: "GetDataHandle i (handles s) = Some p" "GetDataHandle j (handles s) = Some p" for i j p
  proof -
    from GetHandle_Some [OF t(1) [unfolded GetDataHandle_def]] GetHandle_Some [OF t(2) [unfolded GetDataHandle_def]]
    obtain g g' where "used (handles s) i = Some g" "used (handles s) j = Some g'" "htype g = HANDLE_JSON_VALUE" "htype g' = HANDLE_JSON_VALUE"
      "pointer g = pointer g'" by auto
    with handles_okD(5) [OF A] show ?thesis by blast
  qed
  with http_handle [OF h] tree_handle [OF h] handles_okD(3) [OF A] show ?thesis by blast
qed

text \<open>C17: the transfers in the multi handle are those of the active requests that do not wait for a retry;
  each leads back to its request.  No two requests share a curl handle, and no request has one that is in the
  pool.\<close>

theorem http_curl_exclusive:
  assumes "env_ok env" "polite env" "http_reachable env s"
  shows "multi s = {curl r | p r. p \<in> active_http_requests s \<and> reqs s p = Some r \<and> \<not> in_retry_wait r}
    \<and> (\<forall>p r. p \<in> active_http_requests s \<longrightarrow> reqs s p = Some r \<longrightarrow> info_private s (curl r) = Some p)
    \<and> (\<forall>p q r r'. reqs s p = Some r \<longrightarrow> reqs s q = Some r' \<longrightarrow> curl r = curl r' \<longrightarrow> p = q)
    \<and> distinct (g_curl_pool s) \<and> (\<forall>p r. reqs s p = Some r \<longrightarrow> curl r \<notin> set (g_curl_pool s))"
proof -
  from reachable_http_at [OF assms(3,1,2)] obtain pl where h: "http_at pl False [] {} s" .
  note A = http_atD [OF h]
  have a: "p \<in> active_http_requests s \<longleftrightarrow> pl p = Sending \<or> pl p = Waiting" for p
    using A(1) by (auto simp: lifecycle_def at_def)
  have w: "in_retry_wait r \<longleftrightarrow> pl p = Waiting" if "reqs s p = Some r" for p r
    using http_at_flags [OF h that] by (simp add: flags_ok_def)
  have e: "reqs s p = Some r \<and> pl p = Sending \<longleftrightarrow> p \<in> active_http_requests s \<and> reqs s p = Some r \<and> \<not> in_retry_wait r" for p r
    by (cases "reqs s p = Some r") (auto simp: a w)
  have "multi s = {curl r | p r. p \<in> active_http_requests s \<and> reqs s p = Some r \<and> \<not> in_retry_wait r}"
    unfolding curlsD(1) [OF A(2)] sending_def conj_assoc [symmetric] e by blast
  moreover have "info_private s (curl r) = Some p" if "p \<in> active_http_requests s" "reqs s p = Some r" for p r
    using curlsD(2) [OF A(2) that(2)] that(1) a by simp
  ultimately show ?thesis using A(2) unfolding curls_def by blast
qed


text \<open>C20: the counters that \<^verbatim>\<open>async2_GetHttpPoolStats\<close> reports are exact: the transfers in the multi handle
  and the requests that are queued.\<close>

theorem http_statistics_exact:
  assumes "env_ok env" "polite env" "http_reachable env s"
  shows "stats_active s = of_nat (card (multi s)) \<and> stats_pending s = of_nat (length (queue (pending_queue s)))
    \<and> http_curl_handles s = multi s"
proof -
  from reachable_http_at [OF assms(3,1,2)] obtain pl where h: "http_at pl False [] {} s" .
  from http_atD(4) [OF h] show ?thesis by (simp add: counters_ok_def)
qed

theorem http_never_stuck_witness:
  "\<exists>r. reqs sent_world 0 = Some r \<and> in_event_thread r \<and>
     (0 \<in> set (queue (pending_queue sent_world)) \<and> enabled AsyncAdd sent_world
    \<or> 0 \<in> active_http_requests sent_world \<and> (\<forall>result. enabled (JobsCompleted [(curl r, result)]) sent_world)
    \<or> 0 \<in> active_http_requests sent_world \<and> (\<exists>delay. enabled (RetryTimer (0, delay)) sent_world)
    \<or> 0 \<in> set (queue (done_queue sent_world)) \<and> HasItems (done_queue sent_world))"
proof -
  obtain r where r: "reqs sent_world 0 = Some r" "in_event_thread r" by (rule sent_request)
  from http_never_stuck [OF safe_http_ok safe_http_polite sent_reachable r] r show ?thesis by blast
qed

theorem http_handles_typed_witness:
  "GetHttpRequest 1 (handles sent_world) = Some 0 \<and> (\<exists>r. reqs sent_world 0 = Some r \<and> handle_id r = 1)"
  using http_handles_typed [OF safe_http_ok safe_http_polite sent_reachable] sent_world_simps(1) by blast

theorem http_curl_exclusive_witness:
  "{1} = {curl r | p r. p \<in> active_http_requests sent_world \<and> reqs sent_world p = Some r \<and> \<not> in_retry_wait r}"
  using http_curl_exclusive [OF safe_http_ok safe_http_polite sent_reachable] sent_world_simps(3) by simp


theorem http_statistics_exact_witness:
  "stats_active sent_world = 1 \<and> stats_active sent_world = of_nat (card {1 :: CURL})"
  using http_statistics_exact [OF safe_http_ok safe_http_polite sent_reachable] sent_world_simps(3,8) by simp

section \<open>A transfer that ends\<close>

lemma drop_request_run:
  assumes "handles_ok (reqs t) (jsons t) (handles t)" "reqs t p = Some r"
  shows "\<exists>t'. drop_handle (handle_id r) t = Done ((), t') \<and> reqs t' = (reqs t)(p := None) \<and> callbacks t' = callbacks t
    \<and> used (handles t') (handle_id r) = None"
proof -
  from handles_okD(3) [OF assms] obtain h where h: "used (handles t) (handle_id r) = Some h"
    "htype h = HANDLE_HTTP_REQUEST" "pointer h = p" by blast
  from drop_used [OF handles_okD(1) [OF assms(1)] h(1)] assms(2) show ?thesis
    by (simp add: drop_handle_def seq_def delete_pointer_def HttpRequest_delete_def ReleaseCurl_def curl_easy_reset_def
        curl_easy_cleanup_def req_at_def h(2,3))
qed

lemma job_run:
  assumes "info_private s (curl r) = Some p" "reqs s p = Some r" "parse_mode r = 0"
    and "\<not> ShouldRetry (response_code s (curl r)) (r\<lparr>curlcode := result\<rparr>)"
  shows "\<exists>s'. CheckCompletedJobs env [(curl r, result)] s = Done ((), s')
    \<and> reqs s' = (reqs s)(p \<mapsto> OnCompleted (r\<lparr>curlcode := result, completed := True\<rparr>))
    \<and> done_queue s' = Push p (done_queue s) \<and> response_code s' = response_code s \<and> callbacks s' = callbacks s
    \<and> g_plugin_contexts s' = g_plugin_contexts s \<and> handles s' = handles s \<and> jsons s' = jsons s"
  using assms by (simp add: CheckCompletedJobs_def complete_job_def seq_def req_update_def req_at_def parse_response_def finish_def)

definition callback_args :: "HttpRequest \<Rightarrow> i32 \<Rightarrow> i32 list" where
  "callback_args r httpcode =
     (let ok = \<not> handle_closed r \<and> curlcode r = 0
      in [handle_id r, if handle_closed r then 42 else curlcode r, if ok then httpcode else 0,
          if ok then cell_of_size (length (response_body r)) else 0, userdata r])"

lemma callback_run:
  assumes "handles_ok (reqs t) (jsons t) (handles t)" "reqs t p = Some r" "parse_mode r = 0"
    and "GetSourcepawnFunction env (plugin_context r) (callback_id r) t" "\<And>args s. script_calls env (plugin_context r) (callback_id r) args s = []"
  shows "\<exists>t'. OnCompletedGameThread env p t = Done ((), t') \<and> reqs t' = (reqs t)(p := None)
    \<and> callbacks t' = callbacks t @ [(plugin_context r, callback_id r, callback_args r (response_code t (curl r)))]
    \<and> used (handles t') (handle_id r) = None"
proof -
  define r' where "r' = (if handle_closed r then r\<lparr>in_event_thread := False, curlcode := 42\<rparr> else r\<lparr>in_event_thread := False\<rparr>)"
  define u where "u = callbacks_update (\<lambda>cs. cs @ [(plugin_context r, callback_id r, callback_args r (response_code t (curl r)))])
    (t\<lparr>reqs := (reqs t)(p \<mapsto> r')\<rparr>)"
  obtain f where f: "UntrackClientHandle (client_index r) (handle_id r) u = Done ((), g_client_handles_update f u)"
    by (cases "sint (client_index r) \<le> 0") (auto simp: UntrackClientHandle_def intro: that [of "\<lambda>m. m"])
  have r': "client_index r' = client_index r" "handle_id r' = handle_id r" by (simp_all add: r'_def)
  have "\<exists>t'. drop_handle (handle_id r) (g_client_handles_update f u) = Done ((), t') \<and> reqs t' = (reqs t)(p := None)
    \<and> callbacks t' = callbacks u \<and> used (handles t') (handle_id r) = None"
    using drop_request_run [of "g_client_handles_update f u" p r'] handles_same [OF assms(1,2), of r'] by (simp add: u_def r')
  moreover have "release_request r' u = drop_handle (handle_id r) (g_client_handles_update f u)"
    by (simp add: release_request_def seq_def f r')
  moreover have "OnCompletedGameThread env p t = release_request r' u"
    using assms(2-5) by (auto simp: OnCompletedGameThread_def seq_def req_update_def req_at_def GetSourcepawnFunction_def execute_def
        run_script_def Let_def u_def r'_def callback_args_def cell_of_size_def)
  ultimately show ?thesis unfolding u_def by simp
qed

lemma frame_run:
  assumes "queue_ok (done_queue t)" "queue (done_queue t) = [p]"
    and "\<And>b. \<exists>t'. OnCompletedGameThread env p (t\<lparr>async_add := b, done_queue := LockedQueue_init\<rparr>) = Done ((), t') \<and> P t'"
  shows "\<exists>t'. OnGameFrame env t = Done ((), t') \<and> P t'"
proof -
  define b where "b = (if HasItems (pending_queue t) then True else async_add t)"
  have sig: "SignalPending t = Done ((), t\<lparr>async_add := b\<rparr>)" by (simp add: SignalPending_def seq_def b_def)
  have "HasItems (done_queue t)" using assms(1,2) by (simp add: HasItems_def queue_ok_def)
  moreover have "DrainCompleted (t\<lparr>async_add := b\<rparr>) = Done ([p], t\<lparr>async_add := b, done_queue := LockedQueue_init\<rparr>)"
    using assms(1,2) by (simp add: DrainCompleted_def seq_def drain_done)
  ultimately show ?thesis using assms(3) [of b] by (auto simp: OnGameFrame_def seq_def sig)
qed





end
