(* ===== verification/Http_Misuse.thy ===== *)
theory Http_Misuse
  imports Http_Safety
begin

text \<open>
  What the hypotheses of \<open>Http_Safety\<close> on scripts exclude: runs in which a script closes or executes a request
  inside its callback, passes a request where a tree is expected, or passes a negative delay or length.  The last
  run needs no such script: a cancellation that meets a new request at the address of an old one.
\<close>

section \<open>Callbacks\<close>



section \<open>Arguments\<close>



section \<open>A cancellation that comes late\<close>


end
