(* ===== verification/Spec2Isabelle.thy ===== *)
theory Spec2Isabelle
  imports Locked_Queue Data_Node MsgPack Linked_List Handle_Manager Json_Hjson Json_Safety Http_Misuse
begin

text \<open>
  A verification library of async2, a SourceMod extension.  Scripts call natives on the game thread; an event
  thread runs the network work; what is finished comes back through queues and is handed to script callbacks in
  the next frame of the game.  Scripts hold handles, numbers that a table maps to objects: HTTP requests, trees
  of data nodes that are parsed from and printed to JSON, Hjson and MessagePack, iterators over such trees, and
  linked lists.  File names below are those under \<^verbatim>\<open>src/src\<close>.


  \<^bold>\<open>Shared vocabulary.\<close>

  \<^item> \<open>Async2_Prelude\<close>: names for the machine integers (\<open>i32\<close>, \<open>u64\<close>, ... are words of that width), the outcome type
    of code that returns a value, a null pointer or faults, hash maps as association lists with distinct keys
    whose order is a \<open>layout\<close> parameter, and the locale \<open>refinement\<close> for a class whose operations implement a
    specification.
  \<^item> \<open>Effects\<close>: actions on a state that end or crash; the kind of the crash is recorded (use of freed memory, null
    pointer, wrong union member, ...).  \<open>wp\<close> is the weakest precondition; it tolerates three kinds that a script or its
    data can cause: an address outside the script's memory, a double outside the range of an integer, a full stack.
  \<^item> \<open>Script_Memory\<close>: a plugin's memory as natives see it.  \<open>C_Library\<close>: the conversions of numbers to and from text.


  \<^bold>\<open>Queues, handles, lists.\<close>

  \<^item> \<open>Locked_Queue\<close> (\<^verbatim>\<open>locked_queue.h\<close>): one definition per method on a record of the deque and the flag; the
    locale \<open>fifo_queue\<close>, and that a consumer gets exactly what was pushed, in order.
  \<^item> \<open>Handle_Manager\<close> (\<^verbatim>\<open>handle_manager.h\<close>, \<^verbatim>\<open>.cpp\<close>): the table with its index of the plugins' handles refines a map;
    the search for a free number ends; every object is deleted exactly once.
  \<^item> \<open>Linked_List\<close> (\<^verbatim>\<open>linked_list.h\<close>, \<^verbatim>\<open>.cpp\<close>): nodes in a store, linked by address, refine a list of pairs.


  \<^bold>\<open>Trees and text formats.\<close>

  \<^item> \<open>Data_Node\<close> (\<^verbatim>\<open>data/data_node.h\<close>, \<^verbatim>\<open>.cpp\<close>): trees as values, with \<^verbatim>\<open>Equals\<close> and \<^verbatim>\<open>DeepCopy\<close>.
  \<^item> \<open>MsgPack\<close> (\<^verbatim>\<open>msgpack/\<close>): writer and reader; what is written is read back, and the reader stays inside its buffer.
  \<^item> \<open>Json_Text\<close>, \<open>Float_Text\<close>: the JSON printer.  \<open>Hjson_Scan\<close>, \<open>Hjson\<close>, \<open>Hjson_Safety\<close> (\<^verbatim>\<open>hjson/hjson_parse.cpp\<close>): the scanners,
    scalar and AVX2, behind the locale \<open>scanner\<close>, and the parser; it returns on every text, both tables of scanners
    give the same result, and the one fault is shown.  \<open>Json_Hjson\<close>: what the printer prints, the parser reads back.
  \<^item> \<open>Json_Parse\<close>: \<^verbatim>\<open>DataParseJson\<close>, with the on-demand parser of simdjson as a parameter.


  \<^bold>\<open>Nodes with reference counts, and the JSON natives.\<close>

  \<^item> \<open>Data_Heap\<close> models nodes as cells of a heap with counts; \<open>Heap_Counts\<close>, \<open>Heap_Ops\<close> (with the locale \<open>node_map\<close>, which
    objects and integer maps implement), \<open>Heap_Merge\<close> (\<open>node_merge\<close>, which extends it) and \<open>Heap_Moves\<close> show that each
    operation keeps the counts exact, and what an iterator sees of it.
  \<^item> \<open>Data_Handle\<close> (\<^verbatim>\<open>data/data_handle.cpp\<close>, \<^verbatim>\<open>data/data_iterator.cpp\<close>), \<open>Json_Runtime\<close> and \<open>Json_Natives\<close> (\<^verbatim>\<open>natives_json.cpp\<close>): one
    definition per method and native, and the table of natives.
  \<^item> \<open>Runtime_Invariant\<close>, \<open>Native_Rules\<close>, \<open>Json_Natives_Safe\<close>, \<open>Json_Calls\<close> and \<open>Json_Safety\<close>: the invariant, one rule per piece,
    one lemma per native, and the theorems about sequences of calls: memory safety, exact counts, no leak, and the
    runs in which a native with a defect crashes.


  \<^bold>\<open>HTTP, across the two threads.\<close>

  \<^item> \<open>Header_Map\<close> (\<^verbatim>\<open>header_map.h\<close>): the ordered map without case refines a map; the lines for curl are safe.
  \<^item> \<open>Http_Request\<close> (\<^verbatim>\<open>http_request.h\<close>, \<^verbatim>\<open>.cpp\<close>): requests, the pool of curl handles, and the state of the HTTP part.  \<open>Http_Loop\<close>
    (\<^verbatim>\<open>event_loop.cpp\<close>): the handlers of the event thread.  \<open>Http_Natives\<close> (\<^verbatim>\<open>natives_http.cpp\<close>, \<^verbatim>\<open>extension.cpp\<close>): the
    natives and the handlers of the game thread; a callback is script code, which calls natives.
  \<^item> \<open>Http_Invariant\<close>: each request is in one place of its life, and queues, sets, flags, libcurl and the handle table
    agree on it.  \<open>Http_Steps\<close> and \<open>Http_Calls\<close>: one rule per handler and native.
  \<^item> \<open>Http_Safety\<close>: the handlers of both threads, interleaved in any order, as a transition system: no use of freed
    memory, no request in two places, none stuck, handles that lead to live objects, curl handles that are not
    shared, bounded retries, exact counters, and the completion of a transfer from its message to its callback.
    \<open>Http_Misuse\<close>: what happens to scripts that the hypotheses exclude, and a cancellation that hits the wrong request.


  \<^bold>\<open>Hypotheses.\<close>  The allocators give out what is free (\<open>env_ok\<close>).  For the HTTP theorems scripts are \<open>mindful\<close>: they do
  not close or execute a request inside its own callback, do not pass a request where a tree is expected, and
  pass no negative length or delay.  For the JSON natives the calls are fewer than \<open>2 ^ 24\<close>, the range of the
  version counter, and the natives with a known defect are used with care.  Each hypothesis has a concrete
  instance, and most of the excluded cases have a run that shows why they are excluded.  The bound on the delay of
  a retry asks that random numbers are drawn from the range they are asked for.


  \<^bold>\<open>Bounds.\<close>  Recursion over nodes takes the number of frames that the stack has room for (\<open>stack\<close> of the environment);
  running out is the crash \<open>StackOverflow\<close>, and one frame per node is enough for \<open>Decref\<close> (theorem \<open>Decref_counts\<close>).  The
  nesting limits of the parsers and the printer are those of the code.  Loops are functions with a termination proof;
  the search of the handle table is a partial function, and is proved to return.


  \<^bold>\<open>Not modelled.\<close>  A handler is one step, so data races inside handlers are outside the model, as are the mutexes
  beyond the steps they make atomic.  TCP, UDP and WebSocket sockets with their natives and the dispatch of their
  events are not modelled; they would need libuv's handles and curl's WebSocket functions as parameters of every
  callback.  The DNS resolver, the digests and encodings of \<^verbatim>\<open>natives_crypto.cpp\<close>, \<^verbatim>\<open>natives_url.cpp\<close>, \<^verbatim>\<open>natives_utils.cpp\<close>,
  \<^verbatim>\<open>natives_curl.cpp\<close> and \<^verbatim>\<open>compression.cpp\<close> are not modelled: most of that code calls c-ares, OpenSSL, libcurl and
  zlib.  The natives of linked lists, Hjson and MessagePack, apart from \<^verbatim>\<open>SetBodyMsgPack\<close>, are thin wrappers of classes
  that are modelled.  The node pool is replaced by fresh addresses, and its statistics native is left out.  Start and
  stop of the event thread, loading of the extension, the console command and the log lines are left out.
\<close>

end
